(* ===== verification/Prelude.thy ===== *)
theory Prelude imports Main "HOL-Library.Word" "HOL-Library.Multiset" begin

text \<open>
  What every component of the LioNet model shares: the ways a C++ operation of the program can go
  wrong (\<open>fault\<close>), results that carry them (\<open>res\<close>), the \<open>std::string\<close> operations
  the sources call, \<open>std::map\<close> with an observable iteration order, and the lemmas on lists of
  per-thread records that the concurrent components count with.
\<close>

text \<open>
  \<open>inv_ops\<close> collects, per component, that an operation keeps its invariant; \<open>frame_ops\<close> what an operation
  leaves alone.
\<close>

named_theorems inv_ops
named_theorems frame_ops

section \<open>Faults and results\<close>

text \<open>
  \<open>AssertFailed\<close> is \<open>LIONET_ASSERT\<close>/\<open>LIONET_ASSERT2\<close> of \<open>macro.h\<close> (the build
  does not define \<open>NDEBUG\<close>, so \<open>assert\<close> aborts). The next four are undefined behaviour the
  sources can reach: a null pointer dereference, an access to a dead object, an access outside an
  object, a read of an indeterminate value. \<open>Thrown\<close> is an exception that leaves the operation.
\<close>

datatype fault =
    AssertFailed | NullDeref | UseAfterFree | OutOfBounds | UninitRead | Thrown string

type_synonym 'a res = "fault + 'a"

definition res_bind :: "'a res \<Rightarrow> ('a \<Rightarrow> 'b res) \<Rightarrow> 'b res" where
  "res_bind m f = (case m of Inl e \<Rightarrow> Inl e | Inr x \<Rightarrow> f x)"

text \<open>\<open>LIONET_ASSERT(b)\<close> followed by the rest of the function.\<close>

definition lionet_assert :: "bool \<Rightarrow> 'a res \<Rightarrow> 'a res" where
  "lionet_assert b k = (if b then k else Inl AssertFailed)"

lemma res_bind_simps [simp]:
  "res_bind (Inl e) f = Inl e"
  "res_bind (Inr x) f = f x"
  by (simp_all add: res_bind_def)

lemma res_bind_Inr_iff: "res_bind m f = Inr y \<longleftrightarrow> (\<exists>x. m = Inr x \<and> f x = Inr y)"
  by (cases m) auto

lemma res_bind_InrE [elim]:
  assumes "res_bind m f = Inr y"
  obtains x where "m = Inr x" and "f x = Inr y"
  using assms by (auto simp: res_bind_Inr_iff)

lemma lionet_assert_simps [simp]:
  "lionet_assert True k = k"
  "lionet_assert False k = Inl AssertFailed"
  by (simp_all add: lionet_assert_def)

lemma lionet_assert_Inr_iff [simp]: "lionet_assert b k = Inr y \<longleftrightarrow> b \<and> k = Inr y"
  by (simp add: lionet_assert_def)

section \<open>Strings\<close>

text \<open>\<open>std::string::substr(pos, n)\<close> for \<open>pos\<close> inside the string.\<close>

definition substr :: "string \<Rightarrow> nat \<Rightarrow> nat \<Rightarrow> string" where
  "substr s pos n = take n (drop pos s)"

text \<open>\<open>std::string::rfind(c)\<close>, with \<open>None\<close> for \<open>npos\<close>.\<close>

fun str_rfind :: "char \<Rightarrow> string \<Rightarrow> nat option" where
  "str_rfind c [] = None"
| "str_rfind c (x # xs) =
     (case str_rfind c xs of Some i \<Rightarrow> Some (Suc i) | None \<Rightarrow> if x = c then Some 0 else None)"

text \<open>\<open>s.find_first_not_of(cs) != npos\<close>.\<close>

fun has_char_not_in :: "string \<Rightarrow> string \<Rightarrow> bool" where
  "has_char_not_in cs [] \<longleftrightarrow> False"
| "has_char_not_in cs (x # xs) \<longleftrightarrow> x \<notin> set cs \<or> has_char_not_in cs xs"

text \<open>What a C function sees of a \<open>std::string\<close> given to it by \<open>c_str()\<close>.\<close>

definition c_str :: "string \<Rightarrow> string" where
  "c_str s = takeWhile (\<lambda>c. c \<noteq> CHR 0x00) s"

text \<open>\<open>isspace\<close>, \<open>isalpha\<close> and \<open>tolower\<close> in the C locale, on bytes.\<close>

definition char_code :: "char \<Rightarrow> nat" where
  "char_code c = of_char c"

definition is_space :: "char \<Rightarrow> bool" where
  "is_space c \<longleftrightarrow> char_code c = 32 \<or> 9 \<le> char_code c \<and> char_code c \<le> 13"

definition is_upper :: "char \<Rightarrow> bool" where
  "is_upper c \<longleftrightarrow> 65 \<le> char_code c \<and> char_code c \<le> 90"

definition is_alpha :: "char \<Rightarrow> bool" where
  "is_alpha c \<longleftrightarrow> is_upper c \<or> (97 \<le> char_code c \<and> char_code c \<le> 122)"

definition to_lower :: "char \<Rightarrow> char" where
  "to_lower c = (if is_upper c then char_of (char_code c + 32) else c)"

lemma str_rfind_None_iff: "str_rfind c s = None \<longleftrightarrow> c \<notin> set s"
  by (induction s) (auto split: option.splits if_splits)

lemma str_rfind_Some:
  assumes "str_rfind c s = Some i"
  shows "i < length s \<and> s ! i = c \<and> c \<notin> set (drop (Suc i) s)"
  using assms
proof (induction s arbitrary: i)
  case (Cons x xs)
  show ?case
  proof (cases "str_rfind c xs")
    case None
    with Cons.prems show ?thesis by (auto simp: str_rfind_None_iff split: if_splits)
  next
    case (Some j)
    with Cons.IH Cons.prems show ?thesis by auto
  qed
qed simp

lemma str_rfind_split:
  assumes "str_rfind c s = Some i"
  shows "take i s @ c # drop (Suc i) s = s"
  using str_rfind_Some [OF assms] by (auto intro: id_take_nth_drop [symmetric])

lemma str_rfind_append: "c \<notin> set ys \<Longrightarrow> str_rfind c (xs @ c # ys) = Some (length xs)"
  by (induction xs) (simp_all add: str_rfind_None_iff [THEN iffD2])

lemma has_char_not_in_iff: "has_char_not_in cs s \<longleftrightarrow> \<not> set s \<subseteq> set cs"
  by (induction s) auto

section \<open>Machine words\<close>

lemma unat_less_pow: "unat (w :: 'a::len word) < 2 ^ LENGTH('a)"
  by (rule unsigned_less)

lemma of_nat_word_inj_below:
  assumes "(of_nat a :: 'w::len word) = of_nat b" and "a < 2 ^ LENGTH('w)" and "b < 2 ^ LENGTH('w)"
  shows "a = b"
  using assms unfolding word_of_nat_eq_iff by (simp add: take_bit_eq_mod)

section \<open>Lists of per-thread records\<close>

text \<open>
  A total over the entries of a list (a number of threads in some phase, a multiset of objects the
  threads hold) changes by the entry that is replaced.
\<close>

lemma sum_list_map_update:
  fixes g :: "'a \<Rightarrow> 'b::comm_monoid_add"
  assumes "i < length xs"
  shows "sum_list (map g (xs[i := y])) + g (xs ! i) = sum_list (map g xs) + g y"
  using assms
proof (induction xs arbitrary: i)
  case (Cons x xs)
  show ?case
  proof (cases i)
    case 0
    then show ?thesis by (simp add: ac_simps)
  next
    case (Suc j)
    with Cons.prems have "sum_list (map g (xs[j := y])) + g (xs ! j) = sum_list (map g xs) + g y"
      by (intro Cons.IH) simp
    with Suc show ?thesis by (simp add: ac_simps)
  qed
qed simp

lemma nth_le_sum_list_mset:
  assumes "i < length xs"
  shows "g (xs ! i) \<subseteq># sum_list (map g xs)"
  using assms
proof (induction xs arbitrary: i)
  case (Cons x xs)
  show ?case
  proof (cases i)
    case (Suc j)
    with Cons.prems have "g (xs ! j) \<subseteq># sum_list (map g xs)" by (intro Cons.IH) simp
    with Suc show ?thesis by (auto intro: subset_mset.add_increasing)
  qed simp
qed simp

lemma two_nth_le_sum_list_mset:
  assumes "i < length xs" and "j < length xs" and "i \<noteq> j"
  shows "g (xs ! i) + g (xs ! j) \<subseteq># sum_list (map g xs)"
  using assms
proof (induction xs arbitrary: i j)
  case (Cons x xs)
  show ?case
  proof (cases i)
    case 0
    with Cons.prems obtain j' where j': "j = Suc j'" "j' < length xs"
      by (cases j) auto
    with 0 show ?thesis
      using nth_le_sum_list_mset [of j' xs g] by simp
  next
    case (Suc i')
    note i' = this
    show ?thesis
    proof (cases j)
      case 0
      with i' Cons.prems show ?thesis
        using nth_le_sum_list_mset [of i' xs g] by (simp add: add.commute)
    next
      case (Suc j')
      with i' Cons.prems have "g (xs ! i') + g (xs ! j') \<subseteq># sum_list (map g xs)"
        by (intro Cons.IH) auto
      with i' Suc show ?thesis by (auto intro: subset_mset.add_increasing)
    qed
  qed
qed simp

section \<open>Ordered maps\<close>

text \<open>
  \<open>std::map\<close> where the program observes its iteration order: the entries in ascending order of
  their keys. \<open>omap_put\<close> is \<open>m[k] = v\<close>, \<open>omap_erase\<close> is \<open>m.erase(k)\<close>.
\<close>

fun omap_put :: "'k::linorder \<Rightarrow> 'v \<Rightarrow> ('k \<times> 'v) list \<Rightarrow> ('k \<times> 'v) list" where
  "omap_put k v [] = [(k, v)]"
| "omap_put k v ((k', v') # m) =
     (if k < k' then (k, v) # (k', v') # m
      else if k = k' then (k, v) # m
      else (k', v') # omap_put k v m)"

definition omap_erase :: "'k \<Rightarrow> ('k \<times> 'v) list \<Rightarrow> ('k \<times> 'v) list" where
  "omap_erase k m = filter (\<lambda>(k', v'). k' \<noteq> k) m"

definition omap_ok :: "('k::linorder \<times> 'v) list \<Rightarrow> bool" where
  "omap_ok m \<longleftrightarrow> sorted_wrt (<) (map fst m)"

lemma set_omap_put: "fst ` set (omap_put k v m) = insert k (fst ` set m)"
  by (induction k v m rule: omap_put.induct) auto

lemma omap_put_ok: "omap_ok m \<Longrightarrow> omap_ok (omap_put k v m)"
proof (induction k v m rule: omap_put.induct)
  case (2 k v k' v' m)
  then show ?case
    using set_omap_put [of k v m]
    by (auto simp: omap_ok_def)
qed (simp add: omap_ok_def)

lemma map_of_omap_put: "omap_ok m \<Longrightarrow> map_of (omap_put k v m) = (map_of m)(k \<mapsto> v)"
  by (induction k v m rule: omap_put.induct) (auto simp: omap_ok_def fun_upd_twist fun_upd_def)

lemma omap_erase_ok: "omap_ok m \<Longrightarrow> omap_ok (omap_erase k m)"
  by (induction m) (auto simp: omap_ok_def omap_erase_def)

lemma map_of_omap_erase: "map_of (omap_erase k m) = (map_of m)(k := None)"
  by (induction m) (auto simp: omap_erase_def fun_eq_iff)

end
