(* ===== verification/Fiber.thy ===== *)
theory Fiber imports Prelude begin

text \<open>
  \<open>LioNet/fiber.h\<close> and \<open>fiber.cc\<close>: stackful coroutines over \<open>ucontext\<close>. The state is
  the heap of \<open>Fiber\<close> objects, the two global counters, the three thread-local pointers of one
  thread and the point where that thread executes. \<open>swapcontext\<close> saves the execution point in one
  fiber's context and continues at another's; a fiber's function is a program of type
  \<open>coro\<close> that acts, schedules, yields, returns or throws. The main result is that a
  \<open>swapIn\<close> followed by the machine's steps is one \<open>slice\<close> of that program and ends back in
  the scheduler. \<open>shared_ptr\<close> reference counts are not modelled: an object lives until its
  destructor is called.
\<close>

section \<open>Data\<close>

text \<open>\<open>Fiber::State\<close>; \<open>TERM_S\<close> is the source's \<open>TERM\<close>.\<close>

datatype fiber_state = INIT | HOLD | EXEC | TERM_S | READY | EXCEPT

text \<open>
  What a fiber's function does, as seen by the library: user actions, \<open>schedule(func, thread)\<close>,
  \<open>schedule(Fiber::GetThis(), thread)\<close>, the two yields, a return or an exception.
\<close>

datatype 'a coro =
    Return
  | Throw
  | Act 'a "'a coro"
  | Spawn "'a coro" int "'a coro"
  | ScheduleSelf int "'a coro"
  | YieldReady "'a coro"
  | YieldHold "'a coro"

datatype 'a event = Did 'a | Spawned "'a coro" int | SelfScheduled int

text \<open>The entry function \<open>makecontext\<close> is given.\<close>

datatype entry = MainFunc | CallerMainFunc

text \<open>
  An execution point: before the entry function, inside \<open>cur->m_func()\<close> (with the entry's local
  \<open>cur\<close> and the rest of the program), after the entry's last switch, or in code that is not a
  fiber function (a thread's own stack, numbered by the caller).
\<close>

datatype 'a kont =
    Start entry
  | Body entry nat "'a coro"
  | AfterSwap entry nat
  | Host nat

text \<open>\<open>m_stack\<close>: the constructor of a thread's main fiber leaves it indeterminate.\<close>

datatype stack_ptr = StackUninit | StackNull | StackMem "32 word"

record 'a fiber =
  f_id :: "64 word"
  f_stacksize :: "32 word option"
  f_state :: fiber_state
  f_ctx :: "'a kont"
  f_stack :: stack_ptr
  f_func :: "'a coro option"

record 'a fctx =
  fibers :: "nat \<Rightarrow> 'a fiber option"
  next_addr :: nat
  s_fiber_id :: "64 word"
  s_fiber_count :: "64 word"
  t_fiber :: "nat option"
  t_threadFiber :: "nat option"
  t_scheduler_fiber :: "nat option"
  cur :: "'a kont"
  events :: "'a event list"

section \<open>Operations\<close>

definition deref :: "nat option \<Rightarrow> 'a fctx \<Rightarrow> (nat \<times> 'a fiber) res" where
  "deref p s = (case p of None \<Rightarrow> Inl NullDeref
     | Some f \<Rightarrow> (case fibers s f of None \<Rightarrow> Inl UseAfterFree | Some fb \<Rightarrow> Inr (f, fb)))"

definition put_fiber :: "nat \<Rightarrow> 'a fiber \<Rightarrow> 'a fctx \<Rightarrow> 'a fctx" where
  "put_fiber f fb s = s\<lparr>fibers := (fibers s)(f \<mapsto> fb)\<rparr>"

definition put_state :: "nat \<Rightarrow> fiber_state \<Rightarrow> 'a fctx \<Rightarrow> 'a fctx res" where
  "put_state f st s =
     res_bind (deref (Some f) s) (\<lambda>(f, fb). Inr (put_fiber f (fb\<lparr>f_state := st\<rparr>) s))"

definition SetThis :: "nat option \<Rightarrow> 'a fctx \<Rightarrow> 'a fctx" where
  "SetThis p s = s\<lparr>t_fiber := p\<rparr>"

text \<open>\<open>swapcontext(&from->m_ctx, &to->m_ctx)\<close>; \<open>k\<close> is the point after the call.\<close>

definition swapcontext :: "nat option \<Rightarrow> nat option \<Rightarrow> 'a kont \<Rightarrow> 'a fctx \<Rightarrow> 'a fctx res" where
  "swapcontext from to k s =
     res_bind (deref from s) (\<lambda>(a, fa).
       let s1 = put_fiber a (fa\<lparr>f_ctx := k\<rparr>) s
       in res_bind (deref to s1) (\<lambda>(b, fb). Inr (s1\<lparr>cur := f_ctx fb\<rparr>)))"

text \<open>\<open>Fiber::Fiber()\<close>: the main fiber of a thread.\<close>

definition Fiber_main :: "'a fctx \<Rightarrow> nat \<times> 'a fctx" where
  "Fiber_main s =
     (let a = next_addr s;
          fb = \<lparr>f_id = s_fiber_id s + 1, f_stacksize = None, f_state = EXEC, f_ctx = cur s,
                f_stack = StackUninit, f_func = None\<rparr>
      in (a, (SetThis (Some a) (put_fiber a fb s))
               \<lparr>next_addr := Suc a, s_fiber_id := s_fiber_id s + 1,
                s_fiber_count := s_fiber_count s + 1\<rparr>))"

text \<open>
  \<open>Fiber::Fiber(func, stacksize, use_caller)\<close>; \<open>stack_cfg\<close> is
  \<open>g_fiber_stack_size->getValue()\<close>. The conversion to \<open>uint32_t m_stacksize\<close> truncates.
\<close>

definition stack_size_of :: "32 word \<Rightarrow> 64 word \<Rightarrow> 32 word" where
  "stack_size_of stack_cfg stacksize = ucast (if stacksize \<noteq> 0 then stacksize else ucast stack_cfg)"

definition Fiber_new ::
    "32 word \<Rightarrow> 'a coro option \<Rightarrow> 64 word \<Rightarrow> bool \<Rightarrow> 'a fctx \<Rightarrow> nat \<times> 'a fctx" where
  "Fiber_new stack_cfg func stacksize use_caller s =
     (let a = next_addr s;
          sz = stack_size_of stack_cfg stacksize;
          fb = \<lparr>f_id = s_fiber_id s + 1, f_stacksize = Some sz, f_state = INIT,
                f_ctx = Start (if \<not> use_caller then MainFunc else CallerMainFunc),
                f_stack = StackMem sz, f_func = func\<rparr>
      in (a, (put_fiber a fb s)
               \<lparr>next_addr := Suc a, s_fiber_id := s_fiber_id s + 1,
                s_fiber_count := s_fiber_count s + 1\<rparr>))"

text \<open>\<open>Fiber::~Fiber()\<close>\<close>

definition Fiber_delete :: "nat \<Rightarrow> 'a fctx \<Rightarrow> 'a fctx res" where
  "Fiber_delete f s =
     res_bind (deref (Some f) s) (\<lambda>(f, fb).
       let s1 = s\<lparr>s_fiber_count := s_fiber_count s - 1\<rparr>;
           free = (\<lambda>s. s\<lparr>fibers := (fibers s)(f := None)\<rparr>)
       in case f_stack fb of
            StackUninit \<Rightarrow> Inl UninitRead
          | StackMem sz \<Rightarrow>
              lionet_assert (f_state fb = TERM_S \<or> f_state fb = EXCEPT \<or> f_state fb = INIT)
                (Inr (free s1))
          | StackNull \<Rightarrow>
              lionet_assert (f_func fb = None)
                (lionet_assert (f_state fb = EXEC)
                  (Inr (free (if t_fiber s1 = Some f then SetThis None s1 else s1)))))"

text \<open>\<open>Fiber::reset(func)\<close>\<close>

definition Fiber_reset :: "nat \<Rightarrow> 'a coro option \<Rightarrow> 'a fctx \<Rightarrow> 'a fctx res" where
  "Fiber_reset f func s =
     res_bind (deref (Some f) s) (\<lambda>(f, fb).
       if f_stack fb = StackUninit then Inl UninitRead
       else lionet_assert (f_stack fb \<noteq> StackNull)
         (lionet_assert (f_state fb = TERM_S \<or> f_state fb = EXCEPT \<or> f_state fb = INIT)
           (Inr (put_fiber f (fb\<lparr>f_func := func, f_ctx := Start MainFunc, f_state := INIT\<rparr>) s))))"

definition Fiber_call :: "nat \<Rightarrow> 'a kont \<Rightarrow> 'a fctx \<Rightarrow> 'a fctx res" where
  "Fiber_call f k s =
     res_bind (put_state f EXEC (SetThis (Some f) s)) (\<lambda>s1.
       swapcontext (t_threadFiber s1) (Some f) k s1)"

definition Fiber_back :: "nat \<Rightarrow> 'a kont \<Rightarrow> 'a fctx \<Rightarrow> 'a fctx res" where
  "Fiber_back f k s =
     (let s1 = SetThis (t_threadFiber s) s in swapcontext (Some f) (t_threadFiber s1) k s1)"

definition swapIn :: "nat \<Rightarrow> 'a kont \<Rightarrow> 'a fctx \<Rightarrow> 'a fctx res" where
  "swapIn f k s =
     res_bind (put_state f EXEC (SetThis (Some f) s)) (\<lambda>s1.
       swapcontext (t_scheduler_fiber s1) (Some f) k s1)"

definition swapOut :: "nat \<Rightarrow> 'a kont \<Rightarrow> 'a fctx \<Rightarrow> 'a fctx res" where
  "swapOut f k s =
     (let s1 = SetThis (t_scheduler_fiber s) s in swapcontext (Some f) (t_scheduler_fiber s1) k s1)"

text \<open>\<open>Fiber::GetThis()\<close> makes the thread's main fiber at its first use.\<close>

definition Fiber_GetThis :: "'a fctx \<Rightarrow> (nat \<times> 'a fctx) res" where
  "Fiber_GetThis s = (case t_fiber s of
       Some f \<Rightarrow> res_bind (deref (Some f) s) (\<lambda>(f, fb). Inr (f, s))
     | None \<Rightarrow>
         (let (a, s1) = Fiber_main s
          in lionet_assert (t_fiber s1 = Some a) (Inr (a, s1\<lparr>t_threadFiber := Some a\<rparr>))))"

definition yield_with :: "fiber_state \<Rightarrow> 'a kont \<Rightarrow> 'a fctx \<Rightarrow> 'a fctx res" where
  "yield_with st k s =
     res_bind (Fiber_GetThis s) (\<lambda>(c, s1).
       res_bind (deref (Some c) s1) (\<lambda>(c, fb).
         lionet_assert (f_state fb = EXEC)
           (res_bind (put_state c st s1) (swapOut c k))))"

definition YieldToReady :: "'a kont \<Rightarrow> 'a fctx \<Rightarrow> 'a fctx res" where
  "YieldToReady k s = yield_with READY k s"

definition YieldToHold :: "'a kont \<Rightarrow> 'a fctx \<Rightarrow> 'a fctx res" where
  "YieldToHold k s = yield_with HOLD k s"

definition TotalFibers :: "'a fctx \<Rightarrow> 64 word" where
  "TotalFibers s = s_fiber_count s"

definition Fiber_GetFiberId :: "'a fctx \<Rightarrow> 64 word res" where
  "Fiber_GetFiberId s = (case t_fiber s of
       Some f \<Rightarrow> res_bind (deref (Some f) s) (\<lambda>(f, fb). Inr (f_id fb))
     | None \<Rightarrow> Inr 0)"

text \<open>
  The end of \<open>MainFunc\<close> and \<open>CallerMainFunc\<close>: the result of the function is recorded in the
  fiber \<open>c\<close> and the thread leaves it for good.
\<close>

definition leave_entry :: "entry \<Rightarrow> nat \<Rightarrow> 'a fctx \<Rightarrow> 'a fctx res" where
  "leave_entry e c s = (case e of
       MainFunc \<Rightarrow> swapOut c (AfterSwap e c) s
     | CallerMainFunc \<Rightarrow> Fiber_back c (AfterSwap e c) s)"

definition entry_returned :: "entry \<Rightarrow> nat \<Rightarrow> 'a fctx \<Rightarrow> 'a fctx res" where
  "entry_returned e c s =
     res_bind (deref (Some c) s) (\<lambda>(c, fb).
       leave_entry e c (put_fiber c (fb\<lparr>f_func := None, f_state := TERM_S\<rparr>) s))"

definition entry_threw :: "entry \<Rightarrow> nat \<Rightarrow> 'a fctx \<Rightarrow> 'a fctx res" where
  "entry_threw e c s = res_bind (put_state c EXCEPT s) (leave_entry e c)"

definition log_event :: "'a event \<Rightarrow> 'a fctx \<Rightarrow> 'a fctx" where
  "log_event ev s = s\<lparr>events := events s @ [ev]\<rparr>"

text \<open>
  One step of the thread at \<open>cur\<close>. An empty \<open>std::function\<close> throws \<open>bad_function_call\<close>
  when it is called.
\<close>

definition fiber_step :: "'a fctx \<Rightarrow> 'a fctx res" where
  "fiber_step s = (case cur s of
       Start e \<Rightarrow> res_bind (Fiber_GetThis s) (\<lambda>(c, s1).
          res_bind (deref (Some c) s1) (\<lambda>(c, fb).
            case f_func fb of
              None \<Rightarrow> entry_threw e c s1
            | Some b \<Rightarrow> Inr (s1\<lparr>cur := Body e c b\<rparr>)))
     | Body e c b \<Rightarrow> (case b of
          Return \<Rightarrow> entry_returned e c s
        | Throw \<Rightarrow> entry_threw e c s
        | Act a b' \<Rightarrow> Inr (log_event (Did a) s\<lparr>cur := Body e c b'\<rparr>)
        | Spawn g t b' \<Rightarrow> Inr (log_event (Spawned g t) s\<lparr>cur := Body e c b'\<rparr>)
        | ScheduleSelf t b' \<Rightarrow> Inr (log_event (SelfScheduled t) s\<lparr>cur := Body e c b'\<rparr>)
        | YieldReady b' \<Rightarrow> YieldToReady (Body e c b') s
        | YieldHold b' \<Rightarrow> YieldToHold (Body e c b') s)
     | AfterSwap e c \<Rightarrow> Inl AssertFailed
     | Host n \<Rightarrow> Inr s)"

text \<open>The thread runs until it is out of fiber code; \<open>None\<close> when the fuel is too small.\<close>

fun run_fiber :: "nat \<Rightarrow> 'a fctx \<Rightarrow> 'a fctx res option" where
  "run_fiber n s = (case cur s of
       Host h \<Rightarrow> Some (Inr s)
     | _ \<Rightarrow> (case n of 0 \<Rightarrow> None
              | Suc m \<Rightarrow> (case fiber_step s of Inl e \<Rightarrow> Some (Inl e) | Inr s' \<Rightarrow> run_fiber m s')))"



section \<open>A time slice\<close>

text \<open>
  The reference for one \<open>swapIn\<close>: the events of the fiber up to its next switch, the state it
  leaves in, and the rest of its function.
\<close>

fun slice :: "'a coro \<Rightarrow> 'a event list \<times> fiber_state \<times> 'a coro option" where
  "slice Return = ([], TERM_S, None)"
| "slice Throw = ([], EXCEPT, None)"
| "slice (Act a k) = (let (ev, st, r) = slice k in (Did a # ev, st, r))"
| "slice (Spawn g t k) = (let (ev, st, r) = slice k in (Spawned g t # ev, st, r))"
| "slice (ScheduleSelf t k) = (let (ev, st, r) = slice k in (SelfScheduled t # ev, st, r))"
| "slice (YieldReady k) = ([], READY, Some k)"
| "slice (YieldHold k) = ([], HOLD, Some k)"

text \<open>The fiber object after a slice that ended with \<open>(ev, st, r)\<close>.\<close>

definition slice_fiber ::
    "entry \<Rightarrow> nat \<Rightarrow> 'a fiber \<Rightarrow> fiber_state \<Rightarrow> 'a coro option \<Rightarrow> 'a fiber" where
  "slice_fiber e f fb st r =
     fb\<lparr>f_state := st,
        f_ctx := (case r of Some k \<Rightarrow> Body e f k | None \<Rightarrow> AfterSwap e f),
        f_func := (if st = TERM_S then None else f_func fb)\<rparr>"

definition slice_result ::
    "entry \<Rightarrow> nat \<Rightarrow> nat \<Rightarrow> 'a coro \<Rightarrow> 'a fiber \<Rightarrow> 'a fctx \<Rightarrow> 'a kont \<Rightarrow> 'a fctx" where
  "slice_result e f m b fb s k =
     (let (ev, st, r) = slice b
      in s\<lparr>fibers := (fibers s)(f \<mapsto> slice_fiber e f fb st r), t_fiber := Some m, cur := k,
           events := events s @ ev\<rparr>)"

lemma deref_Some [simp]: "fibers s f = Some fb \<Longrightarrow> deref (Some f) s = Inr (f, fb)"
  by (simp add: deref_def)

lemma deref_None [simp]: "deref None s = Inl NullDeref"
  by (simp add: deref_def)

lemma put_fiber_sel [simp]:
  "fibers (put_fiber f fb s) = (fibers s)(f \<mapsto> fb)"
  "t_fiber (put_fiber f fb s) = t_fiber s"
  "t_threadFiber (put_fiber f fb s) = t_threadFiber s"
  "t_scheduler_fiber (put_fiber f fb s) = t_scheduler_fiber s"
  "cur (put_fiber f fb s) = cur s"
  "events (put_fiber f fb s) = events s"
  by (simp_all add: put_fiber_def)

lemma SetThis_sel [simp]:
  "fibers (SetThis p s) = fibers s"
  "t_fiber (SetThis p s) = p"
  "t_threadFiber (SetThis p s) = t_threadFiber s"
  "t_scheduler_fiber (SetThis p s) = t_scheduler_fiber s"
  "cur (SetThis p s) = cur s"
  by (simp_all add: SetThis_def)

lemma put_state_eq:
  "fibers s f = Some fb \<Longrightarrow> put_state f st s = Inr (put_fiber f (fb\<lparr>f_state := st\<rparr>) s)"
  by (simp add: put_state_def)

lemma GetThis_running: "t_fiber s = Some f \<Longrightarrow> fibers s f = Some fb \<Longrightarrow> Fiber_GetThis s = Inr (f, s)"
  by (simp add: Fiber_GetThis_def)

lemma swapcontext_eq:
  assumes "fibers s a = Some fa" and "fibers s b = Some fb" and "a \<noteq> b"
  shows "swapcontext (Some a) (Some b) k s =
    Inr ((put_fiber a (fa\<lparr>f_ctx := k\<rparr>) s)\<lparr>cur := f_ctx fb\<rparr>)"
  using assms by (simp add: swapcontext_def)

lemma swapOut_eq:
  assumes "fibers s f = Some fb" and "t_scheduler_fiber s = Some m" and "fibers s m = Some fm"
    and "m \<noteq> f"
  shows "swapOut f k s =
    Inr (s\<lparr>fibers := (fibers s)(f \<mapsto> fb\<lparr>f_ctx := k\<rparr>), t_fiber := Some m, cur := f_ctx fm\<rparr>)"
  using assms by (simp add: swapOut_def swapcontext_eq put_fiber_def SetThis_def)

lemma yield_with_eq:
  assumes "t_fiber s = Some f" and "fibers s f = Some fb" and "f_state fb = EXEC"
    and "t_scheduler_fiber s = Some m" and "fibers s m = Some fm" and "m \<noteq> f"
  shows "yield_with st k s =
    Inr (s\<lparr>fibers := (fibers s)(f \<mapsto> fb\<lparr>f_state := st, f_ctx := k\<rparr>), t_fiber := Some m,
           cur := f_ctx fm\<rparr>)"
  using assms
  by (simp add: yield_with_def GetThis_running put_state_eq swapOut_eq put_fiber_def)

lemma entry_returned_eq:
  assumes "fibers s f = Some fb" and "t_scheduler_fiber s = Some m" and "fibers s m = Some fm"
    and "m \<noteq> f"
  shows "entry_returned MainFunc f s =
    Inr (s\<lparr>fibers := (fibers s)(f \<mapsto> slice_fiber MainFunc f fb TERM_S None),
           t_fiber := Some m, cur := f_ctx fm\<rparr>)"
  using assms
  by (cases fb) (simp add: entry_returned_def leave_entry_def swapOut_eq put_fiber_def slice_fiber_def)

lemma entry_threw_eq:
  assumes "fibers s f = Some fb" and "t_scheduler_fiber s = Some m" and "fibers s m = Some fm"
    and "m \<noteq> f"
  shows "entry_threw MainFunc f s =
    Inr (s\<lparr>fibers := (fibers s)(f \<mapsto> slice_fiber MainFunc f fb EXCEPT None),
           t_fiber := Some m, cur := f_ctx fm\<rparr>)"
  using assms
  by (simp add: entry_threw_def put_state_eq leave_entry_def swapOut_eq put_fiber_def slice_fiber_def)

lemma run_fiber_host [simp]: "cur s = Host h \<Longrightarrow> run_fiber n s = Some (Inr s)"
  by (simp add: run_fiber.simps [of n s])

declare run_fiber.simps [simp del]

lemma run_fiber_step:
  assumes "fiber_step s = Inr s'" and "\<forall>h. cur s \<noteq> Host h"
  shows "run_fiber (Suc n) s = run_fiber n s'"
  using assms by (cases "cur s") (simp_all add: run_fiber.simps [of "Suc n" s])

lemma log_event_sel [simp]:
  "fibers (log_event ev s) = fibers s" "t_fiber (log_event ev s) = t_fiber s"
  "t_scheduler_fiber (log_event ev s) = t_scheduler_fiber s"
  by (simp_all add: log_event_def)

lemma slice_result_event:
  assumes "slice b = (let (evs, st, r) = slice k in (ev # evs, st, r))"
  shows "slice_result e f m b fb s h =
    slice_result e f m k fb (log_event ev s\<lparr>cur := Body e f k\<rparr>) h"
  using assms by (simp add: slice_result_def log_event_def split: prod.splits)

lemma run_fiber_event:
  assumes step: "fiber_step s = Inr (log_event ev s\<lparr>cur := Body e f k\<rparr>)"
    and "cur s = Body e f b"
    and sl: "slice b = (let (evs, st, r) = slice k in (ev # evs, st, r))"
    and fuel: "length (fst (slice b)) < n"
    and IH: "\<And>n'. length (fst (slice k)) < n' \<Longrightarrow>
      run_fiber n' (log_event ev s\<lparr>cur := Body e f k\<rparr>) = R"
  shows "run_fiber n s = R"
proof -
  from fuel sl obtain n' where n': "n = Suc n'" "length (fst (slice k)) < n'"
    by (cases n) (auto split: prod.splits)
  have "run_fiber n s = run_fiber n' (log_event ev s\<lparr>cur := Body e f k\<rparr>)"
    using step assms(2) n'(1) by (simp add: run_fiber_step)
  with IH [OF n'(2)] show ?thesis by simp
qed

lemma run_fiber_slice:
  assumes "cur s = Body MainFunc f b" and "t_fiber s = Some f" and "t_scheduler_fiber s = Some m"
    and "m \<noteq> f" and "fibers s f = Some fb" and "f_state fb = EXEC"
    and "fibers s m = Some fm" and "f_ctx fm = Host h"
    and "length (fst (slice b)) < n"
  shows "run_fiber n s = Some (Inr (slice_result MainFunc f m b fb s (Host h)))"
  using assms
proof (induction b arbitrary: s n)
  case Return
  then obtain n' where "n = Suc n'" by (cases n) auto
  with Return show ?case
    by (simp add: run_fiber_step fiber_step_def entry_returned_eq slice_result_def)
next
  case Throw
  then obtain n' where "n = Suc n'" by (cases n) auto
  with Throw show ?case
    by (simp add: run_fiber_step fiber_step_def entry_threw_eq slice_result_def)
next
  case (Act a k)
  show ?case
    by (rule run_fiber_event [where e = MainFunc and f = f and b = "Act a k" and
        ev = "Did a" and k = k])
      (use Act in \<open>simp_all add: fiber_step_def slice_result_event [where b = "Act a k" and k = k]\<close>)
next
  case (Spawn g t k)
  show ?case
    by (rule run_fiber_event [where e = MainFunc and f = f and b = "Spawn g t k" and
        ev = "Spawned g t" and k = k])
      (use Spawn in \<open>simp_all add: fiber_step_def slice_result_event [where b = "Spawn g t k" and k = k]\<close>)
next
  case (ScheduleSelf t k)
  show ?case
    by (rule run_fiber_event [where e = MainFunc and f = f and b = "ScheduleSelf t k" and
        ev = "SelfScheduled t" and k = k])
      (use ScheduleSelf in \<open>simp_all add: fiber_step_def slice_result_event [where b = "ScheduleSelf t k" and k = k]\<close>)
next
  case (YieldReady k)
  then obtain n' where "n = Suc n'" by (cases n) auto
  with YieldReady show ?case
    by (simp add: run_fiber_step fiber_step_def YieldToReady_def yield_with_eq slice_result_def
        slice_fiber_def)
next
  case (YieldHold k)
  then obtain n' where "n = Suc n'" by (cases n) auto
  with YieldHold show ?case
    by (simp add: run_fiber_step fiber_step_def YieldToHold_def yield_with_eq slice_result_def
        slice_fiber_def)
qed

section \<open>swapIn and call as time slices\<close>

text \<open>The fiber object \<open>fb\<close> at \<open>f\<close> continues with the program \<open>b\<close> when it is switched to.\<close>

definition continues_with :: "entry \<Rightarrow> nat \<Rightarrow> 'a fiber \<Rightarrow> 'a coro \<Rightarrow> bool" where
  "continues_with e f fb b \<longleftrightarrow>
     f_ctx fb = Body e f b \<or> (f_ctx fb = Start e \<and> f_func fb = Some b)"

text \<open>\<open>f->swapIn()\<close> from host code, and the steps of the thread until it is back there.\<close>

definition swapIn_run :: "nat \<Rightarrow> nat \<Rightarrow> nat \<Rightarrow> 'a fctx \<Rightarrow> 'a fctx res option" where
  "swapIn_run n h f s =
     (case swapIn f (Host h) s of Inl e \<Rightarrow> Some (Inl e) | Inr s1 \<Rightarrow> run_fiber n s1)"

definition call_run :: "nat \<Rightarrow> nat \<Rightarrow> nat \<Rightarrow> 'a fctx \<Rightarrow> 'a fctx res option" where
  "call_run n h f s =
     (case Fiber_call f (Host h) s of Inl e \<Rightarrow> Some (Inl e) | Inr s1 \<Rightarrow> run_fiber n s1)"

text \<open>The scheduler fiber \<open>m\<close> of the thread is saved at \<open>h\<close> and \<open>f\<close> has run one slice.\<close>

definition after_swapIn :: "nat \<Rightarrow> nat \<Rightarrow> nat \<Rightarrow> 'a coro \<Rightarrow> 'a fctx \<Rightarrow> 'a fctx" where
  "after_swapIn h m f b s =
     (let (ev, st, r) = slice b;
          fb = the (fibers s f);
          fm = the (fibers s m)
      in s\<lparr>fibers := (fibers s)(m \<mapsto> fm\<lparr>f_ctx := Host h\<rparr>, f \<mapsto> slice_fiber MainFunc f fb st r),
           t_fiber := Some m, cur := Host h, events := events s @ ev\<rparr>)"

lemma swapIn_eq:
  assumes "t_scheduler_fiber s = Some m" and "m \<noteq> f"
    and "fibers s m = Some fm" and "fibers s f = Some fb"
  shows "swapIn f k s =
    Inr (s\<lparr>fibers := (fibers s)(m \<mapsto> fm\<lparr>f_ctx := k\<rparr>, f \<mapsto> fb\<lparr>f_state := EXEC\<rparr>),
           t_fiber := Some f, cur := f_ctx fb\<rparr>)"
  using assms
  by (simp add: swapIn_def put_state_eq swapcontext_def Let_def)
    (simp add: put_fiber_def SetThis_def fun_upd_twist)

lemma run_fiber_start:
  assumes "cur s = Start e" and "t_fiber s = Some f" and "fibers s f = Some fb"
    and "f_func fb = Some b"
  shows "run_fiber (Suc n) s = run_fiber n (s\<lparr>cur := Body e f b\<rparr>)"
proof -
  from assms have "fiber_step s = Inr (s\<lparr>cur := Body e f b\<rparr>)"
    by (simp add: fiber_step_def GetThis_running)
  with assms(1) show ?thesis by (simp add: run_fiber_step)
qed

lemma slice_result_after:
  assumes "fibers s f = Some fb" and "fibers s m = Some fm" and "m \<noteq> f"
  shows "slice_result MainFunc f m b (fb\<lparr>f_state := EXEC\<rparr>)
      (s\<lparr>fibers := (fibers s)(m \<mapsto> fm\<lparr>f_ctx := Host h\<rparr>, f \<mapsto> fb\<lparr>f_state := EXEC\<rparr>),
         t_fiber := Some f, cur := k\<rparr>) (Host h) = after_swapIn h m f b s"
  using assms by (simp add: slice_result_def after_swapIn_def slice_fiber_def split: prod.splits)

lemma swapIn_run_slice:
  assumes sch: "t_scheduler_fiber s = Some m" "m \<noteq> f" "fibers s m = Some fm" "fibers s f = Some fb"
    and cw: "continues_with MainFunc f fb b"
    and fuel: "length (fst (slice b)) + 1 < n"
  shows "swapIn_run n h f s = Some (Inr (after_swapIn h m f b s))"
proof -
  let ?s1 = "s\<lparr>fibers := (fibers s)(m \<mapsto> fm\<lparr>f_ctx := Host h\<rparr>, f \<mapsto> fb\<lparr>f_state := EXEC\<rparr>),
               t_fiber := Some f, cur := f_ctx fb\<rparr>"
  have run: "run_fiber n' (?s1\<lparr>cur := Body MainFunc f b\<rparr>) = Some (Inr (after_swapIn h m f b s))"
    if "length (fst (slice b)) < n'" for n'
  proof -
    have "run_fiber n' (?s1\<lparr>cur := Body MainFunc f b\<rparr>) =
      Some (Inr (slice_result MainFunc f m b (fb\<lparr>f_state := EXEC\<rparr>)
        (?s1\<lparr>cur := Body MainFunc f b\<rparr>) (Host h)))"
      by (rule run_fiber_slice [where fm = "fm\<lparr>f_ctx := Host h\<rparr>"]) (use sch that in simp_all)
    then show ?thesis using slice_result_after [OF sch(4,3,2)] by simp
  qed
  from fuel obtain n' where n': "n = Suc n'" "length (fst (slice b)) < n'"
    by (cases n) auto
  have "run_fiber n ?s1 = Some (Inr (after_swapIn h m f b s))"
  proof (cases "f_ctx fb = Body MainFunc f b")
    case True
    with run [of n] fuel show ?thesis by simp
  next
    case False
    with cw have "f_ctx fb = Start MainFunc" "f_func fb = Some b"
      by (auto simp: continues_with_def)
    with n' run [of n'] show ?thesis by (simp add: run_fiber_start)
  qed
  with sch show ?thesis by (simp add: swapIn_run_def swapIn_eq)
qed

section \<open>A fiber run to its end\<close>

fun all_events :: "'a coro \<Rightarrow> 'a event list" where
  "all_events Return = []"
| "all_events Throw = []"
| "all_events (Act a k) = Did a # all_events k"
| "all_events (Spawn g t k) = Spawned g t # all_events k"
| "all_events (ScheduleSelf t k) = SelfScheduled t # all_events k"
| "all_events (YieldReady k) = all_events k"
| "all_events (YieldHold k) = all_events k"

fun final_state :: "'a coro \<Rightarrow> fiber_state" where
  "final_state Return = TERM_S"
| "final_state Throw = EXCEPT"
| "final_state (Act a k) = final_state k"
| "final_state (Spawn g t k) = final_state k"
| "final_state (ScheduleSelf t k) = final_state k"
| "final_state (YieldReady k) = final_state k"
| "final_state (YieldHold k) = final_state k"

text \<open>The number of \<open>swapIn\<close> calls the fiber needs: one more than its yields.\<close>

fun slices :: "'a coro \<Rightarrow> nat" where
  "slices Return = 1"
| "slices Throw = 1"
| "slices (Act a k) = slices k"
| "slices (Spawn g t k) = slices k"
| "slices (ScheduleSelf t k) = slices k"
| "slices (YieldReady k) = Suc (slices k)"
| "slices (YieldHold k) = Suc (slices k)"

fun swapIn_times :: "nat \<Rightarrow> nat \<Rightarrow> nat \<Rightarrow> nat \<Rightarrow> 'a fctx \<Rightarrow> 'a fctx res option" where
  "swapIn_times 0 n h f s = Some (Inr s)"
| "swapIn_times (Suc k) n h f s =
     (case swapIn_run n h f s of Some (Inr s') \<Rightarrow> swapIn_times k n h f s' | r \<Rightarrow> r)"

lemma slice_yields:
  "slice b = (ev, st, Some k) \<Longrightarrow>
     all_events b = ev @ all_events k \<and> slices b = Suc (slices k) \<and> final_state b = final_state k \<and>
     (st = READY \<or> st = HOLD)"
  by (induction b arbitrary: ev) (auto split: prod.splits)

lemma slice_ends:
  "slice b = (ev, st, None) \<Longrightarrow>
     all_events b = ev \<and> slices b = 1 \<and> final_state b = st \<and> (st = TERM_S \<or> st = EXCEPT)"
  by (induction b arbitrary: ev) (auto split: prod.splits)

lemma continues_with_slice_fiber: "continues_with e f (slice_fiber e f fb st (Some k)) k"
  by (simp add: continues_with_def slice_fiber_def)

lemma slices_pos [simp]: "0 < slices b"
  by (induction b) simp_all

lemma swapIn_times_slices:
  assumes "t_scheduler_fiber s = Some m" and "m \<noteq> f"
    and "fibers s m = Some fm" and "fibers s f = Some fb"
    and "continues_with MainFunc f fb b" and "length (all_events b) + 1 < n"
  shows "\<exists>s' fb'. swapIn_times (slices b) n h f s = Some (Inr s') \<and>
    events s' = events s @ all_events b \<and> cur s' = Host h \<and> t_fiber s' = Some m \<and>
    fibers s' f = Some fb' \<and> f_state fb' = final_state b \<and> f_ctx fb' = AfterSwap MainFunc f"
  using assms
proof (induction "slices b" arbitrary: b s fb fm)
  case 0
  then show ?case using slices_pos [of b] by simp
next
  case (Suc q)
  obtain ev st r where sl: "slice b = (ev, st, r)" by (cases "slice b") auto
  let ?s1 = "after_swapIn h m f b s"
  have ev_le: "length ev \<le> length (all_events b)"
    using sl slice_yields [of b ev st] slice_ends [of b ev st] by (cases r) auto
  then have run: "swapIn_run n h f s = Some (Inr ?s1)"
    using Suc.prems sl by (intro swapIn_run_slice) auto
  show ?case
  proof (cases r)
    case None
    with sl slice_ends have "all_events b = ev" "slices b = 1" "final_state b = st" by auto
    with run sl None Suc.prems show ?thesis
      by (simp add: after_swapIn_def slice_fiber_def)
  next
    case (Some k)
    with sl slice_yields have k: "all_events b = ev @ all_events k" "slices b = Suc (slices k)"
      "final_state b = final_state k" by auto
    have "\<exists>s' fb'. swapIn_times (slices k) n h f ?s1 = Some (Inr s') \<and>
      events s' = events ?s1 @ all_events k \<and> cur s' = Host h \<and> t_fiber s' = Some m \<and>
      fibers s' f = Some fb' \<and> f_state fb' = final_state k \<and> f_ctx fb' = AfterSwap MainFunc f"
      using Suc.prems k sl Some Suc.hyps(2)
      by (intro Suc.hyps(1) [where fm = "fm\<lparr>f_ctx := Host h\<rparr>" and
          fb = "slice_fiber MainFunc f fb st (Some k)"])
        (simp_all add: after_swapIn_def continues_with_slice_fiber)
    with run k sl Some show ?thesis by (simp add: after_swapIn_def)
  qed
qed

section \<open>Fibers called from a thread's main fiber\<close>

text \<open>
  \<open>f->call()\<close> on a thread that has no scheduler: a function that returns or throws comes back to
  the main fiber; one that yields first makes \<open>swapOut\<close> dereference the null
  \<open>Scheduler::GetMainFiber()\<close>.
\<close>

definition call_outcome :: "nat \<Rightarrow> nat \<Rightarrow> 'a coro \<Rightarrow> 'a fiber \<Rightarrow> 'a fctx \<Rightarrow> 'a kont \<Rightarrow> 'a fctx res" where
  "call_outcome f m b fb s k =
     (if snd (snd (slice b)) = None then Inr (slice_result CallerMainFunc f m b fb s k)
      else Inl NullDeref)"

lemma back_eq:
  assumes "fibers s f = Some fb" and "t_threadFiber s = Some m" and "fibers s m = Some fm"
    and "m \<noteq> f"
  shows "Fiber_back f k s =
    Inr (s\<lparr>fibers := (fibers s)(f \<mapsto> fb\<lparr>f_ctx := k\<rparr>), t_fiber := Some m, cur := f_ctx fm\<rparr>)"
  using assms by (simp add: Fiber_back_def swapcontext_eq put_fiber_def SetThis_def)

lemma yield_without_scheduler:
  assumes "t_fiber s = Some f" and "fibers s f = Some fb" and "f_state fb = EXEC"
    and "t_scheduler_fiber s = None"
  shows "yield_with st k s = Inl NullDeref"
  using assms
  by (simp add: yield_with_def GetThis_running put_state_eq swapOut_def swapcontext_def)

lemma call_outcome_event:
  assumes "slice b = (let (evs, st, r) = slice k in (ev # evs, st, r))"
  shows "call_outcome f m b fb s h =
    call_outcome f m k fb (log_event ev s\<lparr>cur := Body CallerMainFunc f k\<rparr>) h"
  using assms
  by (simp add: call_outcome_def slice_result_event [OF assms] split: prod.splits)

lemma log_event_threadFiber [simp]: "t_threadFiber (log_event ev s) = t_threadFiber s"
  by (simp add: log_event_def)

lemma run_fiber_called:
  assumes "cur s = Body CallerMainFunc f b" and "t_fiber s = Some f"
    and "t_threadFiber s = Some m" and "t_scheduler_fiber s = None"
    and "m \<noteq> f" and "fibers s f = Some fb" and "f_state fb = EXEC"
    and "fibers s m = Some fm" and "f_ctx fm = Host h"
    and "length (fst (slice b)) < n"
  shows "run_fiber n s = Some (call_outcome f m b fb s (Host h))"
  using assms
proof (induction b arbitrary: s n)
  case Return
  then obtain n' where "n = Suc n'" by (cases n) auto
  with Return show ?case
    by (cases fb) (simp add: run_fiber_step fiber_step_def entry_returned_def leave_entry_def back_eq
        call_outcome_def slice_result_def slice_fiber_def put_fiber_def)
next
  case Throw
  then obtain n' where "n = Suc n'" by (cases n) auto
  with Throw show ?case
    by (simp add: run_fiber_step fiber_step_def entry_threw_def put_state_eq leave_entry_def back_eq
        call_outcome_def slice_result_def slice_fiber_def put_fiber_def)
next
  case (Act a k)
  show ?case
    by (rule run_fiber_event [where e = CallerMainFunc and f = f and b = "Act a k" and
        ev = "Did a" and k = k])
      (use Act in \<open>simp_all add: fiber_step_def call_outcome_event [where b = "Act a k" and k = k]\<close>)
next
  case (Spawn g t k)
  show ?case
    by (rule run_fiber_event [where e = CallerMainFunc and f = f and b = "Spawn g t k" and
        ev = "Spawned g t" and k = k])
      (use Spawn in \<open>simp_all add: fiber_step_def call_outcome_event [where b = "Spawn g t k" and k = k]\<close>)
next
  case (ScheduleSelf t k)
  show ?case
    by (rule run_fiber_event [where e = CallerMainFunc and f = f and b = "ScheduleSelf t k" and
        ev = "SelfScheduled t" and k = k])
      (use ScheduleSelf in \<open>simp_all add: fiber_step_def call_outcome_event [where b = "ScheduleSelf t k" and k = k]\<close>)
next
  case (YieldReady k)
  then obtain n' where "n = Suc n'" by (cases n) auto
  with YieldReady show ?case
    by (simp add: run_fiber.simps [of "Suc n'"] fiber_step_def YieldToReady_def
        yield_without_scheduler call_outcome_def)
next
  case (YieldHold k)
  then obtain n' where "n = Suc n'" by (cases n) auto
  with YieldHold show ?case
    by (simp add: run_fiber.simps [of "Suc n'"] fiber_step_def YieldToHold_def
        yield_without_scheduler call_outcome_def)
qed

lemma call_eq:
  assumes "t_threadFiber s = Some m" and "m \<noteq> f"
    and "fibers s m = Some fm" and "fibers s f = Some fb"
  shows "Fiber_call f k s =
    Inr (s\<lparr>fibers := (fibers s)(m \<mapsto> fm\<lparr>f_ctx := k\<rparr>, f \<mapsto> fb\<lparr>f_state := EXEC\<rparr>),
           t_fiber := Some f, cur := f_ctx fb\<rparr>)"
  using assms
  by (simp add: Fiber_call_def put_state_eq swapcontext_def Let_def)
    (simp add: put_fiber_def SetThis_def fun_upd_twist)

lemma call_run_outcome:
  assumes sch: "t_threadFiber s = Some m" "t_scheduler_fiber s = None" "m \<noteq> f"
      "fibers s m = Some fm" "fibers s f = Some fb"
    and cw: "f_ctx fb = Start CallerMainFunc" "f_func fb = Some b"
    and fuel: "length (fst (slice b)) + 1 < n"
  shows "call_run n h f s = Some (call_outcome f m b (fb\<lparr>f_state := EXEC\<rparr>)
     (s\<lparr>fibers := (fibers s)(m \<mapsto> fm\<lparr>f_ctx := Host h\<rparr>)\<rparr>) (Host h))"
proof -
  let ?s0 = "s\<lparr>fibers := (fibers s)(m \<mapsto> fm\<lparr>f_ctx := Host h\<rparr>)\<rparr>"
  let ?s1 = "s\<lparr>fibers := (fibers s)(m \<mapsto> fm\<lparr>f_ctx := Host h\<rparr>, f \<mapsto> fb\<lparr>f_state := EXEC\<rparr>),
               t_fiber := Some f, cur := Start CallerMainFunc\<rparr>"
  from fuel obtain n' where n': "n = Suc n'" "length (fst (slice b)) < n'" by (cases n) auto
  have "run_fiber n ?s1 = run_fiber n' (?s1\<lparr>cur := Body CallerMainFunc f b\<rparr>)"
    using n' cw by (simp add: run_fiber_start)
  also have "\<dots> = Some (call_outcome f m b (fb\<lparr>f_state := EXEC\<rparr>)
      (?s1\<lparr>cur := Body CallerMainFunc f b\<rparr>) (Host h))"
    by (rule run_fiber_called [where fm = "fm\<lparr>f_ctx := Host h\<rparr>"]) (use sch n' in simp_all)
  also have "\<dots> = Some (call_outcome f m b (fb\<lparr>f_state := EXEC\<rparr>) ?s0 (Host h))"
    by (simp add: call_outcome_def slice_result_def split: prod.splits)
  finally show ?thesis using sch cw by (simp add: call_run_def call_eq)
qed

section \<open>Objects and counters\<close>

text \<open>
  What the library's callers can do with the fibers of a thread: create, look up, destroy and reset
  them, switch to them, install a scheduler fiber, and run the fiber that is current.
\<close>

inductive fiber_op :: "32 word \<Rightarrow> 'a fctx \<Rightarrow> 'a fctx \<Rightarrow> bool" for stack_cfg where
  op_new: "fiber_op stack_cfg s (snd (Fiber_new stack_cfg func sz uc s))"
| op_get: "Fiber_GetThis s = Inr (f, s') \<Longrightarrow> fiber_op stack_cfg s s'"
| op_delete: "Fiber_delete f s = Inr s' \<Longrightarrow> fiber_op stack_cfg s s'"
| op_reset: "Fiber_reset f func s = Inr s' \<Longrightarrow> fiber_op stack_cfg s s'"
| op_swapIn: "swapIn f k s = Inr s' \<Longrightarrow> fiber_op stack_cfg s s'"
| op_call: "Fiber_call f k s = Inr s' \<Longrightarrow> fiber_op stack_cfg s s'"
| op_step: "fiber_step s = Inr s' \<Longrightarrow> fiber_op stack_cfg s s'"
| op_sched: "fiber_op stack_cfg s (s\<lparr>t_scheduler_fiber := p\<rparr>)"

definition fctx_init :: "'a fctx" where
  "fctx_init = \<lparr>fibers = (\<lambda>_. None), next_addr = 0, s_fiber_id = 0, s_fiber_count = 0,
     t_fiber = None, t_threadFiber = None, t_scheduler_fiber = None, cur = Host 0, events = []\<rparr>"

inductive fiber_reachable :: "32 word \<Rightarrow> 'a fctx \<Rightarrow> bool" for stack_cfg where
  fiber_start: "fiber_reachable stack_cfg fctx_init"
| fiber_next: "fiber_reachable stack_cfg s \<Longrightarrow> fiber_op stack_cfg s s' \<Longrightarrow> fiber_reachable stack_cfg s'"

text \<open>
  The counters agree with the heap: \<open>s_fiber_count\<close> counts the live objects, and the object made
  by the \<open>n\<close>-th construction has the id \<open>n\<close>.
\<close>

definition alloc_inv :: "'a fctx \<Rightarrow> bool" where
  "alloc_inv s \<longleftrightarrow>
     finite (dom (fibers s)) \<and> s_fiber_count s = of_nat (card (dom (fibers s))) \<and>
     s_fiber_id s = of_nat (next_addr s) \<and>
     (\<forall>a fb. fibers s a = Some fb \<longrightarrow> a < next_addr s \<and> f_id fb = of_nat (Suc a))"

lemma alloc_inv_frame [simp]:
  "alloc_inv (SetThis p s) = alloc_inv s"
  "alloc_inv (s\<lparr>t_threadFiber := q\<rparr>) = alloc_inv s"
  "alloc_inv (s\<lparr>t_scheduler_fiber := q\<rparr>) = alloc_inv s"
  "alloc_inv (s\<lparr>cur := k\<rparr>) = alloc_inv s"
  "alloc_inv (log_event ev s) = alloc_inv s"
  by (simp_all add: alloc_inv_def SetThis_def log_event_def)

lemma alloc_inv_put_fiber:
  "alloc_inv s \<Longrightarrow> fibers s f = Some fb \<Longrightarrow> f_id fb' = f_id fb \<Longrightarrow> alloc_inv (put_fiber f fb' s)"
  unfolding alloc_inv_def put_fiber_def
  by (auto simp: insert_absorb domI card_insert_if split: if_splits)

lemma deref_Inr_iff: "deref p s = Inr (f, fb) \<longleftrightarrow> p = Some f \<and> fibers s f = Some fb"
  by (auto simp: deref_def split: option.splits)

lemma alloc_inv_new_object:
  assumes "alloc_inv s" and "f_id fb = s_fiber_id s + 1"
  shows "alloc_inv ((put_fiber (next_addr s) fb s)
    \<lparr>next_addr := Suc (next_addr s), s_fiber_id := s_fiber_id s + 1,
      s_fiber_count := s_fiber_count s + 1\<rparr>)"
proof -
  have fresh: "fibers s (next_addr s) = None"
    using assms(1) unfolding alloc_inv_def by (metis less_irrefl not_None_eq)
  then have "next_addr s \<notin> dom (fibers s)" by auto
  with assms fresh show ?thesis
    unfolding alloc_inv_def put_fiber_def
    by (auto simp: add.commute less_SucI split: if_splits)
qed

lemma alloc_inv_Fiber_new: "alloc_inv s \<Longrightarrow> alloc_inv (snd (Fiber_new c func sz uc s))"
  by (simp add: Fiber_new_def Let_def alloc_inv_new_object)

lemma alloc_inv_Fiber_main:
  assumes "alloc_inv s"
  shows "alloc_inv (snd (Fiber_main s))"
proof -
  let ?fb = "\<lparr>f_id = s_fiber_id s + 1, f_stacksize = None, f_state = EXEC, f_ctx = cur s,
     f_stack = StackUninit, f_func = None\<rparr>"
  have "alloc_inv (SetThis (Some (next_addr s)) ((put_fiber (next_addr s) ?fb s)
      \<lparr>next_addr := Suc (next_addr s), s_fiber_id := s_fiber_id s + 1,
       s_fiber_count := s_fiber_count s + 1\<rparr>))"
    using alloc_inv_new_object [OF assms, of ?fb] by simp
  then show ?thesis by (cases s) (simp add: Fiber_main_def Let_def SetThis_def put_fiber_def)
qed

lemma alloc_inv_GetThis: "Fiber_GetThis s = Inr (f, s') \<Longrightarrow> alloc_inv s \<Longrightarrow> alloc_inv s'"
  using alloc_inv_Fiber_main [of s]
  by (auto simp: res_bind_Inr_iff Fiber_GetThis_def Let_def deref_Inr_iff split: option.splits prod.splits)

lemma alloc_inv_put_state: "put_state f st s = Inr s' \<Longrightarrow> alloc_inv s \<Longrightarrow> alloc_inv s'"
  by (auto simp: res_bind_Inr_iff put_state_def deref_Inr_iff intro: alloc_inv_put_fiber)

lemma alloc_inv_swapcontext: "swapcontext p q k s = Inr s' \<Longrightarrow> alloc_inv s \<Longrightarrow> alloc_inv s'"
  by (auto simp: res_bind_Inr_iff swapcontext_def Let_def deref_Inr_iff alloc_inv_put_fiber
      split: if_splits)

lemma alloc_inv_free:
  assumes "alloc_inv s" and "fibers s f = Some fb"
  shows "alloc_inv (s\<lparr>s_fiber_count := s_fiber_count s - 1, fibers := (fibers s)(f := None)\<rparr>)"
proof -
  have dom: "dom ((fibers s)(f := None)) = dom (fibers s) - {f}" by auto
  have "card (dom (fibers s)) = Suc (card (dom (fibers s) - {f}))"
    using assms by (intro card.remove) (auto simp: alloc_inv_def)
  with assms show ?thesis
    unfolding alloc_inv_def by (auto simp: res_bind_Inr_iff dom)
qed

lemma alloc_inv_delete:
  assumes "Fiber_delete f s = Inr s'" and "alloc_inv s"
  shows "alloc_inv s'"
proof -
  let ?s0 = "s\<lparr>s_fiber_count := s_fiber_count s - 1, fibers := (fibers s)(f := None)\<rparr>"
  from assms(1) obtain fb where fb: "fibers s f = Some fb"
    by (auto simp: Fiber_delete_def res_bind_Inr_iff deref_Inr_iff)
  with assms(1) have "s' = ?s0 \<or> s' = SetThis None ?s0"
    by (cases s) (auto simp: Fiber_delete_def SetThis_def Let_def split: stack_ptr.splits if_splits)
  with alloc_inv_free [OF assms(2) fb] show ?thesis by auto
qed

lemma alloc_inv_reset: "Fiber_reset f func s = Inr s' \<Longrightarrow> alloc_inv s \<Longrightarrow> alloc_inv s'"
  by (auto simp: res_bind_Inr_iff Fiber_reset_def deref_Inr_iff intro: alloc_inv_put_fiber split: if_splits)

lemma alloc_inv_swapOut: "swapOut f k s = Inr s' \<Longrightarrow> alloc_inv s \<Longrightarrow> alloc_inv s'"
  by (auto simp: res_bind_Inr_iff swapOut_def Let_def intro: alloc_inv_swapcontext )

lemma alloc_inv_back: "Fiber_back f k s = Inr s' \<Longrightarrow> alloc_inv s \<Longrightarrow> alloc_inv s'"
  by (auto simp: res_bind_Inr_iff Fiber_back_def Let_def intro: alloc_inv_swapcontext )

lemma alloc_inv_swapIn: "swapIn f k s = Inr s' \<Longrightarrow> alloc_inv s \<Longrightarrow> alloc_inv s'"
  by (auto simp: res_bind_Inr_iff swapIn_def dest!: alloc_inv_put_state alloc_inv_swapcontext)

lemma alloc_inv_call: "Fiber_call f k s = Inr s' \<Longrightarrow> alloc_inv s \<Longrightarrow> alloc_inv s'"
  by (auto simp: res_bind_Inr_iff Fiber_call_def dest!: alloc_inv_put_state alloc_inv_swapcontext)

lemma alloc_inv_yield: "yield_with st k s = Inr s' \<Longrightarrow> alloc_inv s \<Longrightarrow> alloc_inv s'"
  by (auto simp: res_bind_Inr_iff yield_with_def deref_Inr_iff
      dest!: alloc_inv_swapOut alloc_inv_put_state alloc_inv_GetThis)

lemma alloc_inv_leave: "leave_entry e c s = Inr s' \<Longrightarrow> alloc_inv s \<Longrightarrow> alloc_inv s'"
  by (auto simp: res_bind_Inr_iff leave_entry_def intro: alloc_inv_swapOut alloc_inv_back split: entry.splits)

lemma alloc_inv_returned:
  assumes "entry_returned e c s = Inr s'" and "alloc_inv s"
  shows "alloc_inv s'"
proof -
  from assms(1) obtain fb where "fibers s c = Some fb"
    and "leave_entry e c (put_fiber c (fb\<lparr>f_func := None, f_state := TERM_S\<rparr>) s) = Inr s'"
    by (auto simp: entry_returned_def res_bind_Inr_iff deref_Inr_iff)
  with assms(2) show ?thesis by (auto dest!: alloc_inv_leave intro: alloc_inv_put_fiber)
qed

lemma alloc_inv_threw: "entry_threw e c s = Inr s' \<Longrightarrow> alloc_inv s \<Longrightarrow> alloc_inv s'"
  by (auto simp: res_bind_Inr_iff entry_threw_def intro: alloc_inv_leave alloc_inv_put_state)

lemma alloc_inv_step:
  assumes "fiber_step s = Inr s'" and "alloc_inv s"
  shows "alloc_inv s'"
proof (cases "cur s")
  case (Start e)
  with assms show ?thesis
    by (auto simp: res_bind_Inr_iff fiber_step_def deref_Inr_iff split: option.splits
        dest!: alloc_inv_GetThis intro: alloc_inv_threw)
next
  case (Body e c b)
  with assms show ?thesis
    by (auto simp: res_bind_Inr_iff fiber_step_def YieldToReady_def YieldToHold_def split: coro.splits
        intro: alloc_inv_returned alloc_inv_threw alloc_inv_yield)
qed (use assms in \<open>auto simp: fiber_step_def\<close>)

lemmas alloc_inv_ops [inv_ops] = alloc_inv_Fiber_new alloc_inv_GetThis alloc_inv_delete alloc_inv_reset
  alloc_inv_swapIn alloc_inv_call alloc_inv_step

lemma alloc_inv_op: "fiber_op c s s' \<Longrightarrow> alloc_inv s \<Longrightarrow> alloc_inv s'"
  by (induction rule: fiber_op.induct) (auto intro: inv_ops)

lemma alloc_inv_reachable: "fiber_reachable c s \<Longrightarrow> alloc_inv s"
  by (induction rule: fiber_reachable.induct)
    (auto simp: alloc_inv_def fctx_init_def dest: alloc_inv_op [unfolded alloc_inv_def])

section \<open>Properties\<close>

text \<open>
  A thread as the witnesses use it: its main fiber 0 is the scheduler fiber, fiber 1 is a new fiber
  with the given function.
\<close>

definition demo_thread :: "bool \<Rightarrow> bool \<Rightarrow> nat coro \<Rightarrow> nat fctx" where
  "demo_thread sched use_caller b =
     (let s = snd (Fiber_main fctx_init)\<lparr>t_threadFiber := Some 0,
                t_scheduler_fiber := (if sched then Some 0 else None)\<rparr>
      in snd (Fiber_new 131072 (Some b) 0 use_caller s))"

definition demo_fiber :: "bool \<Rightarrow> nat coro \<Rightarrow> nat fiber" where
  "demo_fiber use_caller b =
     \<lparr>f_id = 2, f_stacksize = Some 131072, f_state = INIT,
      f_ctx = Start (if \<not> use_caller then MainFunc else CallerMainFunc),
      f_stack = StackMem 131072, f_func = Some b\<rparr>"

definition demo_main :: "nat fiber" where
  "demo_main = \<lparr>f_id = 1, f_stacksize = None, f_state = EXEC, f_ctx = Host 0,
     f_stack = StackUninit, f_func = None\<rparr>"

lemma demo_thread_sel:
  "t_scheduler_fiber (demo_thread sched uc b) = (if sched then Some 0 else None)"
  "t_threadFiber (demo_thread sched uc b) = Some 0"
  "fibers (demo_thread sched uc b) = [0 \<mapsto> demo_main, 1 \<mapsto> demo_fiber uc b]"
  "events (demo_thread sched uc b) = []"
  by (simp_all add: demo_thread_def Let_def Fiber_main_def Fiber_new_def fctx_init_def put_fiber_def
      SetThis_def demo_main_def demo_fiber_def stack_size_of_def)

lemmas demo_simps = demo_thread_sel demo_main_def demo_fiber_def continues_with_def

text \<open>
  C2. One \<open>swapIn\<close> of a fiber that has more to do runs its function up to the next yield, return
  or exception and comes back to the scheduler: the thread is at the point after the call, the
  scheduler fiber is current, the events of the slice are recorded in order, the fiber is \<open>READY\<close>
  or \<open>HOLD\<close> with the rest of its function, or \<open>TERM\<close> or \<open>EXCEPT\<close> with nothing
  left, and every other fiber is as before. The machine returns: fuel of two more than the
  slice's events is enough.
\<close>

theorem swapIn_runs_one_slice:
  assumes "t_scheduler_fiber s = Some m" and "m \<noteq> f"
    and "fibers s m = Some fm" and "fibers s f = Some fb"
    and "continues_with MainFunc f fb b" and "slice b = (ev, st, r)"
    and "length ev + 2 \<le> n"
  shows "\<exists>s'. swapIn_run n h f s = Some (Inr s') \<and> cur s' = Host h \<and> t_fiber s' = Some m \<and>
    events s' = events s @ ev \<and> fibers s' f = Some (slice_fiber MainFunc f fb st r) \<and>
    (if r = None then st \<in> {TERM_S, EXCEPT} else st \<in> {READY, HOLD}) \<and>
    (\<forall>g. g \<noteq> f \<longrightarrow> g \<noteq> m \<longrightarrow> fibers s' g = fibers s g)"
  using assms slice_yields [of b ev st] slice_ends [of b ev st]
  by (cases r) (auto simp: swapIn_run_slice after_swapIn_def)

theorem swapIn_runs_one_slice_witness:
  "\<exists>s'. swapIn_run 3 7 1 (demo_thread True False (Act 5 (YieldHold Return))) = Some (Inr s') \<and>
    cur s' = Host 7 \<and> events s' = [Did 5]"
  using swapIn_runs_one_slice [of "demo_thread True False (Act 5 (YieldHold Return))" 0 1 demo_main
      "demo_fiber False (Act 5 (YieldHold Return))" "Act 5 (YieldHold Return)" "[Did 5]" HOLD
      "Some Return" 3 7]
  by (auto simp: demo_simps)

text \<open>
  C3. A fiber that is swapped in again after each of its yields runs to its end: after as many
  \<open>swapIn\<close> calls as the function has yields, plus one, every event of the function has
  happened once and in order, the fiber is \<open>TERM\<close> when the function returned and
  \<open>EXCEPT\<close> when it threw, and the thread is back in its scheduler fiber.
\<close>

theorem fiber_runs_to_its_end:
  assumes "t_scheduler_fiber s = Some m" and "m \<noteq> f"
    and "fibers s m = Some fm" and "fibers s f = Some fb"
    and "f_ctx fb = Start MainFunc" and "f_func fb = Some b" and "length (all_events b) + 1 < n"
  shows "\<exists>s' fb'. swapIn_times (slices b) n h f s = Some (Inr s') \<and>
    events s' = events s @ all_events b \<and> cur s' = Host h \<and> t_fiber s' = Some m \<and>
    fibers s' f = Some fb' \<and> f_state fb' = final_state b"
  using swapIn_times_slices [OF assms(1-4), of b n h] assms(5-7)
  by (auto simp: continues_with_def)

theorem fiber_runs_to_its_end_witness:
  "\<exists>s'. swapIn_times 3 4 7 1 (demo_thread True False (YieldHold (Act 5 (YieldReady (Act 6 Throw)))))
      = Some (Inr s') \<and> events s' = [Did 5, Did 6]"
  using fiber_runs_to_its_end [of "demo_thread True False (YieldHold (Act 5 (YieldReady (Act 6 Throw))))"
      0 1 demo_main "demo_fiber False (YieldHold (Act 5 (YieldReady (Act 6 Throw))))"
      "YieldHold (Act 5 (YieldReady (Act 6 Throw)))" 4 7]
  by (auto simp: demo_simps numeral_3_eq_3)

text \<open>
  A \<open>use_caller\<close> fiber that is called on a thread with no scheduler comes back to the
  thread's main fiber when its function returns or throws; when the function yields first, the
  yield dereferences the null scheduler fiber.
\<close>

theorem call_without_scheduler:
  assumes "t_threadFiber s = Some m" and "t_scheduler_fiber s = None" and "m \<noteq> f"
    and "fibers s m = Some fm" and "fibers s f = Some fb"
    and "f_ctx fb = Start CallerMainFunc" and "f_func fb = Some b"
    and "slice b = (ev, st, r)" and "length ev + 2 \<le> n"
  shows "case r of
      None \<Rightarrow> \<exists>s'. call_run n h f s = Some (Inr s') \<and> cur s' = Host h \<and> t_fiber s' = Some m \<and>
        events s' = events s @ ev \<and> map_option f_state (fibers s' f) = Some (final_state b)
    | Some k \<Rightarrow> call_run n h f s = Some (Inl NullDeref)"
  using assms slice_ends [of b ev st]
  by (auto simp: call_run_outcome call_outcome_def slice_result_def slice_fiber_def
      split: option.splits)

theorem call_without_scheduler_witness:
  "call_run 2 7 1 (demo_thread False True (YieldHold Return)) = Some (Inl NullDeref)"
  using call_without_scheduler [of "demo_thread False True (YieldHold Return)" 0 1 demo_main
      "demo_fiber True (YieldHold Return)" "YieldHold Return" "[]" HOLD "Some Return" 2 7]
  by (simp add: demo_simps)

text \<open>
  C18. Whatever sequence of operations created, destroyed, reset, switched to and ran fibers,
  \<open>TotalFibers()\<close> is the number of live \<open>Fiber\<close> objects (modulo the width of the counter).
\<close>

theorem TotalFibers_counts_live:
  assumes "fiber_reachable c s"
  shows "TotalFibers s = of_nat (card (dom (fibers s)))"
  using alloc_inv_reachable [OF assms] by (simp add: TotalFibers_def alloc_inv_def)

theorem TotalFibers_counts_live_witness:
  "TotalFibers (snd (Fiber_new 131072 (Some (Return :: nat coro)) 0 False fctx_init)) = 1"
  using TotalFibers_counts_live [OF fiber_next [OF fiber_start op_new],
      of 131072 "Some (Return :: nat coro)" 0 False]
  by (simp add: Fiber_new_def Let_def fctx_init_def put_fiber_def)

text \<open>
  Two live fibers have different ids, as long as fewer than \<open>2 ^ 64\<close> fibers were made.
\<close>

theorem fiber_ids_distinct:
  assumes "fiber_reachable c s" and "next_addr s < 2 ^ 64"
    and "fibers s a = Some fa" and "fibers s b = Some fb" and "f_id fa = f_id fb"
  shows "a = b"
proof -
  from alloc_inv_reachable [OF assms(1)] assms(3,4)
  have "a < next_addr s" "b < next_addr s"
    and ids: "f_id fa = of_nat (Suc a)" "f_id fb = of_nat (Suc b)"
    unfolding alloc_inv_def by blast+
  with assms(2) have le: "Suc a \<le> 2 ^ 64" "Suc b \<le> 2 ^ 64" by auto
  from ids assms(5) have "(of_nat (Suc a) :: 64 word) = of_nat (Suc b)" by simp
  then have "Suc a mod 2 ^ 64 = Suc b mod 2 ^ 64"
    unfolding word_of_nat_eq_iff by (simp add: take_bit_eq_mod)
  with le show ?thesis
    by (metis Suc_inject le_neq_implies_less mod_less mod_self nat.distinct(1))
qed

theorem fiber_ids_distinct_witness:
  "\<exists>s fa. fiber_reachable 131072 (s :: nat fctx) \<and> fibers s 0 = Some fa \<and>
     (\<forall>b fb. fibers s b = Some fb \<and> f_id fb = f_id fa \<longleftrightarrow> b = 0 \<and> fb = fa)"
proof -
  let ?s = "snd (Fiber_new 131072 (Some (Return :: nat coro)) 0 False fctx_init)"
  have r: "fiber_reachable 131072 ?s" by (rule fiber_next [OF fiber_start op_new])
  have n: "next_addr ?s < 2 ^ 64" by (simp add: Fiber_new_def Let_def fctx_init_def put_fiber_def)
  obtain fa where fa: "fibers ?s 0 = Some fa"
    by (simp add: Fiber_new_def Let_def fctx_init_def put_fiber_def)
  from fiber_ids_distinct [OF r n _ fa] fa
  have "\<forall>b fb. fibers ?s b = Some fb \<and> f_id fb = f_id fa \<longleftrightarrow> b = 0 \<and> fb = fa"
    by (metis option.inject)
  with r fa show ?thesis by blast
qed

text \<open>
  A fiber whose function has ended cannot be resumed, only reset: \<open>swapIn\<close> does not check the
  state, the fiber continues after its last switch and the assertion there aborts. A sub-fiber can
  be destroyed exactly in the states \<open>INIT\<close>, \<open>TERM\<close> and \<open>EXCEPT\<close>.
\<close>

theorem ended_fiber_aborts:
  assumes "t_scheduler_fiber s = Some m" and "m \<noteq> f"
    and "fibers s m = Some fm" and "fibers s f = Some fb"
  shows "(f_ctx fb = AfterSwap e f \<longrightarrow> swapIn_run (Suc n) h f s = Some (Inl AssertFailed)) \<and>
    (f_stack fb = StackMem sz \<longrightarrow>
      ((\<exists>s'. Fiber_delete f s = Inr s') \<longleftrightarrow> f_state fb \<in> {INIT, TERM_S, EXCEPT}))"
  using assms
  by (auto simp: swapIn_run_def swapIn_eq run_fiber.simps [of "Suc n"] fiber_step_def
      Fiber_delete_def Let_def)

theorem ended_fiber_aborts_witness:
  "\<exists>s'. Fiber_delete 1 (demo_thread True False Return) = Inr s'"
  using ended_fiber_aborts [of "demo_thread True False Return" 0 1 demo_main
      "demo_fiber False Return" MainFunc 0 0 131072]
  by (simp add: demo_simps)

text \<open>
  The constructor of a thread's main fiber leaves \<open>m_stack\<close> indeterminate, and the
  destructor of that fiber reads it.
\<close>

theorem main_fiber_delete_reads_uninit:
  assumes "t_fiber s = None" and "Fiber_GetThis s = Inr (a, s1)"
  shows "Fiber_delete a s1 = Inl UninitRead"
  using assms
  by (auto simp: Fiber_GetThis_def Fiber_main_def Fiber_delete_def Let_def put_fiber_def SetThis_def)

theorem main_fiber_delete_reads_uninit_witness:
  "Fiber_delete 0 (snd (Fiber_main (fctx_init :: nat fctx))\<lparr>t_threadFiber := Some 0\<rparr>) = Inl UninitRead"
  by (rule main_fiber_delete_reads_uninit [of fctx_init])
    (simp_all add: Fiber_GetThis_def Fiber_main_def fctx_init_def put_fiber_def SetThis_def)

text \<open>
  The stack size asked for is kept when it is below \<open>2 ^ 32\<close> and truncated to 32 bits
  otherwise, so a request for a positive multiple of \<open>2 ^ 32\<close> allocates an empty stack; a request
  of 0 takes the configured size.
\<close>

theorem stack_size_truncates:
  "unat (stack_size_of cfg sz) = (if sz = 0 then unat cfg else unat sz mod 2 ^ 32)"
  using unat_less_pow [of cfg]
  by (simp add: stack_size_of_def unsigned_ucast_eq take_bit_eq_mod)

end
