(* ===== verification/Scheduler.thy ===== *)
theory Scheduler imports Fiber begin

text \<open>
  \<open>LioNet/scheduler.h\<close> and \<open>scheduler.cc\<close>: an M:N scheduler. A queue of tasks (a fiber or a
  function, with the thread it is bound to or -1) is served by worker threads that all run
  \<open>Scheduler::run\<close>. The model has the queue operations as functions and every worker as a
  deterministic step function at the granularity of the code's atomic sections; the threads
  interleave at these steps. A fiber is represented by its state and by the rest of its function,
  which is what \<open>swapIn\<close> needs of it (theory Fiber).
\<close>

section \<open>Tasks and the scheduler object\<close>

text \<open>\<open>Scheduler::FiberAndThread\<close>, its constructors and \<open>reset\<close>.\<close>

record 'a task =
  tk_fiber :: "nat option"
  tk_func :: "'a coro option"
  tk_thread :: int

definition task_of_fiber :: "nat option \<Rightarrow> int \<Rightarrow> 'a task" where
  "task_of_fiber f thr = \<lparr>tk_fiber = f, tk_func = None, tk_thread = thr\<rparr>"

definition task_of_func :: "'a coro option \<Rightarrow> int \<Rightarrow> 'a task" where
  "task_of_func g thr = \<lparr>tk_fiber = None, tk_func = g, tk_thread = thr\<rparr>"

text \<open>The constructor from \<open>std::function*\<close> swaps: the caller's function becomes empty.\<close>

definition task_of_func_ptr :: "'a coro option \<Rightarrow> int \<Rightarrow> 'a task \<times> 'a coro option" where
  "task_of_func_ptr g thr = (\<lparr>tk_fiber = None, tk_func = g, tk_thread = thr\<rparr>, None)"

text \<open>What a caller of \<open>schedule\<close> passes, and the overload of the constructor it selects.\<close>

datatype 'a fiber_or_func = OfFiber "nat option" | OfFunc "'a coro option"

fun task_of :: "'a fiber_or_func \<Rightarrow> int \<Rightarrow> 'a task" where
  "task_of (OfFiber f) thr = task_of_fiber f thr"
| "task_of (OfFunc g) thr = task_of_func g thr"

definition task_reset :: "'a task" where
  "task_reset = \<lparr>tk_fiber = None, tk_func = None, tk_thread = -1\<rparr>"

record 'a sched =
  m_name :: string
  m_fibers :: "'a task list"
  m_rootFiber :: "nat option"
  m_threads :: "string list"
  m_threadIds :: "int list"
  m_threadCount :: nat
  m_activeThreadCount :: int
  m_idleThreadCount :: int
  m_stopping :: bool
  m_autoStop :: bool
  m_rootThread :: int

section \<open>The queue\<close>

text \<open>\<open>scheduleNonLock\<close>: the returned flag asks for a \<open>tickle\<close>.\<close>

definition scheduleNonLock :: "'a task \<Rightarrow> 'a task list \<Rightarrow> bool \<times> 'a task list" where
  "scheduleNonLock ft q =
     (let need_tickle = (q = [])
      in (need_tickle, if tk_fiber ft \<noteq> None \<or> tk_func ft \<noteq> None then q @ [ft] else q))"

text \<open>\<open>schedule(func, thread)\<close> and \<open>schedule(begin, end)\<close>; the flag tells if \<open>tickle\<close> is called.\<close>

definition schedule :: "'a task \<Rightarrow> 'a sched \<Rightarrow> bool \<times> 'a sched" where
  "schedule ft s =
     (let (need_tickle, q) = scheduleNonLock ft (m_fibers s) in (need_tickle, s\<lparr>m_fibers := q\<rparr>))"

fun schedule_loop :: "'a fiber_or_func list \<Rightarrow> bool \<Rightarrow> 'a task list \<Rightarrow> bool \<times> 'a task list" where
  "schedule_loop [] need_tickle q = (need_tickle, q)"
| "schedule_loop (ft # fts) need_tickle q =
     (let (nt, q') = scheduleNonLock (task_of ft (-1)) q in schedule_loop fts (nt \<or> need_tickle) q')"

definition schedule_range :: "'a fiber_or_func list \<Rightarrow> 'a sched \<Rightarrow> bool \<times> 'a sched" where
  "schedule_range fts s =
     (let (need_tickle, q) = schedule_loop fts False (m_fibers s)
      in (need_tickle, s\<lparr>m_fibers := q\<rparr>))"

text \<open>
  The search of \<open>run\<close> for its next task, under \<open>m_mutex\<close>: the flag \<open>tickle_me\<close>, the task
  taken, and the queue without it. \<open>st\<close> gives the fibers' states, \<open>tid\<close> is the thread.
\<close>

fun pick_task :: "(nat \<Rightarrow> fiber_state) \<Rightarrow> int \<Rightarrow> 'a task list \<Rightarrow>
    (bool \<times> 'a task option \<times> 'a task list) res" where
  "pick_task st tid [] = Inr (False, None, [])"
| "pick_task st tid (t # q) =
     (if tk_thread t \<noteq> -1 \<and> tk_thread t \<noteq> tid then
        res_bind (pick_task st tid q) (\<lambda>(_, ft, q'). Inr (True, ft, t # q'))
      else lionet_assert (tk_fiber t \<noteq> None \<or> tk_func t \<noteq> None)
        (case tk_fiber t of
           Some f \<Rightarrow>
             if st f = EXEC then
               res_bind (pick_task st tid q) (\<lambda>(tickle, ft, q'). Inr (tickle, ft, t # q'))
             else Inr (q \<noteq> [], Some t, q)
         | None \<Rightarrow> Inr (q \<noteq> [], Some t, q)))"

text \<open>\<open>stopping()\<close>\<close>

definition stopping :: "'a sched \<Rightarrow> bool" where
  "stopping s \<longleftrightarrow>
     m_autoStop s \<and> m_stopping s \<and> m_fibers s = [] \<and> m_activeThreadCount s = 0"

definition hasIdleThreads :: "'a sched \<Rightarrow> bool" where
  "hasIdleThreads s \<longleftrightarrow> m_idleThreadCount s > 0"

section \<open>Construction, start and stop\<close>

text \<open>
  The constructor. \<open>m_stopping\<close> and \<open>m_autoStop\<close> have no initialiser: their values are the
  parameters \<open>stopping0\<close> and \<open>autoStop0\<close>. \<open>t_scheduler\<close> is the scheduler the calling thread
  already has, \<open>root\<close> the address of the new root fiber and \<open>tid\<close> the calling thread.
\<close>

definition Scheduler_new ::
    "bool \<Rightarrow> bool \<Rightarrow> nat \<Rightarrow> bool \<Rightarrow> string \<Rightarrow> nat option \<Rightarrow> nat \<Rightarrow> int \<Rightarrow> 'a sched res" where
  "Scheduler_new stopping0 autoStop0 threads use_caller name t_scheduler root tid =
     lionet_assert (threads > 0)
       (if use_caller then
          lionet_assert (t_scheduler = None)
            (Inr \<lparr>m_name = name, m_fibers = [], m_rootFiber = Some root, m_threads = [],
                  m_threadIds = [tid], m_threadCount = threads - 1, m_activeThreadCount = 0,
                  m_idleThreadCount = 0, m_stopping = stopping0, m_autoStop = autoStop0,
                  m_rootThread = tid\<rparr>)
        else
          Inr \<lparr>m_name = name, m_fibers = [], m_rootFiber = None, m_threads = [],
               m_threadIds = [], m_threadCount = threads, m_activeThreadCount = 0,
               m_idleThreadCount = 0, m_stopping = stopping0, m_autoStop = autoStop0,
               m_rootThread = -1\<rparr>)"

text \<open>
  \<open>start()\<close>: the workers are created with the names \<open>name_0\<close>, \<open>name_1\<close>, ...; \<open>tids\<close> gives
  the thread ids the system assigns, \<open>to_string\<close> the decimal numerals.
\<close>

definition Scheduler_start :: "(nat \<Rightarrow> string) \<Rightarrow> (nat \<Rightarrow> int) \<Rightarrow> 'a sched \<Rightarrow> 'a sched res" where
  "Scheduler_start to_string tids s =
     (if \<not> m_stopping s then Inr s
      else lionet_assert (m_threads s = [])
        (Inr (s\<lparr>m_stopping := False,
                m_threads := map (\<lambda>i. m_name s @ ''_'' @ to_string i) [0..<m_threadCount s],
                m_threadIds := m_threadIds s @ map tids [0..<m_threadCount s]\<rparr>)))"

text \<open>
  \<open>stop()\<close>. \<open>mine\<close> tells if the calling thread's scheduler is this one, \<open>root_state\<close> is the
  state of the root fiber. The result tells what the call waits for: nothing
  (\<open>StopDone\<close>), the root fiber's \<open>run\<close> on this thread before the workers
  (\<open>StopCallRoot\<close>), or the workers only (\<open>StopJoin\<close>); the list holds the threads joined.
\<close>

datatype stop_wait = StopDone | StopCallRoot "string list" | StopJoin "string list"

definition Scheduler_stop :: "bool \<Rightarrow> fiber_state \<Rightarrow> 'a sched \<Rightarrow> (stop_wait \<times> 'a sched) res" where
  "Scheduler_stop mine root_state s0 =
     (let s = s0\<lparr>m_autoStop := True\<rparr>;
          only_root = (m_rootFiber s \<noteq> None \<and> m_threadCount s = 0 \<and>
                       (root_state = TERM_S \<or> root_state = INIT));
          s1 = (if only_root then s\<lparr>m_stopping := True\<rparr> else s)
      in if only_root \<and> stopping s1 then Inr (StopDone, s1)
         else lionet_assert (if m_rootThread s1 \<noteq> -1 then mine else \<not> mine)
           (let s2 = s1\<lparr>m_stopping := True\<rparr>;
                s3 = s2\<lparr>m_threads := []\<rparr>
            in if m_rootFiber s2 \<noteq> None \<and> \<not> stopping s2
               then Inr (StopCallRoot (m_threads s2), s3)
               else Inr (StopJoin (m_threads s2), s3)))"

text \<open>\<open>~Scheduler\<close>\<close>

definition Scheduler_delete :: "nat \<Rightarrow> nat option \<Rightarrow> 'a sched \<Rightarrow> nat option res" where
  "Scheduler_delete this t_scheduler s =
     lionet_assert (m_stopping s) (Inr (if t_scheduler = Some this then None else t_scheduler))"

text \<open>
  \<open>switchTo(thread)\<close> as a part of the running fiber's function: \<open>k\<close> is what follows the call,
  \<open>mine\<close> tells if the scheduler is the one of the calling thread \<open>tid\<close>.
\<close>

definition switchTo :: "bool \<Rightarrow> int \<Rightarrow> int \<Rightarrow> 'a coro \<Rightarrow> 'a coro" where
  "switchTo mine tid thread k =
     (if mine \<and> (thread = -1 \<or> thread = tid) then k else ScheduleSelf thread (YieldHold k))"

text \<open>
  \<open>SchedulerSwitcher\<close>: the constructor switches to the target, the destructor back to the
  scheduler the object was made on. \<open>None\<close> is a null pointer; a scheduler pointer is given by
  whether it is the running thread's, with the id of that thread, at the time of the switch.
\<close>

definition SchedulerSwitcher_new :: "(bool \<times> int) option \<Rightarrow> 'a coro \<Rightarrow> 'a coro" where
  "SchedulerSwitcher_new target k =
     (case target of None \<Rightarrow> k | Some (mine, tid) \<Rightarrow> switchTo mine tid (-1) k)"

definition SchedulerSwitcher_delete :: "(bool \<times> int) option \<Rightarrow> 'a coro \<Rightarrow> 'a coro" where
  "SchedulerSwitcher_delete caller k =
     (case caller of None \<Rightarrow> k | Some (mine, tid) \<Rightarrow> switchTo mine tid (-1) k)"

text \<open>\<open>dump\<close>; \<open>show_int\<close> prints an integer, \<open>flags\<close> print as 0 and 1.\<close>

fun comma_list :: "string list \<Rightarrow> string" where
  "comma_list [] = []"
| "comma_list [x] = x"
| "comma_list (x # xs) = x @ '', '' @ comma_list xs"

definition Scheduler_dump :: "(int \<Rightarrow> string) \<Rightarrow> 'a sched \<Rightarrow> string" where
  "Scheduler_dump show_int s =
     ''[Scheduler name='' @ m_name s @ '' size='' @ show_int (int (m_threadCount s)) @
     '' active_count='' @ show_int (m_activeThreadCount s) @
     '' idle_count='' @ show_int (m_idleThreadCount s) @
     '' stopping='' @ (if m_stopping s then ''1'' else ''0'') @ '' ]'' @ [CHR 0x0A] @ ''    '' @
     comma_list (map show_int (m_threadIds s))"

section \<open>The workers\<close>

text \<open>
  Where a worker is in \<open>run\<close>: at the head of the loop, with the task it took, inside the fiber it
  switched to, after \<open>swapIn\<close> returned, after \<open>--m_activeThreadCount\<close>, inside its idle fiber,
  or out of the loop. The flag tells that the fiber is the worker's \<open>func_fiber\<close>.
\<close>

datatype 'a wpc =
    W_top
  | W_got "'a task"
  | W_run nat bool
  | W_back nat bool
  | W_post nat bool
  | W_idle
  | W_exit

record 'a worker =
  w_tid :: int
  w_pc :: "'a wpc"
  w_func_fiber :: "nat option"
  w_idle_state :: fiber_state

record 'a sys =
  sc :: "'a sched"
  ws :: "'a worker list"
  fstate :: "nat \<Rightarrow> fiber_state"
  fprog :: "nat \<Rightarrow> 'a coro"
  next_fiber :: nat
  done_events :: "'a list"

text \<open>A new worker: \<open>idle_fiber\<close> is new, \<open>func_fiber\<close> is empty.\<close>

definition worker_init :: "int \<Rightarrow> 'a worker" where
  "worker_init tid =
     \<lparr>w_tid = tid, w_pc = W_top, w_func_fiber = None, w_idle_state = INIT\<rparr>"

definition set_worker :: "nat \<Rightarrow> 'a worker \<Rightarrow> 'a sys \<Rightarrow> 'a sys" where
  "set_worker i w s = s\<lparr>ws := (ws s)[i := w]\<rparr>"

definition set_fiber :: "nat \<Rightarrow> fiber_state \<Rightarrow> 'a coro \<Rightarrow> 'a sys \<Rightarrow> 'a sys" where
  "set_fiber f st b s = s\<lparr>fstate := (fstate s)(f := st), fprog := (fprog s)(f := b)\<rparr>"

definition enqueue :: "'a task \<Rightarrow> 'a sys \<Rightarrow> 'a sys" where
  "enqueue ft s = s\<lparr>sc := snd (schedule ft (sc s))\<rparr>"

definition add_active :: "int \<Rightarrow> 'a sys \<Rightarrow> 'a sys" where
  "add_active d s = s\<lparr>sc := (sc s)\<lparr>m_activeThreadCount := m_activeThreadCount (sc s) + d\<rparr>\<rparr>"

definition add_idle :: "int \<Rightarrow> 'a sys \<Rightarrow> 'a sys" where
  "add_idle d s = s\<lparr>sc := (sc s)\<lparr>m_idleThreadCount := m_idleThreadCount (sc s) + d\<rparr>\<rparr>"

text \<open>
  The head of the loop: with \<open>m_mutex\<close> held the worker takes a task and counts itself as active;
  without one it leaves the loop when its idle fiber has ended and switches to it otherwise.
\<close>

definition step_top :: "nat \<Rightarrow> 'a worker \<Rightarrow> 'a sys \<Rightarrow> 'a sys res" where
  "step_top i w s =
     res_bind (pick_task (fstate s) (w_tid w) (m_fibers (sc s))) (\<lambda>(tickle_me, ft, q).
       let s1 = s\<lparr>sc := (sc s)\<lparr>m_fibers := q\<rparr>\<rparr>
       in case ft of
            Some t \<Rightarrow> Inr (add_active 1 (set_worker i (w\<lparr>w_pc := W_got t\<rparr>) s1))
          | None \<Rightarrow>
              if w_idle_state w = TERM_S then Inr (set_worker i (w\<lparr>w_pc := W_exit\<rparr>) s1)
              else Inr (add_idle 1 (set_worker i (w\<lparr>w_pc := W_idle\<rparr>) s1)))"

text \<open>
  The three branches on the task taken: a live fiber is switched to; a function is given to
  \<open>func_fiber\<close>, reset or made; an ended fiber is dropped.
\<close>

definition step_got :: "nat \<Rightarrow> 'a worker \<Rightarrow> 'a task \<Rightarrow> 'a sys \<Rightarrow> 'a sys res" where
  "step_got i w t s =
     (let run_func = (case tk_func t of
          Some g \<Rightarrow> (case w_func_fiber w of
              Some f \<Rightarrow> lionet_assert (fstate s f \<in> {TERM_S, EXCEPT, INIT})
                 (Inr (set_fiber f EXEC g (set_worker i (w\<lparr>w_pc := W_run f True\<rparr>) s)))
            | None \<Rightarrow>
                (let f = next_fiber s
                 in Inr (set_fiber f EXEC g
                      (set_worker i (w\<lparr>w_pc := W_run f True, w_func_fiber := Some f\<rparr>)
                        (s\<lparr>next_fiber := Suc f\<rparr>)))))
        | None \<Rightarrow> Inr (add_active (-1) (set_worker i (w\<lparr>w_pc := W_top\<rparr>) s)))
      in case tk_fiber t of
           Some f \<Rightarrow>
             if fstate s f \<noteq> TERM_S \<and> fstate s f \<noteq> EXCEPT
             then Inr (set_fiber f EXEC (fprog s f) (set_worker i (w\<lparr>w_pc := W_run f False\<rparr>) s))
             else run_func
         | None \<Rightarrow> run_func)"

text \<open>One step of the fiber's function on the worker.\<close>

definition step_run :: "nat \<Rightarrow> 'a worker \<Rightarrow> nat \<Rightarrow> bool \<Rightarrow> 'a sys \<Rightarrow> 'a sys" where
  "step_run i w f fn s =
     (let back = set_worker i (w\<lparr>w_pc := W_back f fn\<rparr>)
      in case fprog s f of
           Return \<Rightarrow> back (set_fiber f TERM_S Return s)
         | Throw \<Rightarrow> back (set_fiber f EXCEPT Throw s)
         | Act a k \<Rightarrow> set_fiber f EXEC k (s\<lparr>done_events := done_events s @ [a]\<rparr>)
         | Spawn g thr k \<Rightarrow> set_fiber f EXEC k (enqueue (task_of_func (Some g) thr) s)
         | ScheduleSelf thr k \<Rightarrow> set_fiber f EXEC k (enqueue (task_of_fiber (Some f) thr) s)
         | YieldReady k \<Rightarrow> back (set_fiber f READY k s)
         | YieldHold k \<Rightarrow> back (set_fiber f HOLD k s))"

text \<open>
  After \<open>swapIn\<close> and the decrement: a yielded fiber is scheduled again, on any thread; a
  \<open>func_fiber\<close> that ended is kept, with an empty function (whose call would throw).
\<close>

definition step_post :: "nat \<Rightarrow> 'a worker \<Rightarrow> nat \<Rightarrow> bool \<Rightarrow> 'a sys \<Rightarrow> 'a sys res" where
  "step_post i w f fn s =
     (let st = fstate s f;
          top = (\<lambda>w. set_worker i (w\<lparr>w_pc := W_top\<rparr>))
      in if \<not> fn then
           if st = READY \<or> st = HOLD then Inr (top w (enqueue (task_of_fiber (Some f) (-1)) s))
           else if st \<noteq> TERM_S \<and> st \<noteq> EXCEPT then Inr (top w (set_fiber f HOLD (fprog s f) s))
           else Inr (top w s)
         else
           if st = READY \<or> st = HOLD then
             Inr (top (w\<lparr>w_func_fiber := None\<rparr>) (enqueue (task_of_fiber (Some f) (-1)) s))
           else if st = EXCEPT \<or> st = TERM_S then
             lionet_assert (st \<in> {TERM_S, EXCEPT, INIT}) (Inr (top w (set_fiber f INIT Throw s)))
           else Inr (top (w\<lparr>w_func_fiber := None\<rparr>) (set_fiber f HOLD (fprog s f) s)))"

text \<open>
  One run of the idle fiber's loop: it ends when the scheduler is stopping, and yields otherwise.
\<close>

definition step_idle :: "nat \<Rightarrow> 'a worker \<Rightarrow> 'a sys \<Rightarrow> 'a sys" where
  "step_idle i w s =
     add_idle (-1)
       (set_worker i (w\<lparr>w_pc := W_top, w_idle_state := (if stopping (sc s) then TERM_S else HOLD)\<rparr>) s)"

text \<open>\<open>Scheduler::run\<close>, one step of worker \<open>i\<close>.\<close>

definition worker_step :: "nat \<Rightarrow> 'a sys \<Rightarrow> 'a sys res" where
  "worker_step i s =
     (let w = ws s ! i
      in case w_pc w of
           W_top \<Rightarrow> step_top i w s
         | W_got t \<Rightarrow> step_got i w t s
         | W_run f fn \<Rightarrow> Inr (step_run i w f fn s)
         | W_back f fn \<Rightarrow> Inr (add_active (-1) (set_worker i (w\<lparr>w_pc := W_post f fn\<rparr>) s))
         | W_post f fn \<Rightarrow> step_post i w f fn s
         | W_idle \<Rightarrow> Inr (step_idle i w s)
         | W_exit \<Rightarrow> Inr s)"

text \<open>\<open>stop()\<close> as the workers see it.\<close>

definition request_stop :: "'a sys \<Rightarrow> 'a sys" where
  "request_stop s = s\<lparr>sc := (sc s)\<lparr>m_autoStop := True, m_stopping := True\<rparr>\<rparr>"

text \<open>The user makes a fiber with the function \<open>g\<close>.\<close>

definition user_fiber :: "'a coro \<Rightarrow> 'a sys \<Rightarrow> 'a sys" where
  "user_fiber g s = set_fiber (next_fiber s) INIT g (s\<lparr>next_fiber := Suc (next_fiber s)\<rparr>)"

section \<open>The queue contract\<close>

text \<open>
  What \<open>run\<close> and \<open>schedule\<close> rely on: new work goes to the end, the work taken is the first entry
  that fits, nothing else is lost, added or reordered, and nothing fits when none is taken.
\<close>

locale work_queue =
  fixes push :: "'t \<Rightarrow> 'q \<Rightarrow> 'q"
    and takef :: "'q \<Rightarrow> ('t \<times> 'q) option"
    and items :: "'q \<Rightarrow> 't list"
    and real :: "'t \<Rightarrow> bool"
    and fits :: "'t \<Rightarrow> bool"
    and ok :: "'q \<Rightarrow> bool"
  assumes items_push: "items (push t q) = items q @ (if real t then [t] else [])"
    and ok_push: "ok q \<Longrightarrow> ok (push t q)"
    and take_Some: "ok q \<Longrightarrow> takef q = Some (t, q') \<Longrightarrow>
      ok q' \<and> fits t \<and>
      (\<exists>xs ys. items q = xs @ t # ys \<and> items q' = xs @ ys \<and> (\<forall>x\<in>set xs. \<not> fits x))"
    and take_None: "ok q \<Longrightarrow> takef q = None \<Longrightarrow> \<forall>x\<in>set (items q). \<not> fits x"
begin

lemma take_conserves:
  assumes "ok q" and "takef q = Some (t, q')"
  shows "mset (items q) = add_mset t (mset (items q'))"
  using take_Some [OF assms] by auto

lemma take_all:
  assumes "ok q" and "takef q = Some (t, q')" and "list_all P (items q)"
  shows "P t \<and> list_all P (items q')"
  using take_Some [OF assms(1,2)] assms(3) by auto

lemma take_head:
  assumes "ok q" and "\<forall>x\<in>set (items q). fits x" and "items q = t # ts"
  shows "\<exists>q'. takef q = Some (t, q') \<and> items q' = ts"
proof (cases "takef q")
  case None
  with take_None [OF assms(1)] assms(2,3) show ?thesis by auto
next
  case (Some p)
  then obtain u q' where q': "takef q = Some (u, q')" by (cases p) auto
  from take_Some [OF assms(1) q'] obtain xs ys
    where "items q = xs @ u # ys" "items q' = xs @ ys" "\<forall>x\<in>set xs. \<not> fits x" by blast
  with assms(2,3) q' show ?thesis by (cases xs) auto
qed

lemma push_take_order:
  assumes "ok q" and "\<forall>x\<in>set (items q). fits x" and "fits t" and "real t" and "items q = u # us"
  shows "\<exists>q'. takef (push t q) = Some (u, q') \<and> items q' = us @ [t]"
  using take_head [OF ok_push [OF assms(1)], of t u "us @ [t]"] assms(2-5)
  by (simp add: items_push)

end

definition task_real :: "'a task \<Rightarrow> bool" where
  "task_real t \<longleftrightarrow> tk_fiber t \<noteq> None \<or> tk_func t \<noteq> None"

definition task_fits :: "(nat \<Rightarrow> fiber_state) \<Rightarrow> int \<Rightarrow> 'a task \<Rightarrow> bool" where
  "task_fits st tid t \<longleftrightarrow>
     (tk_thread t = -1 \<or> tk_thread t = tid) \<and> (\<forall>f. tk_fiber t = Some f \<longrightarrow> st f \<noteq> EXEC)"

definition take_task :: "(nat \<Rightarrow> fiber_state) \<Rightarrow> int \<Rightarrow> 'a task list \<Rightarrow> ('a task \<times> 'a task list) option" where
  "take_task st tid q = (case pick_task st tid q of Inr (_, Some t, q') \<Rightarrow> Some (t, q') | _ \<Rightarrow> None)"

definition push_task :: "'a task \<Rightarrow> 'a task list \<Rightarrow> 'a task list" where
  "push_task t q = snd (scheduleNonLock t q)"

text \<open>
  The search as a whole: on a queue of real tasks it does not fault, and it splits the queue at the
  first task that fits; \<open>tickle_me\<close> tells whether a task for another thread was passed or tasks
  remain behind the one taken.
\<close>

lemma pick_task_split:
  assumes "list_all task_real q"
  shows "(\<exists>xs t ys. q = xs @ t # ys \<and> (\<forall>x\<in>set xs. \<not> task_fits st tid x) \<and> task_fits st tid t \<and>
        pick_task st tid q =
          Inr ((\<exists>x\<in>set xs. tk_thread x \<noteq> -1 \<and> tk_thread x \<noteq> tid) \<or> ys \<noteq> [], Some t, xs @ ys)) \<or>
    ((\<forall>x\<in>set q. \<not> task_fits st tid x) \<and>
        pick_task st tid q = Inr (\<exists>x\<in>set q. tk_thread x \<noteq> -1 \<and> tk_thread x \<noteq> tid, None, q))"
  using assms
proof (induction q)
  case Nil
  then show ?case by simp
next
  case (Cons u q)
  have "list_all task_real q" using Cons.prems by simp
  note IH = Cons.IH [OF this]
  show ?case
  proof (cases "task_fits st tid u")
    case True
    with Cons.prems have "pick_task st tid (u # q) = Inr (q \<noteq> [], Some u, q)"
      by (auto simp: task_fits_def task_real_def split: option.splits)
    with True show ?thesis by (intro disjI1 exI [of _ "[]"] exI [of _ u] exI [of _ q]) simp
  next
    case False
    let ?far = "tk_thread u \<noteq> -1 \<and> tk_thread u \<noteq> tid"
    from False Cons.prems have step: "pick_task st tid (u # q) =
        res_bind (pick_task st tid q) (\<lambda>(tickle, ft, q'). Inr (?far \<or> tickle, ft, u # q'))"
      by (auto simp: task_fits_def task_real_def res_bind_def split: option.splits sum.splits)
    from IH show ?thesis
    proof (elim disjE exE conjE)
      fix xs t ys
      assume "q = xs @ t # ys" "\<forall>x\<in>set xs. \<not> task_fits st tid x" "task_fits st tid t"
        "pick_task st tid q =
          Inr ((\<exists>x\<in>set xs. tk_thread x \<noteq> -1 \<and> tk_thread x \<noteq> tid) \<or> ys \<noteq> [], Some t, xs @ ys)"
      with step False show ?thesis
        by (intro disjI1 exI [of _ "u # xs"] exI [of _ t] exI [of _ ys]) auto
    next
      assume "\<forall>x\<in>set q. \<not> task_fits st tid x"
        "pick_task st tid q = Inr (\<exists>x\<in>set q. tk_thread x \<noteq> -1 \<and> tk_thread x \<noteq> tid, None, q)"
      with step False show ?thesis by (intro disjI2) auto
    qed
  qed
qed

lemma take_task_Some:
  assumes "list_all task_real q" and "take_task st tid q = Some (t, q')"
  shows "\<exists>xs ys. q = xs @ t # ys \<and> q' = xs @ ys \<and> (\<forall>x\<in>set xs. \<not> task_fits st tid x) \<and>
    task_fits st tid t"
  using pick_task_split [OF assms(1), of st tid] assms(2)
  by (elim disjE exE conjE) (simp_all add: take_task_def, blast)

lemma take_task_None:
  assumes "list_all task_real q" and "take_task st tid q = None"
  shows "\<forall>x\<in>set q. \<not> task_fits st tid x"
  using pick_task_split [OF assms(1), of st tid] assms(2) by (auto simp: take_task_def)

lemma push_task_eq: "push_task t q = q @ (if task_real t then [t] else [])"
  by (simp add: push_task_def scheduleNonLock_def task_real_def)

interpretation rq: work_queue push_task "take_task st tid" "\<lambda>q. q" task_real "task_fits st tid"
    "list_all task_real"
  for st :: "nat \<Rightarrow> fiber_state" and tid :: int
proof unfold_locales
  fix t :: "'a task" and q q' :: "'a task list"
  show "push_task t q = q @ (if task_real t then [t] else [])" by (rule push_task_eq)
  show "list_all task_real q \<Longrightarrow> list_all task_real (push_task t q)" by (simp add: push_task_eq)
  show "list_all task_real q \<Longrightarrow> take_task st tid q = None \<Longrightarrow>
    \<forall>x\<in>set q. \<not> task_fits st tid x" by (rule take_task_None)
  assume "list_all task_real q" and "take_task st tid q = Some (t, q')"
  then show "list_all task_real q' \<and> task_fits st tid t \<and>
      (\<exists>xs ys. q = xs @ t # ys \<and> q' = xs @ ys \<and> (\<forall>x\<in>set xs. \<not> task_fits st tid x))"
    using take_task_Some [of q st tid t q'] by auto
qed

lemma schedule_loop_eq:
  "snd (schedule_loop fts b q) = q @ filter task_real (map (\<lambda>ft. task_of ft (-1)) fts)"
  "fst (schedule_loop fts b q) \<longleftrightarrow> b \<or> (q = [] \<and> fts \<noteq> [])"
  by (induction fts b q rule: schedule_loop.induct)
    (auto simp: scheduleNonLock_def task_real_def)

section \<open>Properties\<close>

text \<open>
  C14. The search of \<open>run\<close> takes the first task of the queue that the thread may run (open to it,
  and its fiber not executing), keeps the order of all others, and asks for a \<open>tickle\<close> exactly when
  it passed a task bound to another thread or left something behind the one it took. It never
  asserts on a queue that \<open>schedule\<close> made.
\<close>

theorem pick_task_first_fit:
  assumes "list_all task_real q"
  shows "pick_task st tid q = Inr
    (case dropWhile (\<lambda>t. \<not> task_fits st tid t) q of
       [] \<Rightarrow> (\<exists>t\<in>set q. tk_thread t \<noteq> -1 \<and> tk_thread t \<noteq> tid, None, q)
     | t # rest \<Rightarrow>
         (let skipped = takeWhile (\<lambda>t. \<not> task_fits st tid t) q
          in ((\<exists>t\<in>set skipped. tk_thread t \<noteq> -1 \<and> tk_thread t \<noteq> tid) \<or> rest \<noteq> [],
              Some t, skipped @ rest)))"
  using pick_task_split [OF assms, of st tid]
proof (elim disjE exE conjE)
  fix xs t ys
  assume "q = xs @ t # ys" and "\<forall>x\<in>set xs. \<not> task_fits st tid x" and "task_fits st tid t"
    and "pick_task st tid q =
      Inr ((\<exists>x\<in>set xs. tk_thread x \<noteq> -1 \<and> tk_thread x \<noteq> tid) \<or> ys \<noteq> [], Some t, xs @ ys)"
  then show ?thesis by (simp add: Let_def)
next
  assume none: "\<forall>x\<in>set q. \<not> task_fits st tid x"
    and pick: "pick_task st tid q = Inr (\<exists>x\<in>set q. tk_thread x \<noteq> -1 \<and> tk_thread x \<noteq> tid, None, q)"
  from none have "dropWhile (\<lambda>t. \<not> task_fits st tid t) q = []" by (simp add: dropWhile_eq_Nil_conv)
  then show ?thesis unfolding pick by (simp only: list.case)
qed

theorem pick_task_first_fit_witness:
  "pick_task (\<lambda>_. INIT) 1 [task_of_func (Some (Return :: nat coro)) 2, task_of_fiber (Some 0) 1] =
     Inr (True, Some (task_of_fiber (Some 0) 1), [task_of_func (Some Return) 2])"
  using pick_task_first_fit [of "[task_of_func (Some (Return :: nat coro)) 2, task_of_fiber (Some 0) 1]"
      "\<lambda>_. INIT" 1]
  by (simp add: task_real_def task_fits_def task_of_func_def task_of_fiber_def)

text \<open>
  A batch schedule is the single schedules in order: the tasks that hold a fiber or a function
  are appended in the order of the range, empty ones are dropped, and \<open>tickle\<close> is asked for
  exactly when the queue was empty and the range was not.
\<close>

theorem schedule_range_spec:
  "schedule_range fts s = (m_fibers s = [] \<and> fts \<noteq> [],
     s\<lparr>m_fibers := m_fibers s @ filter task_real (map (\<lambda>ft. task_of ft (-1)) fts)\<rparr>) \<and>
   snd (schedule_range fts s) = fold (\<lambda>ft s. snd (schedule (task_of ft (-1)) s)) fts s"
proof -
  have "fold (\<lambda>ft s. snd (schedule (task_of ft (-1)) s)) fts s =
      s\<lparr>m_fibers := m_fibers s @ filter task_real (map (\<lambda>ft. task_of ft (-1)) fts)\<rparr>"
    by (induction fts arbitrary: s)
      (auto simp: schedule_def scheduleNonLock_def task_real_def split: prod.splits)
  then show ?thesis
    using schedule_loop_eq [of fts False "m_fibers s"]
    by (auto simp: schedule_range_def split: prod.splits)
qed

text \<open>
  \<open>m_stopping\<close> has no initialiser, and \<open>start()\<close> does nothing unless it happens to be true:
  then it makes \<open>m_threadCount\<close> workers with the names and ids in order, and clears the flag; a
  second \<open>start()\<close> changes nothing.
\<close>

theorem start_depends_on_uninit:
  assumes "Scheduler_new stopping0 auto0 n uc name None root tid = Inr s"
  shows "\<exists>s1. Scheduler_start to_string tids s = Inr s1 \<and> Scheduler_start to_string tids s1 = Inr s1 \<and>
    (if stopping0
     then m_threads s1 = map (\<lambda>i. name @ ''_'' @ to_string i) [0..<(if uc then n - 1 else n)] \<and>
       m_threadIds s1 = (if uc then [tid] else []) @ map tids [0..<(if uc then n - 1 else n)] \<and>
       \<not> m_stopping s1
     else s1 = s)"
  using assms
  by (auto simp: Scheduler_new_def Scheduler_start_def split: if_splits)

theorem start_depends_on_uninit_witness:
  "\<exists>s. Scheduler_new False False 2 False ''s'' None 0 7 = Inr (s :: nat sched) \<and>
    Scheduler_start (\<lambda>_. '''') int s = Inr s"
  using start_depends_on_uninit [of False False 2 False "''s''" 0 7 _ "\<lambda>_. ''''" int]
  by (auto simp: Scheduler_new_def)

text \<open>
  \<open>stop()\<close> aborts exactly when it is called from the wrong thread: a scheduler with a root
  thread must be stopped by a thread whose scheduler it is, any other scheduler by a thread whose
  scheduler it is not; the check is skipped by a scheduler that has only a root thread, whose root
  fiber did not run or has ended, and that has nothing to do. Otherwise the call sets both stop
  flags and joins every worker thread, and before that it runs the root fiber when there is one
  and \<open>stopping()\<close> does not hold yet.
\<close>

theorem stop_outcomes:
  "(case Scheduler_stop mine root_state s of
      Inl e \<Rightarrow> e = AssertFailed \<and> (m_rootThread s \<noteq> -1) \<noteq> mine
    | Inr (w, s') \<Rightarrow> m_autoStop s' \<and> m_stopping s' \<and> m_fibers s' = m_fibers s \<and>
        (case w of
           StopDone \<Rightarrow> m_rootFiber s \<noteq> None \<and> m_threadCount s = 0 \<and> root_state \<in> {TERM_S, INIT} \<and> stopping s'
         | StopCallRoot ts \<Rightarrow> ts = m_threads s \<and> m_threads s' = [] \<and> m_rootFiber s \<noteq> None \<and>
             \<not> stopping s' \<and> (m_rootThread s \<noteq> -1) = mine
         | StopJoin ts \<Rightarrow> ts = m_threads s \<and> m_threads s' = [] \<and>
             (m_rootFiber s = None \<or> stopping s') \<and> (m_rootThread s \<noteq> -1) = mine))"
  by (auto simp: Scheduler_stop_def Let_def stopping_def lionet_assert_def split: if_splits)

end
