(* ===== verification/SchedulerInv.thy ===== *)
theory SchedulerInv imports Scheduler begin

text \<open>
  The transition system of the scheduler (theory Scheduler) and its invariant. The transitions are
  the workers' steps and what other threads may do: schedule a fiber nobody holds or a function,
  make a fiber, start a worker, ask for the stop. The invariant counts who holds which fiber: the
  queue, a worker's task, a worker's \<open>func_fiber\<close>. It gives that no step faults and that a fiber never runs on two threads,
  for all programs (\<open>sched_any\<close>) as long as no held fiber is scheduled, and for ever for functions that do not
  schedule their own fiber (\<open>sched_step\<close>); \<open>switchTo\<close> does, and the last section shows what it breaks.
\<close>

section \<open>Ownership of fibers\<close>

text \<open>
  The fibers a task, a worker and the whole system hold. A fiber may be switched to by whoever
  holds it, so it must not be held twice.
\<close>

definition task_own :: "'a task \<Rightarrow> nat multiset" where
  "task_own t = (case tk_fiber t of Some f \<Rightarrow> {#f#} | None \<Rightarrow> {#})"

fun pc_own :: "'a wpc \<Rightarrow> nat multiset" where
  "pc_own (W_got t) = task_own t"
| "pc_own (W_run f fn) = (if fn then {#} else {#f#})"
| "pc_own (W_back f fn) = (if fn then {#} else {#f#})"
| "pc_own (W_post f fn) = (if fn then {#} else {#f#})"
| "pc_own W_top = {#}"
| "pc_own W_idle = {#}"
| "pc_own W_exit = {#}"

definition worker_own :: "'a worker \<Rightarrow> nat multiset" where
  "worker_own w =
     pc_own (w_pc w) + (case w_func_fiber w of Some f \<Rightarrow> {#f#} | None \<Rightarrow> {#})"

definition queue_own :: "'a task list \<Rightarrow> nat multiset" where
  "queue_own q = sum_list (map task_own q)"

definition owned :: "'a sys \<Rightarrow> nat multiset" where
  "owned s = queue_own (m_fibers (sc s)) + sum_list (map worker_own (ws s))"

text \<open>A function that never schedules its own fiber.\<close>

fun no_self :: "'a coro \<Rightarrow> bool" where
  "no_self Return \<longleftrightarrow> True"
| "no_self Throw \<longleftrightarrow> True"
| "no_self (Act a k) \<longleftrightarrow> no_self k"
| "no_self (Spawn g t k) \<longleftrightarrow> no_self g \<and> no_self k"
| "no_self (ScheduleSelf t k) \<longleftrightarrow> False"
| "no_self (YieldReady k) \<longleftrightarrow> no_self k"
| "no_self (YieldHold k) \<longleftrightarrow> no_self k"

text \<open>
  The transitions of the system: a worker's step; another thread schedules a fiber that nobody
  holds, or a function; it makes a fiber; a worker is started; the scheduler is asked to stop.
\<close>

inductive sched_step :: "'a sys \<Rightarrow> 'a sys \<Rightarrow> bool" where
  st_worker: "i < length (ws s) \<Longrightarrow> worker_step i s = Inr s' \<Longrightarrow> sched_step s s'"
| st_fiber: "f < next_fiber s \<Longrightarrow> f \<notin># owned s \<Longrightarrow> fstate s f \<noteq> EXEC \<Longrightarrow>
     sched_step s (enqueue (task_of_fiber (Some f) thr) s)"
| st_func: "\<forall>b. g = Some b \<longrightarrow> no_self b \<Longrightarrow> sched_step s (enqueue (task_of_func g thr) s)"
| st_user: "no_self g \<Longrightarrow> sched_step s (user_fiber g s)"
| st_start: "sched_step s (s\<lparr>ws := ws s @ [worker_init tid]\<rparr>)"
| st_stop: "sched_step s (request_stop s)"

definition sys_init :: "'a sched \<Rightarrow> 'a sys" where
  "sys_init sd = \<lparr>sc = sd, ws = [], fstate = (\<lambda>_. INIT), fprog = (\<lambda>_. Throw), next_fiber = 0,
     done_events = []\<rparr>"

definition sched_fresh :: "'a sched \<Rightarrow> bool" where
  "sched_fresh sd \<longleftrightarrow> m_fibers sd = [] \<and> m_activeThreadCount sd = 0 \<and> m_idleThreadCount sd = 0"

inductive sched_reachable :: "'a sys \<Rightarrow> bool" where
  sr_init: "sched_fresh sd \<Longrightarrow> sched_reachable (sys_init sd)"
| sr_step: "sched_reachable s \<Longrightarrow> sched_step s s' \<Longrightarrow> sched_reachable s'"

section \<open>The invariant\<close>

definition task_ok :: "(nat \<Rightarrow> fiber_state) \<Rightarrow> 'a task \<Rightarrow> bool" where
  "task_ok st t \<longleftrightarrow> task_real t \<and> (\<forall>f. tk_fiber t = Some f \<longrightarrow> st f \<noteq> EXEC)"

fun pc_ok :: "(nat \<Rightarrow> fiber_state) \<Rightarrow> nat option \<Rightarrow> 'a wpc \<Rightarrow> bool" where
  "pc_ok st ff (W_got t) \<longleftrightarrow> task_ok st t"
| "pc_ok st ff (W_run f fn) \<longleftrightarrow> st f = EXEC \<and> (fn \<longrightarrow> ff = Some f)"
| "pc_ok st ff (W_back f fn) \<longleftrightarrow> st f \<in> {READY, HOLD, TERM_S, EXCEPT} \<and> (fn \<longrightarrow> ff = Some f)"
| "pc_ok st ff (W_post f fn) \<longleftrightarrow> st f \<in> {READY, HOLD, TERM_S, EXCEPT} \<and> (fn \<longrightarrow> ff = Some f)"
| "pc_ok st ff W_top \<longleftrightarrow> True"
| "pc_ok st ff W_idle \<longleftrightarrow> True"
| "pc_ok st ff W_exit \<longleftrightarrow> True"

fun uses_func_fiber :: "'a wpc \<Rightarrow> bool" where
  "uses_func_fiber (W_run f fn) = fn"
| "uses_func_fiber (W_back f fn) = fn"
| "uses_func_fiber (W_post f fn) = fn"
| "uses_func_fiber _ = False"

definition worker_ok :: "(nat \<Rightarrow> fiber_state) \<Rightarrow> 'a worker \<Rightarrow> bool" where
  "worker_ok st w \<longleftrightarrow> pc_ok st (w_func_fiber w) (w_pc w) \<and>
     (\<forall>f. w_func_fiber w = Some f \<longrightarrow> uses_func_fiber (w_pc w) \<or> st f = INIT)"

fun pc_active :: "'a wpc \<Rightarrow> int" where
  "pc_active (W_got t) = 1"
| "pc_active (W_run f fn) = 1"
| "pc_active (W_back f fn) = 1"
| "pc_active _ = 0"

fun pc_idle :: "'a wpc \<Rightarrow> int" where
  "pc_idle W_idle = 1"
| "pc_idle _ = 0"

definition own_inv :: "'a sys \<Rightarrow> bool" where
  "own_inv s \<longleftrightarrow>
     list_all (task_ok (fstate s)) (m_fibers (sc s)) \<and>
     (\<forall>i<length (ws s). worker_ok (fstate s) (ws s ! i)) \<and>
     (\<forall>f. count (owned s) f \<le> 1) \<and>
     (\<forall>f\<in>#owned s. f < next_fiber s) \<and>
     m_activeThreadCount (sc s) = sum_list (map (pc_active \<circ> w_pc) (ws s)) \<and>
     m_idleThreadCount (sc s) = sum_list (map (pc_idle \<circ> w_pc) (ws s))"

lemma task_ok_frame: "task_ok st t \<Longrightarrow> \<forall>f\<in>#task_own t. st' f = st f \<Longrightarrow> task_ok st' t"
  by (auto simp: task_ok_def task_own_def split: option.splits)

lemma pc_ok_frame:
  "pc_ok st ff pc \<Longrightarrow> \<forall>f\<in>#pc_own pc + (case ff of Some f \<Rightarrow> {#f#} | None \<Rightarrow> {#}). st' f = st f \<Longrightarrow>
     pc_ok st' ff pc"
  by (cases pc) (auto intro: task_ok_frame split: if_splits)

lemma worker_ok_frame:
  assumes "worker_ok st w" and same: "\<forall>f\<in>#worker_own w. st' f = st f"
  shows "worker_ok st' w"
  unfolding worker_ok_def
proof (intro conjI allI impI)
  show "pc_ok st' (w_func_fiber w) (w_pc w)"
    by (rule pc_ok_frame [of st]) (use assms in \<open>simp_all add: worker_ok_def worker_own_def\<close>)
  fix f
  assume f: "w_func_fiber w = Some f"
  then have "st' f = st f" using same by (simp add: worker_own_def)
  with f assms(1) show "uses_func_fiber (w_pc w) \<or> st' f = INIT" by (simp add: worker_ok_def)
qed

lemma task_own_queue: "t \<in> set q \<Longrightarrow> task_own t \<subseteq># queue_own q"
  by (induction q) (auto simp: queue_own_def subset_mset.add_increasing
      subset_mset.add_increasing2)

lemma queue_own_simps [simp]:
  "queue_own [] = {#}"
  "queue_own (t # q) = task_own t + queue_own q"
  "queue_own (p @ q) = queue_own p + queue_own q"
  by (simp_all add: queue_own_def)

lemma owned_disjoint:
  assumes "count (A + B) f \<le> 1" and "f \<in># A"
  shows "f \<notin># B"
proof
  assume "f \<in># B"
  then have "0 < count A f" "0 < count B f" using assms(2) by simp_all
  with assms(1) show False by simp
qed

text \<open>
  Only worker \<open>i\<close> changed, it changed the state of fibers it holds or of fresh ones, and what it
  and the queue hold together did not grow, but for a fresh fiber: the invariant is kept.
\<close>

lemma own_inv_update:
  assumes inv: "own_inv s" and i: "i < length (ws s)" and w: "ws s ! i = w"
    and ws': "ws s' = (ws s)[i := w']"
    and own: "queue_own (m_fibers (sc s')) + worker_own w' \<subseteq>#
        queue_own (m_fibers (sc s)) + worker_own w + extra"
    and extra: "extra = {#} \<and> next_fiber s' = next_fiber s \<or>
        extra = {#next_fiber s#} \<and> next_fiber s' = Suc (next_fiber s)"
    and changed: "\<And>f. fstate s' f \<noteq> fstate s f \<Longrightarrow> f \<in># worker_own w + extra"
    and q': "\<And>t. t \<in> set (m_fibers (sc s')) \<Longrightarrow> t \<notin> set (m_fibers (sc s)) \<Longrightarrow> task_ok (fstate s') t"
    and w': "worker_ok (fstate s') w'"
    and act: "m_activeThreadCount (sc s') =
        m_activeThreadCount (sc s) + pc_active (w_pc w') - pc_active (w_pc w)"
    and idl: "m_idleThreadCount (sc s') =
        m_idleThreadCount (sc s) + pc_idle (w_pc w') - pc_idle (w_pc w)"
  shows "own_inv s'"
proof -
  let ?W = "sum_list (map worker_own (ws s))"
  let ?q = "queue_own (m_fibers (sc s))"
  have wW: "worker_own w \<subseteq># ?W"
    using nth_le_sum_list_mset [OF i, of worker_own] w by simp
  then obtain R where R: "?W = worker_own w + R" by (metis subset_mset.le_iff_add)
  have upd: "sum_list (map worker_own (ws s')) = R + worker_own w'"
    using sum_list_map_update [OF i, of worker_own w'] w ws' R by (simp add: ac_simps)
  have eq: "owned s + extra = (worker_own w + extra) + (?q + R)"
    by (simp add: owned_def R ac_simps)
  have owned': "owned s' \<subseteq># owned s + extra"
    using subset_mset.add_right_mono [OF own, of R] by (simp add: owned_def upd R ac_simps)
  have cnt: "count (owned s) f \<le> 1" for f using inv by (simp add: own_inv_def)
  have fresh: "next_fiber s \<notin># owned s" using inv by (auto simp: own_inv_def)
  have cnt': "count (owned s + extra) f \<le> 1" for f
    using cnt [of f] extra fresh by (auto simp: not_in_iff)
  have bnd': "f < next_fiber s'" if "f \<in># owned s'" for f
    using mset_subset_eqD [OF owned' that] inv extra by (auto simp: own_inv_def less_Suc_eq)
  have other: "fstate s' f = fstate s f" if "f \<in># ?q + R" for f
  proof (rule ccontr)
    assume "fstate s' f \<noteq> fstate s f"
    then have f: "f \<in># worker_own w + extra" by (rule changed)
    with owned_disjoint [of "worker_own w + extra" "?q + R" f] cnt' [of f] that eq
    show False by simp
  qed
  have "task_ok (fstate s') t" if "t \<in> set (m_fibers (sc s'))" for t
  proof (cases "t \<in> set (m_fibers (sc s))")
    case True
    with inv have "task_ok (fstate s) t" by (auto simp: own_inv_def list_all_iff)
    then show ?thesis
      by (rule task_ok_frame) (use other mset_subset_eqD [OF task_own_queue [OF True]] in auto)
  qed (use q' that in blast)
  moreover have "worker_ok (fstate s') (ws s' ! j)" if "j < length (ws s')" for j
  proof (cases "j = i")
    case True
    with w' i ws' show ?thesis by simp
  next
    case False
    with that ws' have j: "j < length (ws s)" "ws s' ! j = ws s ! j" by simp_all
    have "worker_own (ws s ! j) \<subseteq># R"
      using two_nth_le_sum_list_mset [OF j(1) i False, of worker_own] w R
      by (simp add: add.commute)
    then have "\<forall>f\<in>#worker_own (ws s ! j). fstate s' f = fstate s f"
      using other by (auto dest: mset_subset_eqD)
    moreover have "worker_ok (fstate s) (ws s ! j)" using inv j(1) by (simp add: own_inv_def)
    ultimately show ?thesis using worker_ok_frame j(2) by metis
  qed
  moreover have "count (owned s') f \<le> 1" for f
    using cnt' [of f] mset_subset_eq_count [OF owned', of f] by linarith
  moreover have "m_activeThreadCount (sc s') = sum_list (map (pc_active \<circ> w_pc) (ws s'))"
    using sum_list_map_update [OF i, of "pc_active \<circ> w_pc" w'] act inv ws' w by (simp add: own_inv_def)
  moreover have "m_idleThreadCount (sc s') = sum_list (map (pc_idle \<circ> w_pc) (ws s'))"
    using sum_list_map_update [OF i, of "pc_idle \<circ> w_pc" w'] idl inv ws' w by (simp add: own_inv_def)
  ultimately show ?thesis
    unfolding own_inv_def using bnd' by (auto simp: list_all_iff)
qed

section \<open>Every step keeps the invariant\<close>

lemma set_worker_sel [simp]:
  "ws (set_worker i w s) = (ws s)[i := w]" "sc (set_worker i w s) = sc s"
  "fstate (set_worker i w s) = fstate s" "fprog (set_worker i w s) = fprog s"
  "next_fiber (set_worker i w s) = next_fiber s"
  by (simp_all add: set_worker_def)

lemma set_fiber_sel [simp]:
  "ws (set_fiber f st b s) = ws s" "sc (set_fiber f st b s) = sc s"
  "fstate (set_fiber f st b s) = (fstate s)(f := st)"
  "fprog (set_fiber f st b s) = (fprog s)(f := b)"
  "next_fiber (set_fiber f st b s) = next_fiber s"
  by (simp_all add: set_fiber_def)

lemma enqueue_sel [simp]:
  "ws (enqueue t s) = ws s" "fstate (enqueue t s) = fstate s" "fprog (enqueue t s) = fprog s"
  "next_fiber (enqueue t s) = next_fiber s"
  "m_fibers (sc (enqueue t s)) = push_task t (m_fibers (sc s))"
  "m_activeThreadCount (sc (enqueue t s)) = m_activeThreadCount (sc s)"
  "m_idleThreadCount (sc (enqueue t s)) = m_idleThreadCount (sc s)"
  by (simp_all add: enqueue_def schedule_def push_task_def split: prod.splits)

lemma add_active_sel [simp]:
  "ws (add_active d s) = ws s" "fstate (add_active d s) = fstate s"
  "fprog (add_active d s) = fprog s" "next_fiber (add_active d s) = next_fiber s"
  "m_fibers (sc (add_active d s)) = m_fibers (sc s)"
  "m_activeThreadCount (sc (add_active d s)) = m_activeThreadCount (sc s) + d"
  "m_idleThreadCount (sc (add_active d s)) = m_idleThreadCount (sc s)"
  by (simp_all add: add_active_def)

lemma add_idle_sel [simp]:
  "ws (add_idle d s) = ws s" "fstate (add_idle d s) = fstate s"
  "fprog (add_idle d s) = fprog s" "next_fiber (add_idle d s) = next_fiber s"
  "m_fibers (sc (add_idle d s)) = m_fibers (sc s)"
  "m_activeThreadCount (sc (add_idle d s)) = m_activeThreadCount (sc s)"
  "m_idleThreadCount (sc (add_idle d s)) = m_idleThreadCount (sc s) + d"
  by (simp_all add: add_idle_def)

lemma queue_own_push [simp]:
  "queue_own (push_task t q) = queue_own q + task_own t"
  by (auto simp: push_task_eq task_own_def task_real_def split: option.splits)

lemma task_own_simps [simp]:
  "task_own (task_of_fiber (Some f) thr) = {#f#}"
  "task_own (task_of_func g thr) = {#}"
  by (simp_all add: task_own_def task_of_fiber_def task_of_func_def)

lemma set_push_task: "set (push_task t q) \<subseteq> insert t (set q)"
  by (auto simp: push_task_eq)

lemma own_invD:
  assumes "own_inv s" and "i < length (ws s)"
  shows "worker_ok (fstate s) (ws s ! i)" and "list_all (task_ok (fstate s)) (m_fibers (sc s))"
  using assms by (auto simp: own_inv_def)

lemma task_ok_real: "list_all (task_ok st) q \<Longrightarrow> list_all task_real q"
  by (auto simp: list_all_iff task_ok_def)

lemma step_top_inv:
  assumes inv: "own_inv s" and i: "i < length (ws s)" and w: "ws s ! i = w" and pc: "w_pc w = W_top"
  shows "\<exists>s'. step_top i w s = Inr s' \<and> own_inv s'"
proof -
  note ok = own_invD [OF inv i]
  have ff: "\<And>f. w_func_fiber w = Some f \<Longrightarrow> fstate s f = INIT"
    using ok(1) w pc by (simp add: worker_ok_def)
  from pick_task_split [OF task_ok_real [OF ok(2)], of "fstate s" "w_tid w"]
  show ?thesis
  proof (elim disjE exE conjE)
    fix xs t ys
    assume q: "m_fibers (sc s) = xs @ t # ys" and
      pick: "pick_task (fstate s) (w_tid w) (m_fibers (sc s)) =
        Inr ((\<exists>x\<in>set xs. tk_thread x \<noteq> -1 \<and> tk_thread x \<noteq> w_tid w) \<or> ys \<noteq> [], Some t, xs @ ys)"
    let ?s' = "add_active 1 (set_worker i (w\<lparr>w_pc := W_got t\<rparr>) (s\<lparr>sc := (sc s)\<lparr>m_fibers := xs @ ys\<rparr>\<rparr>))"
    have "own_inv ?s'"
      by (rule own_inv_update [OF inv i w, where w' = "w\<lparr>w_pc := W_got t\<rparr>" and extra = "{#}"])
        (use ok ff q pc in \<open>auto simp: worker_own_def worker_ok_def\<close>)
    with pick show ?thesis by (simp add: step_top_def)
  next
    assume pick: "pick_task (fstate s) (w_tid w) (m_fibers (sc s)) =
        Inr (\<exists>x\<in>set (m_fibers (sc s)). tk_thread x \<noteq> -1 \<and> tk_thread x \<noteq> w_tid w, None, m_fibers (sc s))"
    have "own_inv (set_worker i (w\<lparr>w_pc := W_exit\<rparr>) s)"
      by (rule own_inv_update [OF inv i w, where w' = "w\<lparr>w_pc := W_exit\<rparr>" and extra = "{#}"])
        (use ok ff pc in \<open>auto simp: worker_own_def worker_ok_def\<close>)
    moreover have "own_inv (add_idle 1 (set_worker i (w\<lparr>w_pc := W_idle\<rparr>) s))"
      by (rule own_inv_update [OF inv i w, where w' = "w\<lparr>w_pc := W_idle\<rparr>" and extra = "{#}"])
        (use ok ff pc in \<open>auto simp: worker_own_def worker_ok_def\<close>)
    ultimately show ?thesis using pick by (simp add: step_top_def)
  qed
qed

lemma step_func_inv:
  assumes inv: "own_inv s" and i: "i < length (ws s)" and w: "ws s ! i = w"
    and pc: "w_pc w = W_got t" and g: "tk_func t = Some g"
  shows "\<exists>s'. (case w_func_fiber w of
       Some f \<Rightarrow> lionet_assert (fstate s f \<in> {TERM_S, EXCEPT, INIT})
          (Inr (set_fiber f EXEC g (set_worker i (w\<lparr>w_pc := W_run f True\<rparr>) s)))
     | None \<Rightarrow>
         (let f = next_fiber s
          in Inr (set_fiber f EXEC g
               (set_worker i (w\<lparr>w_pc := W_run f True, w_func_fiber := Some f\<rparr>)
                 (s\<lparr>next_fiber := Suc f\<rparr>))))) = Inr s' \<and> own_inv s'"
proof -
  note ok = own_invD [OF inv i]
  have t: "task_ok (fstate s) t" using ok(1) w pc by (simp add: worker_ok_def)
  show ?thesis
  proof (cases "w_func_fiber w")
    case (Some f)
    then have "fstate s f = INIT" using ok(1) w pc by (simp add: worker_ok_def)
    moreover have "own_inv (set_fiber f EXEC g (set_worker i (w\<lparr>w_pc := W_run f True\<rparr>) s))"
      by (rule own_inv_update [OF inv i w, where w' = "w\<lparr>w_pc := W_run f True\<rparr>" and extra = "{#}"])
        (use ok Some t g pc in \<open>auto simp: worker_own_def worker_ok_def task_ok_def split: if_splits\<close>)
    ultimately show ?thesis using Some by simp
  next
    case None
    let ?f = "next_fiber s" and ?w' = "w\<lparr>w_pc := W_run (next_fiber s) True, w_func_fiber := Some (next_fiber s)\<rparr>"
    have "own_inv (set_fiber ?f EXEC g (set_worker i ?w' (s\<lparr>next_fiber := Suc ?f\<rparr>)))"
      by (rule own_inv_update [OF inv i w, where w' = ?w' and extra = "{#?f#}"])
        (use ok None t g pc in \<open>auto simp: worker_own_def worker_ok_def task_ok_def split: if_splits\<close>)
    with None show ?thesis by (simp add: Let_def)
  qed
qed

lemma step_got_inv:
  assumes inv: "own_inv s" and i: "i < length (ws s)" and w: "ws s ! i = w" and pc: "w_pc w = W_got t"
  shows "\<exists>s'. step_got i w t s = Inr s' \<and> own_inv s'"
proof -
  note ok = own_invD [OF inv i]
  have ff: "\<And>f. w_func_fiber w = Some f \<Longrightarrow> fstate s f = INIT"
    using ok(1) w pc by (simp add: worker_ok_def)
  have drop: "own_inv (add_active (-1) (set_worker i (w\<lparr>w_pc := W_top\<rparr>) s))"
    by (rule own_inv_update [OF inv i w, where w' = "w\<lparr>w_pc := W_top\<rparr>" and extra = "{#}"])
      (use ok ff pc in \<open>auto simp: worker_own_def worker_ok_def\<close>)
  show ?thesis
  proof (cases "\<exists>f. tk_fiber t = Some f \<and> fstate s f \<noteq> TERM_S \<and> fstate s f \<noteq> EXCEPT")
    case True
    then obtain f where f: "tk_fiber t = Some f" "fstate s f \<noteq> TERM_S" "fstate s f \<noteq> EXCEPT" by blast
    have not_ff: "w_func_fiber w \<noteq> Some f"
    proof
      assume "w_func_fiber w = Some f"
      then have "count (worker_own w) f = 2"
        using f pc by (simp add: worker_own_def task_own_def)
      moreover have "worker_own w \<subseteq># owned s"
        using nth_le_sum_list_mset [OF i, of worker_own] w
        by (simp add: owned_def subset_mset.add_increasing)
      ultimately have "2 \<le> count (owned s) f" by (metis mset_subset_eq_count)
      moreover have "count (owned s) f \<le> 1" using inv by (simp add: own_inv_def)
      ultimately show False by simp
    qed
    have "own_inv (set_fiber f EXEC (fprog s f) (set_worker i (w\<lparr>w_pc := W_run f False\<rparr>) s))"
      by (rule own_inv_update [OF inv i w, where w' = "w\<lparr>w_pc := W_run f False\<rparr>" and extra = "{#}"])
        (use ok ff f not_ff pc in \<open>auto simp: worker_own_def worker_ok_def task_own_def split: if_splits\<close>)
    with f show ?thesis by (simp add: step_got_def)
  next
    case False
    show ?thesis
    proof (cases "tk_func t")
      case None
      with False drop show ?thesis by (auto simp: step_got_def Let_def split: option.splits)
    next
      case (Some g)
      with step_func_inv [OF inv i w pc Some] False show ?thesis
        by (auto simp: step_got_def Let_def split: option.splits)
    qed
  qed
qed

lemma step_run_inv:
  assumes inv: "own_inv s" and i: "i < length (ws s)" and w: "ws s ! i = w" and pc: "w_pc w = W_run f fn"
    and self: "\<And>thr k. fprog s f \<noteq> ScheduleSelf thr k"
  shows "own_inv (step_run i w f fn s)"
proof -
  note ok = own_invD [OF inv i]
  have st: "fstate s f = EXEC" "fn \<Longrightarrow> w_func_fiber w = Some f"
    using ok(1) w pc by (simp_all add: worker_ok_def)
  have ff: "\<And>g. w_func_fiber w = Some g \<Longrightarrow> fn \<or> fstate s g = INIT"
    using ok(1) w pc by (simp add: worker_ok_def)
  have leave: "own_inv (set_worker i (w\<lparr>w_pc := W_back f fn\<rparr>) (set_fiber f st b s))"
    if "st \<in> {READY, HOLD, TERM_S, EXCEPT}" for st b
    by (rule own_inv_update [OF inv i w, where w' = "w\<lparr>w_pc := W_back f fn\<rparr>" and extra = "{#}"])
      (use that ok ff st pc in \<open>auto simp: worker_own_def worker_ok_def split: if_splits\<close>)
  have same: "ws s = (ws s)[i := w]" using w i by (metis list_update_id)
  have stay: "own_inv s'" if "ws s' = ws s" "m_fibers (sc s') = push_task (task_of_func g thr) (m_fibers (sc s)) \<or>
      m_fibers (sc s') = m_fibers (sc s)" "fstate s' = fstate s" "next_fiber s' = next_fiber s"
      "m_activeThreadCount (sc s') = m_activeThreadCount (sc s)"
      "m_idleThreadCount (sc s') = m_idleThreadCount (sc s)" for s' :: "'a sys" and g thr
    by (rule own_inv_update [OF inv i w, where w' = w and extra = "{#}"])
      (use that ok w same set_push_task [of "task_of_func g thr" "m_fibers (sc s)"] in
        \<open>auto simp: push_task_eq task_ok_def task_of_func_def task_own_def split: if_splits\<close>)
  have exec: "(fstate s)(f := EXEC) = fstate s" using st by auto
  show ?thesis
  proof (cases "fprog s f")
    case (Act a k)
    with exec show ?thesis by (auto simp: step_run_def intro!: stay [where g = None])
  next
    case (Spawn g thr k)
    with exec show ?thesis
      by (auto simp: step_run_def Let_def intro!: stay [where g = "Some g" and thr = thr])
  qed (use self leave in \<open>simp_all add: step_run_def Let_def\<close>)
qed

lemma step_back_inv:
  assumes inv: "own_inv s" and i: "i < length (ws s)" and w: "ws s ! i = w" and pc: "w_pc w = W_back f fn"
  shows "own_inv (add_active (-1) (set_worker i (w\<lparr>w_pc := W_post f fn\<rparr>) s))"
  by (rule own_inv_update [OF inv i w, where w' = "w\<lparr>w_pc := W_post f fn\<rparr>" and extra = "{#}"])
    (use own_invD [OF inv i] w pc in \<open>auto simp: worker_own_def worker_ok_def split: if_splits\<close>)

lemma step_post_inv:
  assumes inv: "own_inv s" and i: "i < length (ws s)" and w: "ws s ! i = w" and pc: "w_pc w = W_post f fn"
  shows "\<exists>s'. step_post i w f fn s = Inr s' \<and> own_inv s'"
proof -
  note ok = own_invD [OF inv i]
  have st: "fstate s f \<in> {READY, HOLD, TERM_S, EXCEPT}" "fn \<Longrightarrow> w_func_fiber w = Some f"
    using ok(1) w pc by (simp_all add: worker_ok_def)
  have ff: "\<And>g. w_func_fiber w = Some g \<Longrightarrow> fn \<or> fstate s g = INIT"
    using ok(1) w pc by (simp add: worker_ok_def)
  show ?thesis
  proof (cases "fstate s f \<in> {READY, HOLD}")
    case True
    let ?w' = "w\<lparr>w_pc := W_top, w_func_fiber := (if fn then None else w_func_fiber w)\<rparr>"
    have "own_inv (set_worker i ?w' (enqueue (task_of_fiber (Some f) (-1)) s))"
      by (rule own_inv_update [OF inv i w, where w' = ?w' and extra = "{#}"])
        (use True ok ff st pc set_push_task [of "task_of_fiber (Some f) (-1)" "m_fibers (sc s)"] in
          \<open>auto simp: worker_own_def worker_ok_def task_ok_def task_real_def task_of_fiber_def push_task_eq task_own_def
            split: if_splits option.splits\<close>)
    with True show ?thesis by (cases w) (auto simp: step_post_def Let_def)
  next
    case False
    show ?thesis
    proof (cases fn)
      case True
      have "own_inv (set_worker i (w\<lparr>w_pc := W_top\<rparr>) (set_fiber f INIT Throw s))"
        by (rule own_inv_update [OF inv i w, where w' = "w\<lparr>w_pc := W_top\<rparr>" and extra = "{#}"])
          (use True ok ff st pc in \<open>auto simp: worker_own_def worker_ok_def split: if_splits\<close>)
      with True False st(1) show ?thesis by (auto simp: step_post_def Let_def)
    next
      case fn: False
      have "own_inv (set_worker i (w\<lparr>w_pc := W_top\<rparr>) s)"
        by (rule own_inv_update [OF inv i w, where w' = "w\<lparr>w_pc := W_top\<rparr>" and extra = "{#}"])
          (use fn ok ff st pc in \<open>auto simp: worker_own_def worker_ok_def split: if_splits\<close>)
      with fn False st(1) show ?thesis by (auto simp: step_post_def Let_def)
    qed
  qed
qed

lemma step_idle_inv:
  assumes inv: "own_inv s" and i: "i < length (ws s)" and w: "ws s ! i = w" and pc: "w_pc w = W_idle"
  shows "own_inv (step_idle i w s)"
  unfolding step_idle_def
  by (rule own_inv_update [OF inv i w, where extra = "{#}" and
        w' = "w\<lparr>w_pc := W_top, w_idle_state := (if stopping (sc s) then TERM_S else HOLD)\<rparr>"])
    (use own_invD [OF inv i] w pc in \<open>auto simp: worker_own_def worker_ok_def split: if_splits\<close>)

text \<open>The next step of worker \<open>i\<close> schedules the fiber that it runs.\<close>

definition schedules_self :: "nat \<Rightarrow> 'a sys \<Rightarrow> bool" where
  "schedules_self i s \<longleftrightarrow> (case w_pc (ws s ! i) of
       W_run f fn \<Rightarrow> (case fprog s f of ScheduleSelf thr k \<Rightarrow> True | _ \<Rightarrow> False)
     | _ \<Rightarrow> False)"

lemma step_own_inv:
  assumes inv: "own_inv s" and i: "i < length (ws s)" and self: "\<not> schedules_self i s"
  shows "\<exists>s'. worker_step i s = Inr s' \<and> own_inv s'"
proof (cases "w_pc (ws s ! i)")
  case (W_run f fn)
  then have "fprog s f \<noteq> ScheduleSelf thr k" for thr k using self by (auto simp: schedules_self_def)
  with step_run_inv [OF inv i refl W_run] W_run show ?thesis by (simp add: worker_step_def)
qed (use inv step_top_inv [OF inv i refl] step_got_inv [OF inv i refl] step_back_inv [OF inv i refl]
    step_post_inv [OF inv i refl] step_idle_inv [OF inv i refl] in \<open>simp_all add: worker_step_def Let_def\<close>)

lemma worker_ok_mono:
  "own_inv s \<Longrightarrow> i < length (ws s) \<Longrightarrow> \<forall>f<next_fiber s. st' f = fstate s f \<Longrightarrow>
     worker_ok st' (ws s ! i)"
proof -
  assume inv: "own_inv s" and i: "i < length (ws s)" and eq: "\<forall>f<next_fiber s. st' f = fstate s f"
  have "worker_own (ws s ! i) \<subseteq># owned s"
    using nth_le_sum_list_mset [OF i, of worker_own] by (simp add: owned_def subset_mset.add_increasing)
  with inv eq have "\<forall>f\<in>#worker_own (ws s ! i). st' f = fstate s f"
    by (auto simp: own_inv_def dest: mset_subset_eqD)
  with own_invD(1) [OF inv i] show ?thesis by (rule worker_ok_frame)
qed

lemma user_fiber_inv:
  assumes inv: "own_inv s"
  shows "own_inv (user_fiber g s)"
proof -
  let ?s = "user_fiber g s"
  have sel: "sc ?s = sc s" "ws ?s = ws s" "next_fiber ?s = Suc (next_fiber s)" by (simp_all add: user_fiber_def)
  have own: "owned ?s = owned s" by (simp add: owned_def sel)
  have st: "\<forall>f<next_fiber s. fstate ?s f = fstate s f" by (simp add: user_fiber_def)
  have bnd: "\<forall>f\<in>#owned s. f < next_fiber s" using inv by (simp add: own_inv_def)
  have q: "task_ok (fstate ?s) t" if "t \<in> set (m_fibers (sc s))" for t
  proof (rule task_ok_frame)
    show "task_ok (fstate s) t" using inv that by (simp add: own_inv_def list_all_iff)
    have "task_own t \<subseteq># owned s"
      using task_own_queue [OF that] by (simp add: owned_def subset_mset.add_increasing2)
    with bnd st show "\<forall>f\<in>#task_own t. fstate ?s f = fstate s f" by (meson mset_subset_eqD)
  qed
  have w: "\<forall>i<length (ws s). worker_ok (fstate ?s) (ws s ! i)"
    using worker_ok_mono [OF inv _ st] by blast
  have "list_all (task_ok (fstate ?s)) (m_fibers (sc s))" using q by (simp add: list_all_iff)
  then show ?thesis using inv w bnd own unfolding own_inv_def sel
    by (simp add: less_SucI)
qed

lemma enqueue_inv:
  assumes inv: "own_inv s" and "task_real t \<Longrightarrow> task_ok (fstate s) t"
    and "\<And>f. f \<in># task_own t \<Longrightarrow> f < next_fiber s \<and> f \<notin># owned s"
  shows "own_inv (enqueue t s)"
proof -
  have own: "owned (enqueue t s) = owned s + task_own t" by (simp add: owned_def)
  have one: "count (task_own t) f \<le> 1" for f by (simp add: task_own_def split: option.splits)
  have "count (owned s + task_own t) f \<le> 1" for f
  proof (cases "f \<in># task_own t")
    case True
    with assms(3) [OF True] one [of f] show ?thesis by (simp add: not_in_iff)
  next
    case False
    with inv show ?thesis by (simp add: not_in_iff own_inv_def)
  qed
  with inv own assms(2,3) show ?thesis
    unfolding own_inv_def by (auto simp: list_all_iff push_task_eq split: if_splits)
qed

lemma worker_init_ok: "worker_ok st (worker_init tid)" "worker_own (worker_init tid) = {#}"
  "w_pc (worker_init tid) = W_top"
  by (simp_all add: worker_init_def worker_ok_def worker_own_def)

lemma start_own_inv: "own_inv s \<Longrightarrow> own_inv (s\<lparr>ws := ws s @ [worker_init tid]\<rparr>)"
  by (auto simp: own_inv_def owned_def nth_append worker_init_ok)

lemma stop_own_inv: "own_inv s \<Longrightarrow> own_inv (request_stop s)"
  by (simp add: own_inv_def owned_def request_stop_def)

lemma init_own_inv: "sched_fresh sd \<Longrightarrow> own_inv (sys_init sd)"
  by (simp add: own_inv_def sys_init_def sched_fresh_def owned_def)

text \<open>The second half of the invariant of \<open>sched_step\<close>: no function about schedules its own fiber.\<close>

definition plain_task :: "'a task \<Rightarrow> bool" where
  "plain_task t \<longleftrightarrow> (\<forall>g. tk_func t = Some g \<longrightarrow> no_self g)"

definition self_free :: "'a sys \<Rightarrow> bool" where
  "self_free s \<longleftrightarrow> (\<forall>f. no_self (fprog s f)) \<and> (\<forall>t\<in>set (m_fibers (sc s)). plain_task t) \<and>
     (\<forall>w\<in>set (ws s). \<forall>t. w_pc w = W_got t \<longrightarrow> plain_task t)"

definition sys_inv :: "'a sys \<Rightarrow> bool" where
  "sys_inv s \<longleftrightarrow> own_inv s \<and> self_free s"

lemmas sys_inv_unfold = sys_inv_def own_inv_def

lemma sys_inv_own: "sys_inv s \<Longrightarrow> own_inv s"
  by (simp add: sys_inv_def)

lemma sys_invD:
  assumes "sys_inv s" and "i < length (ws s)"
  shows "worker_ok (fstate s) (ws s ! i)" and "list_all (task_ok (fstate s)) (m_fibers (sc s))"
    and "\<And>f. no_self (fprog s f)"
  using assms by (auto simp: sys_inv_unfold self_free_def)

lemma pick_task_set: "pick_task st tid q = Inr (b, ft, q') \<Longrightarrow> set q' \<subseteq> set q \<and> set_option ft \<subseteq> set q"
  by (induction q arbitrary: b ft q') (fastforce simp: lionet_assert_def res_bind_Inr_iff split: if_splits option.splits)+

lemma self_free_update:
  assumes "self_free s" and "ws s' = (ws s)[i := w']" and "\<And>f. no_self (fprog s' f)"
    and "\<And>t. t \<in> set (m_fibers (sc s')) \<Longrightarrow> t \<in> set (m_fibers (sc s)) \<or> plain_task t"
    and "\<And>t. w_pc w' = W_got t \<Longrightarrow> plain_task t"
  shows "self_free s'"
proof -
  have "plain_task t" if "w \<in> set (ws s')" "w_pc w = W_got t" for w t
    using that set_update_subset_insert [of "ws s" i w'] assms(1,2,5) by (auto simp: self_free_def)
  with assms(1,3,4) show ?thesis unfolding self_free_def by blast
qed

lemma plain_task_of: "plain_task (task_of_fiber f thr)" "plain_task (task_of_func g thr) \<longleftrightarrow> (\<forall>b. g = Some b \<longrightarrow> no_self b)"
  by (simp_all add: plain_task_def task_of_fiber_def task_of_func_def)

lemma self_free_step:
  assumes "self_free s" and i: "i < length (ws s)" and step: "worker_step i s = Inr s'"
  shows "self_free s'"
proof -
  let ?w = "ws s ! i"
  have ns: "\<And>f. no_self (fprog s f)" and q: "\<And>t. t \<in> set (m_fibers (sc s)) \<Longrightarrow> plain_task t"
    and got: "\<And>t. w_pc ?w = W_got t \<Longrightarrow> plain_task t"
    using assms(1) i by (auto simp: self_free_def)
  have throw: "no_self Throw" by simp
  show ?thesis
  proof (cases "w_pc ?w")
    case W_top
    with step obtain b ft q' where p: "pick_task (fstate s) (w_tid ?w) (m_fibers (sc s)) = Inr (b, ft, q')"
      by (auto simp: worker_step_def step_top_def res_bind_Inr_iff Let_def)
    from pick_task_set [OF p] step W_top p q show ?thesis
      by (cases ft) (auto simp: worker_step_def step_top_def Let_def ns split: if_splits
        intro!: self_free_update [OF assms(1)])
  next
    case (W_got t)
    with step got [OF W_got] show ?thesis
      by (auto simp: worker_step_def step_got_def Let_def lionet_assert_def ns plain_task_def split: option.splits if_splits
        intro!: self_free_update [OF assms(1)])
  next
    case (W_run f fn)
    then have "s' = step_run i ?w f fn s" using step by (simp add: worker_step_def)
    moreover have "ws s = (ws s)[i := ?w]" by (simp add: list_update_id)
    note stay = self_free_update [OF assms(1), where i = i and w' = ?w, folded this]
    moreover note leave = self_free_update [OF assms(1), where i = i and w' = "?w\<lparr>w_pc := W_back f fn\<rparr>"]
    ultimately show ?thesis
    proof (cases "fprog s f")
      case (Act a k)
      then show ?thesis using \<open>s' = step_run i ?w f fn s\<close> ns [of f] by (auto simp: step_run_def Let_def ns got intro!: stay)
    next
      case (Spawn g thr k)
      then show ?thesis using \<open>s' = step_run i ?w f fn s\<close> ns [of f]
        by (auto simp: step_run_def Let_def ns push_task_eq plain_task_of got split: if_splits intro!: stay)
    qed (use ns [of f] in \<open>auto simp: step_run_def Let_def ns intro!: leave\<close>)
  next
    case (W_post f fn)
    with step show ?thesis
      by (auto simp: worker_step_def step_post_def Let_def lionet_assert_def ns push_task_eq plain_task_of throw
        split: if_splits intro!: self_free_update [OF assms(1)])
  qed (use step assms(1) in \<open>auto simp: worker_step_def step_idle_def Let_def ns intro!: self_free_update [OF assms(1)]\<close>)
qed

lemma self_free_not_self: "self_free s \<Longrightarrow> \<not> schedules_self i s"
  by (auto simp: self_free_def schedules_self_def split: wpc.splits coro.splits) (metis no_self.simps(5))

lemma worker_step_inv:
  assumes "sys_inv s" and "i < length (ws s)"
  shows "\<exists>s'. worker_step i s = Inr s' \<and> sys_inv s'"
  using step_own_inv [OF _ assms(2)] self_free_step [OF _ assms(2)] self_free_not_self assms(1)
  unfolding sys_inv_def by blast

lemma self_free_other:
  assumes "self_free s"
  shows "plain_task t \<Longrightarrow> self_free (enqueue t s)" and "no_self g \<Longrightarrow> self_free (user_fiber g s)"
    and "self_free (s\<lparr>ws := ws s @ [worker_init tid]\<rparr>)" and "self_free (request_stop s)"
  using assms by (auto simp: self_free_def push_task_eq user_fiber_def request_stop_def worker_init_ok split: if_splits)

lemma free_fiber_inv:
  assumes "own_inv s" and "f < next_fiber s" and "f \<notin># owned s" and "fstate s f \<noteq> EXEC"
  shows "own_inv (enqueue (task_of_fiber (Some f) thr) s)"
  by (rule enqueue_inv [OF assms(1)]) (use assms in \<open>auto simp: task_ok_def task_real_def task_of_fiber_def task_own_def\<close>)

lemma func_inv: "own_inv s \<Longrightarrow> own_inv (enqueue (task_of_func g thr) s)"
  by (rule enqueue_inv) (auto simp: task_ok_def task_of_func_def task_own_def)

lemma sched_step_inv: "sched_step s s' \<Longrightarrow> sys_inv s \<Longrightarrow> sys_inv s'"
proof (induction rule: sched_step.induct)
  case (st_worker i s s')
  with worker_step_inv [of s i] show ?case by auto
qed (simp_all add: sys_inv_def free_fiber_inv func_inv user_fiber_inv start_own_inv stop_own_inv self_free_other
    plain_task_of)

lemma sched_reachable_inv: "sched_reachable s \<Longrightarrow> sys_inv s"
proof (induction rule: sched_reachable.induct)
  case (sr_init sd)
  then show ?case
    using init_own_inv by (auto simp: sys_inv_def self_free_def sys_init_def sched_fresh_def)
next
  case (sr_step s s')
  then show ?case by (auto intro: sched_step_inv)
qed

section \<open>Runs\<close>

text \<open>The workers in the order of a given interleaving.\<close>

fun run_steps :: "nat list \<Rightarrow> 'a sys \<Rightarrow> 'a sys res" where
  "run_steps [] s = Inr s"
| "run_steps (i # is) s = res_bind (worker_step i s) (run_steps is)"

lemma run_steps_append: "run_steps (is @ js) s = res_bind (run_steps is s) (run_steps js)"
  by (induction "is" arbitrary: s) (auto simp: res_bind_def split: sum.splits)

lemma worker_step_ws_length: "worker_step i s = Inr s' \<Longrightarrow> length (ws s') = length (ws s)"
  by (auto simp: worker_step_def Let_def step_top_def step_got_def step_run_def step_post_def
      step_idle_def res_bind_Inr_iff set_worker_def set_fiber_def add_active_def add_idle_def
      enqueue_def split: wpc.splits option.splits if_splits coro.splits)

lemma run_steps_inv:
  "sys_inv s \<Longrightarrow> set is \<subseteq> {..<length (ws s)} \<Longrightarrow> \<exists>s'. run_steps is s = Inr s' \<and> sys_inv s'"
proof (induction "is" arbitrary: s)
  case (Cons i js)
  then obtain s1 where s1: "worker_step i s = Inr s1" "sys_inv s1"
    using worker_step_inv [of s i] by auto
  with Cons worker_step_ws_length [OF s1(1)] show ?case by auto
qed simp

text \<open>The fiber a worker is switched to, is about to leave or has just left.\<close>

fun pc_fiber :: "'a wpc \<Rightarrow> nat option" where
  "pc_fiber (W_run f fn) = Some f"
| "pc_fiber (W_back f fn) = Some f"
| "pc_fiber (W_post f fn) = Some f"
| "pc_fiber _ = None"

lemma pc_fiber_owned:
  "worker_ok st w \<Longrightarrow> pc_fiber (w_pc w) = Some f \<Longrightarrow> f \<in># worker_own w"
  by (cases "w_pc w") (auto simp: worker_ok_def worker_own_def split: if_splits)

lemma worker_owned: "i < length (ws s) \<Longrightarrow> worker_own (ws s ! i) \<subseteq># owned s"
  using nth_le_sum_list_mset [of i "ws s" worker_own] by (simp add: owned_def subset_mset.add_increasing)

lemma two_workers_owned:
  assumes "i < length (ws s)" "j < length (ws s)" "i \<noteq> j"
  shows "worker_own (ws s ! i) + worker_own (ws s ! j) \<subseteq># owned s"
  using two_nth_le_sum_list_mset [OF assms, of worker_own]
  by (simp add: owned_def subset_mset.add_increasing)

lemma worker_queue_owned:
  assumes "i < length (ws s)"
  shows "queue_own (m_fibers (sc s)) + worker_own (ws s ! i) \<subseteq># owned s"
  using nth_le_sum_list_mset [OF assms, of worker_own]
  by (simp add: owned_def)

lemma own_once:
  assumes "own_inv s" and "A + B \<subseteq># owned s" and "f \<in># A"
  shows "f \<notin># B"
proof -
  have "count (A + B) f \<le> count (owned s) f" by (rule mset_subset_eq_count [OF assms(2)])
  also have "\<dots> \<le> 1" using assms(1) by (simp add: own_inv_def)
  finally show ?thesis by (rule owned_disjoint) (rule assms(3))
qed

lemmas owned_once = own_once [OF sys_inv_own]

lemma sum_list_indicator:
  "sum_list (map (\<lambda>x. if P x then 1 else 0) xs) = int (length (filter P xs))"
  by (induction xs) auto

lemma pc_active_indicator:
  "pc_active pc = (if (\<exists>t. pc = W_got t) \<or> (\<exists>f fn. pc = W_run f fn \<or> pc = W_back f fn) then 1 else 0)"
  by (cases pc) auto

lemma pc_idle_indicator: "pc_idle pc = (if pc = W_idle then 1 else 0)"
  by (cases pc) auto

lemma count_tasks: "count (mset (List.map_filter tk_fiber q)) f = count (queue_own q) f"
  by (induction q) (auto simp: List.map_filter_simps task_own_def split: option.splits)

lemma run_steps_reachable:
  "sched_reachable s \<Longrightarrow> set is \<subseteq> {..<length (ws s)} \<Longrightarrow> run_steps is s = Inr s' \<Longrightarrow> sched_reachable s'"
proof (induction "is" arbitrary: s)
  case (Cons i js)
  then obtain s1 where s1: "worker_step i s = Inr s1" "run_steps js s1 = Inr s'" by auto
  with Cons worker_step_ws_length [OF s1(1)] sr_step [OF Cons.prems(1) st_worker [OF _ s1(1)]]
  show ?case by simp
qed simp

section \<open>Programs that may schedule any fiber\<close>

text \<open>
  The same transitions for all programs: functions may schedule their own fiber, as \<open>switchTo\<close> does, and other threads
  may schedule any fiber there is. \<open>h\<close> tells if that has happened to a fiber that was held or executing.
\<close>

inductive sched_any :: "bool \<Rightarrow> 'a sys \<Rightarrow> bool" where
  sa_init: "sched_fresh sd \<Longrightarrow> sched_any False (sys_init sd)"
| sa_worker: "sched_any h s \<Longrightarrow> i < length (ws s) \<Longrightarrow> worker_step i s = Inr s' \<Longrightarrow>
     sched_any (h \<or> schedules_self i s) s'"
| sa_fiber: "sched_any h s \<Longrightarrow> f < next_fiber s \<Longrightarrow>
     sched_any (h \<or> f \<in># owned s \<or> fstate s f = EXEC) (enqueue (task_of_fiber (Some f) thr) s)"
| sa_func: "sched_any h s \<Longrightarrow> sched_any h (enqueue (task_of_func g thr) s)"
| sa_user: "sched_any h s \<Longrightarrow> sched_any h (user_fiber g s)"
| sa_start: "sched_any h s \<Longrightarrow> sched_any h (s\<lparr>ws := ws s @ [worker_init tid]\<rparr>)"
| sa_stop: "sched_any h s \<Longrightarrow> sched_any h (request_stop s)"

lemma sched_any_own: "sched_any h s \<Longrightarrow> \<not> h \<Longrightarrow> own_inv s"
proof (induction rule: sched_any.induct)
  case (sa_worker h s i s')
  with step_own_inv [of s i] show ?case by auto
qed (simp_all add: init_own_inv free_fiber_inv func_inv user_fiber_inv start_own_inv stop_own_inv)

lemma reachable_any: "sched_reachable s \<Longrightarrow> sched_any False s"
proof (induction rule: sched_reachable.induct)
  case (sr_step s s')
  from sched_reachable_inv [OF sr_step.hyps(1)] have free: "self_free s" by (simp add: sys_inv_def)
  from sr_step.hyps(2) show ?case
  proof cases
    case (st_worker i)
    from sa_worker [OF sr_step.IH st_worker] self_free_not_self [OF free, of i] show ?thesis by simp
  next
    case (st_fiber f thr)
    with sa_fiber [OF sr_step.IH st_fiber(2), of thr] show ?thesis by simp
  qed (simp_all add: sa_func [OF sr_step.IH] sa_user [OF sr_step.IH] sa_start [OF sr_step.IH] sa_stop [OF sr_step.IH])
qed (rule sa_init)

text \<open>What holds of the system whatever is scheduled: the tasks are real ones, the counters are exact.\<close>

definition counts_ok :: "'a sys \<Rightarrow> bool" where
  "counts_ok s \<longleftrightarrow> list_all task_real (m_fibers (sc s)) \<and>
     m_activeThreadCount (sc s) = sum_list (map (pc_active \<circ> w_pc) (ws s)) \<and>
     m_idleThreadCount (sc s) = sum_list (map (pc_idle \<circ> w_pc) (ws s))"

lemma counts_update:
  assumes "counts_ok s" and "i < length (ws s)" and "ws s' = (ws s)[i := w']"
    and "\<And>t. t \<in> set (m_fibers (sc s')) \<Longrightarrow> t \<in> set (m_fibers (sc s)) \<or> task_real t"
    and "m_activeThreadCount (sc s') = m_activeThreadCount (sc s) + pc_active (w_pc w') - pc_active (w_pc (ws s ! i))"
    and "m_idleThreadCount (sc s') = m_idleThreadCount (sc s) + pc_idle (w_pc w') - pc_idle (w_pc (ws s ! i))"
  shows "counts_ok s'"
  using assms sum_list_map_update [OF assms(2), of "pc_active \<circ> w_pc" w'] sum_list_map_update [OF assms(2), of "pc_idle \<circ> w_pc" w']
  by (auto simp: counts_ok_def list_all_iff)

lemma counts_step:
  assumes "counts_ok s" and i: "i < length (ws s)" and step: "worker_step i s = Inr s'"
  shows "counts_ok s'"
proof -
  let ?w = "ws s ! i"
  note upd = counts_update [OF assms(1) i]
  show ?thesis
  proof (cases "w_pc ?w")
    case W_top
    with step obtain b ft q' where p: "pick_task (fstate s) (w_tid ?w) (m_fibers (sc s)) = Inr (b, ft, q')"
      by (auto simp: worker_step_def step_top_def res_bind_Inr_iff Let_def)
    from pick_task_set [OF p] step W_top p show ?thesis
      by (cases ft) (auto simp: worker_step_def step_top_def Let_def split: if_splits intro!: upd)
  next
    case (W_got t)
    with step show ?thesis
      by (auto simp: worker_step_def step_got_def Let_def lionet_assert_def split: option.splits if_splits intro!: upd)
  next
    case (W_run f fn)
    then have run: "s' = step_run i ?w f fn s" using step by (simp add: worker_step_def)
    have "ws s = (ws s)[i := ?w]" by (simp add: list_update_id)
    note stay = upd [where w' = ?w, folded this]
    show ?thesis
    proof (cases "fprog s f")
      case (Act a k)
      then show ?thesis unfolding run by (auto simp: step_run_def Let_def intro!: stay)
    next
      case (Spawn g thr k)
      then show ?thesis unfolding run by (auto simp: step_run_def Let_def push_task_eq split: if_splits intro!: stay)
    next
      case (ScheduleSelf thr k)
      then show ?thesis unfolding run by (auto simp: step_run_def Let_def push_task_eq split: if_splits intro!: stay)
    qed (use W_run in \<open>auto simp: run step_run_def Let_def intro!: upd\<close>)
  next
    case (W_post f fn)
    with step show ?thesis
      by (auto simp: worker_step_def step_post_def Let_def lionet_assert_def push_task_eq split: if_splits intro!: upd)
  qed (use step assms(1) in \<open>auto simp: worker_step_def step_idle_def Let_def intro!: upd\<close>)
qed

lemma sched_any_counts: "sched_any h s \<Longrightarrow> counts_ok s"
proof (induction rule: sched_any.induct)
  case (sa_worker h s i s')
  then show ?case using counts_step by blast
qed (auto simp: counts_ok_def sys_init_def sched_fresh_def push_task_eq user_fiber_def request_stop_def worker_init_ok)



text \<open>
  The fibers that a worker holds: the one it is switched to, is about to leave or has just left; the one of the task it
  has taken; its \<open>func_fiber\<close>.
\<close>

definition holds :: "'a worker \<Rightarrow> nat \<Rightarrow> bool" where
  "holds w f \<longleftrightarrow> pc_fiber (w_pc w) = Some f \<or> w_func_fiber w = Some f \<or>
     (case w_pc w of W_got t \<Rightarrow> tk_fiber t = Some f | _ \<Rightarrow> False)"

lemma holds_owned: "worker_ok st w \<Longrightarrow> holds w f \<Longrightarrow> f \<in># worker_own w"
  using pc_fiber_owned [of st w f] by (auto simp: holds_def worker_own_def task_own_def split: wpc.splits)

section \<open>Properties\<close>

text \<open>Two workers with the threads 1 and 2, and the given queue and functions.\<close>

definition demo_sys :: "nat coro list \<Rightarrow> nat task list \<Rightarrow> nat sys" where
  "demo_sys bs q =
     \<lparr>sc = \<lparr>m_name = ''s'', m_fibers = q, m_rootFiber = None, m_threads = [], m_threadIds = [1, 2],
            m_threadCount = 2, m_activeThreadCount = 0, m_idleThreadCount = 0, m_stopping = False,
            m_autoStop = False, m_rootThread = -1\<rparr>,
      ws = [worker_init 1, worker_init 2], fstate = (\<lambda>_. INIT),
      fprog = (\<lambda>f. if f < length bs then bs ! f else Throw), next_fiber = length bs,
      done_events = []\<rparr>"

text \<open>Two new workers, and one task with the given function that is open to every thread.\<close>

definition demo_sched :: "nat sched" where
  "demo_sched = sc (demo_sys [] [])"

definition demo_pool :: "int \<Rightarrow> nat coro \<Rightarrow> nat sys" where
  "demo_pool thr b = enqueue (task_of_func (Some b) thr)
     (sys_init demo_sched\<lparr>ws := [worker_init 1, worker_init 2]\<rparr>)"

lemma demo_pool_reachable:
  assumes "no_self b"
  shows "sched_reachable (demo_pool thr b)"
proof -
  have "sched_reachable (sys_init demo_sched)"
    by (rule sr_init) (simp add: sched_fresh_def demo_sched_def demo_sys_def)
  from sr_step [OF this st_start [where tid = 1]]
  have 1: "sched_reachable (sys_init demo_sched\<lparr>ws := [worker_init 1]\<rparr>)"
    by (simp add: sys_init_def)
  from sr_step [OF this st_start [where tid = 2]]
  have 2: "sched_reachable (sys_init demo_sched\<lparr>ws := [worker_init 1, worker_init 2]\<rparr>)"
    by (simp add: sys_init_def)
  show "sched_reachable (demo_pool thr b)"
    unfolding demo_pool_def by (rule sr_step [OF 2 st_func]) (use assms in simp)
qed

lemma demo_pool_any: "sched_any False (demo_pool thr b)"
proof -
  have "sched_any False (sys_init demo_sched)"
    by (rule sa_init) (simp add: sched_fresh_def demo_sched_def demo_sys_def)
  from sa_func [OF sa_start [OF sa_start [OF this, of 1], of 2], of "Some b" thr]
  show ?thesis by (simp add: demo_pool_def sys_init_def)
qed

text \<open>A run in which some step schedules the fiber that it is on.\<close>

fun runs_self :: "nat list \<Rightarrow> 'a sys \<Rightarrow> bool" where
  "runs_self [] s \<longleftrightarrow> False"
| "runs_self (i # is) s \<longleftrightarrow> schedules_self i s \<or>
     (case worker_step i s of Inl e \<Rightarrow> False | Inr s1 \<Rightarrow> runs_self is s1)"

lemma run_steps_any:
  "sched_any h s \<Longrightarrow> set is \<subseteq> {..<length (ws s)} \<Longrightarrow> run_steps is s = Inr s' \<Longrightarrow> sched_any (h \<or> runs_self is s) s'"
proof (induction "is" arbitrary: h s)
  case (Cons i js)
  then obtain s1 where s1: "worker_step i s = Inr s1" "run_steps js s1 = Inr s'" by auto
  with Cons.IH [OF sa_worker [OF Cons.prems(1) _ s1(1)]] Cons.prems worker_step_ws_length [OF s1(1)]
  show ?case by (simp add: disj_assoc)
qed simp

lemma demo_pool_sel:
  "m_fibers (sc (demo_pool thr b)) = [task_of_func (Some b) thr]"
  "ws (demo_pool thr b) = [worker_init 1, worker_init 2]"
  "fprog (demo_pool thr b) = (\<lambda>_. Throw)" "fstate (demo_pool thr b) = (\<lambda>_. INIT)"
  by (simp_all add: demo_pool_def enqueue_def schedule_def scheduleNonLock_def
      sys_init_def demo_sched_def demo_sys_def task_of_func_def)

lemmas worker_step_simps = worker_step_def Let_def step_top_def step_got_def step_run_def step_post_def
  set_worker_def set_fiber_def add_active_def add_idle_def enqueue_def schedule_def scheduleNonLock_def

lemma demo_pool_run:
  "\<exists>s'. run_steps [0, 0] (demo_pool (-1) (Act 5 Return)) = Inr s' \<and> w_pc (ws s' ! 0) = W_run 0 True \<and>
     length (ws s') = 2"
  by (simp add: demo_pool_def demo_sched_def demo_sys_def sys_init_def worker_init_def worker_step_simps
      task_of_func_def)

lemma self_pool_run:
  "\<exists>s'. run_steps [0, 0, 0] (demo_pool (-1) (Act 5 (ScheduleSelf 2 Return))) = Inr s' \<and> w_pc (ws s' ! 0) = W_run 0 True \<and>
     schedules_self 0 s' \<and> length (ws s') = 2 \<and>
     \<not> runs_self [0, 0, 0] (demo_pool (-1) (Act 5 (ScheduleSelf 2 Return)))"
  by (simp add: demo_pool_def demo_sched_def demo_sys_def sys_init_def worker_init_def worker_step_simps
      task_of_func_def schedules_self_def)

text \<open>
  C1. A fiber is on one worker, for all programs and under every interleaving, until some fiber is scheduled
  that is held or executing: a fiber that a worker is switched to, has just left, has taken as its task or keeps as its
  \<open>func_fiber\<close> is held by no other worker and is not in the queue. (\<open>switchTo\<close> is what schedules such a fiber; what follows
  then is shown below.)
\<close>

theorem fiber_on_one_worker:
  assumes "sched_any False s" and "i < length (ws s)" and "holds (ws s ! i) f"
  shows "(\<forall>j<length (ws s). j \<noteq> i \<longrightarrow> \<not> holds (ws s ! j) f) \<and> (\<forall>t\<in>set (m_fibers (sc s)). tk_fiber t \<noteq> Some f)"
proof -
  have inv: "own_inv s" using sched_any_own [OF assms(1)] by simp
  have f: "f \<in># worker_own (ws s ! i)" by (rule holds_owned [OF own_invD(1) [OF inv assms(2)] assms(3)])
  have "\<not> holds (ws s ! j) f" if j: "j < length (ws s)" "j \<noteq> i" for j
    using own_once [OF inv two_workers_owned [OF assms(2) j(1)] f] j holds_owned [OF own_invD(1) [OF inv j(1)]] by auto
  moreover have "f \<notin># queue_own (m_fibers (sc s))"
    by (rule own_once [OF inv _ f]) (use worker_queue_owned [OF assms(2)] in \<open>simp add: add.commute\<close>)
  then have "\<forall>t\<in>set (m_fibers (sc s)). tk_fiber t \<noteq> Some f"
    using task_own_queue mset_subset_eqD by (fastforce simp: task_own_def)
  ultimately show ?thesis by blast
qed

theorem fiber_on_one_worker_witness:
  "\<exists>s'. run_steps [0, 0, 0] (demo_pool (-1) (Act 5 (ScheduleSelf 2 Return))) = Inr s' \<and>
    holds (ws s' ! 0) 0 \<and> \<not> holds (ws s' ! 1) 0"
proof -
  let ?s = "demo_pool (-1) (Act 5 (ScheduleSelf 2 Return))"
  obtain s' where s': "run_steps [0, 0, 0] ?s = Inr s'"
    "w_pc (ws s' ! 0) = W_run 0 True" "length (ws s') = 2" "\<not> runs_self [0, 0, 0] ?s" using self_pool_run by blast
  have any: "sched_any False s'" using run_steps_any [OF demo_pool_any _ s'(1)] s'(4) by (simp add: demo_pool_sel)
  have "holds (ws s' ! 0) 0" using s'(2) by (simp add: holds_def)
  with fiber_on_one_worker [OF any _ this] s' show ?thesis by auto
qed



text \<open>
  C10. The counters of the scheduler are exact in every state that any program reaches: \<open>m_activeThreadCount\<close> is
  the number of workers that have taken a task and not yet counted it off, \<open>m_idleThreadCount\<close>
  the number inside their idle fiber, so that \<open>hasIdleThreads()\<close> tells the truth.
\<close>

theorem thread_counts_exact:
  assumes "sched_any h s"
  shows "m_activeThreadCount (sc s) = int (length (filter (\<lambda>w. pc_active (w_pc w) = 1) (ws s))) \<and>
    m_idleThreadCount (sc s) = int (length (filter (\<lambda>w. w_pc w = W_idle) (ws s))) \<and>
    hasIdleThreads (sc s) = (\<exists>w\<in>set (ws s). w_pc w = W_idle)"
proof -
  have act: "(pc_active \<circ> w_pc) = (\<lambda>w. if pc_active (w_pc w) = 1 then 1 else 0)"
    by (auto simp: fun_eq_iff pc_active_indicator)
  have idl: "(pc_idle \<circ> w_pc) = (\<lambda>w. if w_pc w = W_idle then 1 else 0)"
    by (auto simp: fun_eq_iff pc_idle_indicator)
  have "counts_ok s" by (rule sched_any_counts [OF assms])
  then show ?thesis
    by (simp add: counts_ok_def act idl sum_list_indicator hasIdleThreads_def filter_empty_conv)
qed

theorem thread_counts_exact_witness:
  "\<exists>s'. run_steps [0, 0, 0] (demo_pool (-1) (Act 5 (ScheduleSelf 2 Return))) = Inr s' \<and>
    m_activeThreadCount (sc s') = int (length (filter (\<lambda>w. pc_active (w_pc w) = 1) (ws s')))"
proof -
  let ?s = "demo_pool (-1) (Act 5 (ScheduleSelf 2 Return))"
  obtain s' where s': "run_steps [0, 0, 0] ?s = Inr s'" using self_pool_run by blast
  have "sched_any (False \<or> runs_self [0, 0, 0] ?s) s'"
    by (rule run_steps_any [OF demo_pool_any _ s']) (simp add: demo_pool_sel)
  from thread_counts_exact [OF this] s' show ?thesis by blast
qed

text \<open>
  A fiber that yields goes back to the end of the queue at once, whether it yielded to
  \<open>READY\<close> or to \<open>HOLD\<close>, and without the thread it was scheduled for: the next worker of any
  thread may take it.
\<close>

theorem yield_requeues_unpinned:
  assumes "fstate s f = READY \<or> fstate s f = HOLD"
  shows "\<exists>s'. step_post i w f fn s = Inr s' \<and>
    m_fibers (sc s') = m_fibers (sc s) @ [\<lparr>tk_fiber = Some f, tk_func = None, tk_thread = -1\<rparr>]"
  using assms
  by (auto simp: step_post_def Let_def push_task_eq task_real_def task_of_fiber_def)

theorem yield_requeues_unpinned_witness:
  "\<exists>s'. step_post 0 (worker_init 1) 3 False ((demo_sys [] [])\<lparr>fstate := (\<lambda>_. HOLD)\<rparr>) = Inr s' \<and>
    m_fibers (sc s') = [\<lparr>tk_fiber = Some 3, tk_func = None, tk_thread = -1\<rparr>]"
  using yield_requeues_unpinned [of "(demo_sys [] [])\<lparr>fstate := (\<lambda>_. HOLD)\<rparr>" 3 0 "worker_init 1" False]
  by (simp add: demo_sys_def)

text \<open>
  C17. \<open>switchTo\<close> of a fiber to another thread puts it into the queue twice, once itself and once
  by the worker it yields to: wherever a worker runs a fiber that calls \<open>switchTo\<close> for a thread whose worker is about to
  look for a task, with nothing in the queue, there is an interleaving of the two after which both run the fiber.
\<close>

theorem switchTo_runs_twice:
  assumes "i < length (ws s)" and "j < length (ws s)" and "i \<noteq> j"
    and "w_pc (ws s ! i) = W_run f fn" and "fprog s f = switchTo True (w_tid (ws s ! i)) (w_tid (ws s ! j)) k"
    and "w_tid (ws s ! i) \<noteq> w_tid (ws s ! j)" and "w_tid (ws s ! j) \<noteq> -1"
    and "w_pc (ws s ! j) = W_top" and "m_fibers (sc s) = []"
  shows "\<exists>s'. run_steps [i, i, i, i, j, i, j, i] s = Inr s' \<and>
    w_pc (ws s' ! i) = W_run f False \<and> w_pc (ws s' ! j) = W_run f False"
  using assms
  by (cases fn) (simp_all add: switchTo_def worker_step_simps task_of_fiber_def)

text \<open>A user's fiber with the function \<open>g\<close> on worker 0, and no held fiber scheduled so far.\<close>

lemma user_pool_run:
  "\<exists>s :: nat sys. sched_any False s \<and> length (ws s) = 2 \<and> w_pc (ws s ! 0) = W_run 0 False \<and> w_pc (ws s ! 1) = W_top \<and>
    w_tid (ws s ! 0) = 1 \<and> w_tid (ws s ! 1) = 2 \<and> fprog s 0 = g \<and> m_fibers (sc s) = []"
proof -
  let ?start = "sys_init demo_sched\<lparr>ws := [worker_init 1, worker_init 2]\<rparr> :: nat sys"
  let ?s = "enqueue (task_of_fiber (Some 0) (-1)) (user_fiber g ?start)"
  have "sched_any False (sys_init demo_sched)"
    by (rule sa_init) (simp add: sched_fresh_def demo_sched_def demo_sys_def)
  from sa_user [OF sa_start [OF sa_start [OF this, of 1], of 2], of g] have 1: "sched_any False (user_fiber g ?start)"
    by (simp add: sys_init_def)
  have "0 < next_fiber (user_fiber g ?start)" "0 \<notin># owned (user_fiber g ?start)" "fstate (user_fiber g ?start) 0 \<noteq> EXEC"
    by (simp_all add: user_fiber_def sys_init_def owned_def worker_init_ok demo_sched_def demo_sys_def)
  with sa_fiber [OF 1, of 0 "-1"] have any: "sched_any False ?s" by simp
  obtain s where s: "run_steps [0, 0] ?s = Inr s" "length (ws s) = 2" "w_pc (ws s ! 0) = W_run 0 False" "w_pc (ws s ! 1) = W_top"
    "w_tid (ws s ! 0) = 1" "w_tid (ws s ! 1) = 2" "fprog s 0 = g" "m_fibers (sc s) = []" "\<not> runs_self [0, 0] ?s"
    by (simp add: demo_sched_def demo_sys_def sys_init_def worker_init_def worker_step_simps user_fiber_def
        task_of_fiber_def schedules_self_def)
  from run_steps_any [OF any _ s(1)] s(9) have "sched_any False s" by (simp add: user_fiber_def)
  with s show ?thesis by blast
qed

theorem switchTo_runs_twice_witness:
  "\<exists>s s' :: nat sys. sched_any False s \<and> fprog s 0 = switchTo True 1 2 Return \<and> run_steps [0, 0, 0, 0, 1, 0, 1, 0] s = Inr s' \<and>
    w_pc (ws s' ! 0) = W_run 0 False \<and> w_pc (ws s' ! 1) = W_run 0 False"
proof -
  have "switchTo True 1 2 Return = ScheduleSelf 2 (YieldHold Return)" by (simp add: switchTo_def)
  then obtain s :: "nat sys" where s: "sched_any False s" "length (ws s) = 2" "w_pc (ws s ! 0) = W_run 0 False" "w_pc (ws s ! 1) = W_top"
    "w_tid (ws s ! 0) = 1" "w_tid (ws s ! 1) = 2" "fprog s 0 = switchTo True 1 2 Return" "m_fibers (sc s) = []"
    using user_pool_run [of "switchTo True 1 2 Return"] by metis
  from switchTo_runs_twice [of 0 s 1, OF _ _ _ s(3) _ _ _ s(4,8), of Return] s show ?thesis by auto
qed

text \<open>
  A function that schedules its own fiber can abort the program: the fiber is the \<open>func_fiber\<close> of its worker, which keeps it
  when the function has returned; when another worker takes the entry and runs the fiber, and the first one takes a function,
  the assertion of \<open>reset\<close> fails.
\<close>

theorem schedule_self_aborts:
  assumes "i < length (ws s)" and "j < length (ws s)" and "i \<noteq> j"
    and "w_pc (ws s ! i) = W_run f True" and "w_func_fiber (ws s ! i) = Some f" and "fprog s f = ScheduleSelf (-1) Return"
    and "w_tid (ws s ! i) \<noteq> w_tid (ws s ! j)" and "w_tid (ws s ! i) \<noteq> -1" and "w_pc (ws s ! j) = W_top"
    and "m_fibers (sc s) = [task_of_func (Some g) (w_tid (ws s ! i))]"
  shows "run_steps [i, i, i, i, j, j, i, i] s = Inl AssertFailed"
  using assms
  by (simp add: worker_step_simps task_of_fiber_def task_of_func_def)

theorem schedule_self_aborts_witness:
  "\<exists>s. run_steps [0, 0] (enqueue (task_of_func (Some Return) 1) (demo_pool (-1) (ScheduleSelf (-1) Return))) = Inr s \<and>
    run_steps [0, 0, 0, 0, 1, 1, 0, 0] s = Inl AssertFailed"
proof -
  obtain s where s: "run_steps [0, 0] (enqueue (task_of_func (Some Return) 1) (demo_pool (-1) (ScheduleSelf (-1) Return))) = Inr s"
    "length (ws s) = 2" "w_pc (ws s ! 0) = W_run 0 True" "w_func_fiber (ws s ! 0) = Some 0" "fprog s 0 = ScheduleSelf (-1) Return"
    "w_tid (ws s ! 0) = 1" "w_tid (ws s ! 1) = 2" "w_pc (ws s ! 1) = W_top" "m_fibers (sc s) = [task_of_func (Some Return) 1]"
    by (simp add: demo_pool_def demo_sched_def demo_sys_def sys_init_def worker_init_def worker_step_simps task_of_func_def)
  from schedule_self_aborts [of 0 s 1, OF _ _ _ s(3-5) _ _ s(8), of Return] s show ?thesis by auto
qed

text \<open>
  \<open>stopping()\<close> can hold while a fiber still has work to do: \<open>run\<close> decrements
  \<open>m_activeThreadCount\<close> before it puts a fiber that yielded back into the queue. In between, a
  stopped scheduler with an empty queue and no other active worker looks finished, so that idle
  workers leave; after the next step of that worker it is not finished.
\<close>

theorem stopping_holds_too_early:
  assumes "w_pc (ws s ! i) = W_post f fn" and "fstate s f = READY \<or> fstate s f = HOLD"
    and "m_fibers (sc s) = []" and "m_activeThreadCount (sc s) = 0"
  shows "stopping (sc (request_stop s)) \<and>
    (\<exists>s'. worker_step i (request_stop s) = Inr s' \<and> \<not> stopping (sc s'))"
  using assms
  by (auto simp: stopping_def request_stop_def worker_step_def step_post_def Let_def push_task_eq
      task_real_def task_of_fiber_def)

theorem stopping_holds_too_early_witness:
  "\<exists>s. run_steps [0, 0, 0, 0] (demo_pool (-1) (YieldReady Return)) = Inr s \<and>
    stopping (sc (request_stop s))"
proof -
  have "\<exists>s. run_steps [0, 0, 0, 0] (demo_pool (-1) (YieldReady Return)) = Inr s \<and>
      w_pc (ws s ! 0) = W_post 0 True \<and> fstate s 0 = READY \<and> m_fibers (sc s) = [] \<and>
      m_activeThreadCount (sc s) = 0"
    by (simp add: demo_pool_def demo_sched_def demo_sys_def sys_init_def worker_init_def
        worker_step_simps task_of_func_def)
  then show ?thesis using stopping_holds_too_early [of _ 0 0 True] by blast
qed

end
