(* ===== verification/SchedulerDrain.thy ===== *)
theory SchedulerDrain imports SchedulerInv begin

text \<open>
  Progress of the scheduler (theories Scheduler and SchedulerInv). \<open>sys_work\<close> bounds the steps
  that the queue, the fibers and the workers still need; every step of a worker that is not an idle
  round uses some of it up. From this follow the end of the work (and, in theory SchedulerStop, the end of \<open>stop()\<close>) and, with a
  task that is bound to an unknown thread, that \<open>stop()\<close> does not end.
\<close>

section \<open>Work left\<close>

text \<open>
  The steps the workers need for a program, a task and the rest of a worker's round, switches and
  requeues included.
\<close>

fun coro_work :: "'a coro \<Rightarrow> nat" where
  "coro_work Return = 0"
| "coro_work Throw = 0"
| "coro_work (Act a k) = coro_work k + 1"
| "coro_work (Spawn g t k) = coro_work g + coro_work k + 6"
| "coro_work (ScheduleSelf t k) = coro_work k + 1"
| "coro_work (YieldReady k) = coro_work k + 5"
| "coro_work (YieldHold k) = coro_work k + 5"

definition task_work :: "(nat \<Rightarrow> 'a coro) \<Rightarrow> 'a task \<Rightarrow> nat" where
  "task_work pr t =
     (case tk_fiber t of Some f \<Rightarrow> coro_work (pr f) | None \<Rightarrow> 0) +
     (case tk_func t of Some g \<Rightarrow> coro_work g | None \<Rightarrow> 0) + 5"

definition left_work :: "(nat \<Rightarrow> 'a coro) \<Rightarrow> (nat \<Rightarrow> fiber_state) \<Rightarrow> nat \<Rightarrow> nat" where
  "left_work pr st f = (if st f = READY \<or> st f = HOLD then coro_work (pr f) + 5 else 0)"

fun pc_work :: "(nat \<Rightarrow> 'a coro) \<Rightarrow> (nat \<Rightarrow> fiber_state) \<Rightarrow> 'a wpc \<Rightarrow> nat" where
  "pc_work pr st (W_got t) = task_work pr t - 1"
| "pc_work pr st (W_run f fn) = coro_work (pr f) + 3"
| "pc_work pr st (W_back f fn) = left_work pr st f + 2"
| "pc_work pr st (W_post f fn) = left_work pr st f + 1"
| "pc_work pr st _ = 0"

definition queue_work :: "(nat \<Rightarrow> 'a coro) \<Rightarrow> 'a task list \<Rightarrow> nat" where
  "queue_work pr q = sum_list (map (task_work pr) q)"

definition sys_work :: "'a sys \<Rightarrow> nat" where
  "sys_work s = queue_work (fprog s) (m_fibers (sc s)) +
     sum_list (map (pc_work (fprog s) (fstate s) \<circ> w_pc) (ws s))"

text \<open>A worker is busy unless it is idle, out of the loop, or finds no task.\<close>

definition busy :: "nat \<Rightarrow> 'a sys \<Rightarrow> bool" where
  "busy i s = (case w_pc (ws s ! i) of
       W_idle \<Rightarrow> False
     | W_exit \<Rightarrow> False
     | W_top \<Rightarrow> take_task (fstate s) (w_tid (ws s ! i)) (m_fibers (sc s)) \<noteq> None
     | _ \<Rightarrow> True)"

lemma queue_work_simps [simp]:
  "queue_work pr [] = 0"
  "queue_work pr (t # q) = task_work pr t + queue_work pr q"
  "queue_work pr (p @ q) = queue_work pr p + queue_work pr q"
  by (simp_all add: queue_work_def)

lemma queue_work_push [simp]:
  "queue_work pr (push_task t q) = queue_work pr q + (if task_real t then task_work pr t else 0)"
  by (simp add: push_task_eq)

lemma task_work_cong: "\<forall>f\<in>#task_own t. pr' f = pr f \<Longrightarrow> task_work pr' t = task_work pr t"
  by (auto simp: task_work_def task_own_def split: option.splits)

lemma task_work_simps [simp]:
  "task_work pr (task_of_fiber (Some f) thr) = coro_work (pr f) + 5"
  "task_work pr (task_of_func (Some g) thr) = coro_work g + 5"
  by (simp_all add: task_work_def task_of_fiber_def task_of_func_def)

lemma queue_work_cong: "\<forall>f\<in>#queue_own q. pr' f = pr f \<Longrightarrow> queue_work pr' q = queue_work pr q"
proof (induction q)
  case (Cons t q)
  then have "task_work pr' t = task_work pr t" by (intro task_work_cong) simp
  with Cons show ?case by simp
qed simp

lemma pc_work_cong:
  assumes "worker_ok st w" and "\<forall>f\<in>#worker_own w. pr' f = pr f \<and> st' f = st f"
  shows "pc_work pr' st' (w_pc w) = pc_work pr st (w_pc w)"
  using assms task_work_cong [of _ pr' pr]
  by (cases "w_pc w") (auto simp: worker_ok_def worker_own_def left_work_def split: if_splits)

text \<open>
  Only worker \<open>i\<close> changed, and only fibers it holds or fresh ones: the work left grows or
  shrinks with that of worker \<open>i\<close> and the queue.
\<close>

lemma sys_work_update:
  assumes inv: "sys_inv s" and i: "i < length (ws s)" and w: "ws s ! i = w"
    and ws': "ws s' = (ws s)[i := w']"
    and fresh: "next_fiber s \<le> f \<or> f \<in># worker_own w"
    and pr': "\<And>g. g \<noteq> f \<Longrightarrow> fprog s' g = fprog s g" and st': "\<And>g. g \<noteq> f \<Longrightarrow> fstate s' g = fstate s g"
  shows "sys_work s' + queue_work (fprog s) (m_fibers (sc s)) + pc_work (fprog s) (fstate s) (w_pc w) =
    sys_work s + queue_work (fprog s') (m_fibers (sc s')) + pc_work (fprog s') (fstate s') (w_pc w')"
proof -
  have bnd: "\<And>g. g \<in># owned s \<Longrightarrow> g < next_fiber s" using inv by (simp add: sys_inv_unfold)
  have nf: "f \<notin># worker_own (ws s ! j)" if j: "j < length (ws s)" "j \<noteq> i" for j
  proof (cases "f \<in># worker_own w")
    case True
    show ?thesis
      by (rule owned_once [OF inv two_workers_owned [OF i j(1)]]) (use True w j in auto)
  next
    case False
    with fresh have "next_fiber s \<le> f" by simp
    then have "f \<notin># owned s" using bnd by fastforce
    then show ?thesis using worker_owned [OF j(1)] by (auto dest: mset_subset_eqD)
  qed
  have other: "pc_work (fprog s') (fstate s') (w_pc (ws s ! j)) = pc_work (fprog s) (fstate s) (w_pc (ws s ! j))"
    if j: "j < length (ws s)" "j \<noteq> i" for j
    by (rule pc_work_cong [OF sys_invD(1) [OF inv j(1)]]) (use nf [OF j] pr' st' in metis)
  let ?g' = "pc_work (fprog s') (fstate s') \<circ> w_pc" and ?g = "pc_work (fprog s) (fstate s) \<circ> w_pc"
  have rest: "xs ! i + sum_list (xs[i := 0]) = sum_list xs" if "i < length xs" for xs :: "nat list"
    using sum_list_map_update [of i xs id 0] that by simp
  have "(map ?g' (ws s))[i := 0] = (map ?g (ws s))[i := 0]"
    using other i by (auto intro!: nth_equalityI simp: nth_list_update)
  then have eq: "sum_list (map ?g' (ws s)) + ?g w = sum_list (map ?g (ws s)) + ?g' w"
    using rest [of "map ?g' (ws s)"] rest [of "map ?g (ws s)"] i w by simp
  show ?thesis
    using eq sum_list_map_update [OF i, of "pc_work (fprog s') (fstate s') \<circ> w_pc" w'] w ws'
    by (simp add: sys_work_def)
qed

section \<open>Busy steps use it up\<close>

lemma task_work_pos: "5 \<le> task_work pr t"
  by (simp add: task_work_def)

lemma step_top_work:
  assumes inv: "sys_inv s" and i: "i < length (ws s)" and w: "ws s ! i = w" and pc: "w_pc w = W_top"
    and "step_top i w s = Inr s'"
  shows "if busy i s then sys_work s' < sys_work s else sys_work s' = sys_work s"
proof -
  have real: "list_all task_real (m_fibers (sc s))"
    using sys_invD(2) [OF inv i] by (rule task_ok_real)
  from pick_task_split [OF real, of "fstate s" "w_tid w"] show ?thesis
  proof (elim disjE exE conjE)
    fix xs t ys
    assume q: "m_fibers (sc s) = xs @ t # ys" and
      pick: "pick_task (fstate s) (w_tid w) (m_fibers (sc s)) =
        Inr ((\<exists>x\<in>set xs. tk_thread x \<noteq> -1 \<and> tk_thread x \<noteq> w_tid w) \<or> ys \<noteq> [], Some t, xs @ ys)"
    then have s': "s' = add_active 1 (set_worker i (w\<lparr>w_pc := W_got t\<rparr>) (s\<lparr>sc := (sc s)\<lparr>m_fibers := xs @ ys\<rparr>\<rparr>))"
      using assms(5) by (simp add: step_top_def)
    have b: "busy i s" using pick pc w by (simp add: busy_def take_task_def)
    have "sys_work s' + queue_work (fprog s) (m_fibers (sc s)) + pc_work (fprog s) (fstate s) (w_pc w) =
      sys_work s + queue_work (fprog s') (m_fibers (sc s')) + pc_work (fprog s') (fstate s') (W_got t)"
      using sys_work_update [OF inv i w, of s' "w\<lparr>w_pc := W_got t\<rparr>" "next_fiber s"] s' by simp
    with b q s' pc task_work_pos [of "fprog s" t] show ?thesis by simp
  next
    assume pick: "pick_task (fstate s) (w_tid w) (m_fibers (sc s)) =
        Inr (\<exists>x\<in>set (m_fibers (sc s)). tk_thread x \<noteq> -1 \<and> tk_thread x \<noteq> w_tid w, None, m_fibers (sc s))"
    then have b: "\<not> busy i s" using pc w by (simp add: busy_def take_task_def)
    have "sys_work s' = sys_work s"
      using sys_work_update [OF inv i w, of s' "ws s' ! i" "next_fiber s"] assms(5) pick pc i
      by (auto simp: step_top_def split: if_splits)
    with b show ?thesis by simp
  qed
qed

lemma step_got_work:
  assumes inv: "sys_inv s" and i: "i < length (ws s)" and w: "ws s ! i = w" and pc: "w_pc w = W_got t"
    and step: "step_got i w t s = Inr s'"
  shows "sys_work s' < sys_work s"
proof -
  have drop: ?thesis if "s' = add_active (-1) (set_worker i (w\<lparr>w_pc := W_top\<rparr>) s)"
    using sys_work_update [OF inv i w, of s' "w\<lparr>w_pc := W_top\<rparr>" "next_fiber s"] that pc
      task_work_pos [of "fprog s" t] by simp
  have func: ?thesis if g: "tk_func t = Some g" and "f = next_fiber s \<or> w_func_fiber w = Some f"
    and s': "s' = set_fiber f EXEC g (set_worker i w' sa)" and s1: "ws sa = ws s" "fprog sa = fprog s"
      "fstate sa = fstate s" "sc sa = sc s" and w': "w_pc w' = W_run f True" for f g w' sa
  proof -
    have "next_fiber s \<le> f \<or> f \<in># worker_own w" using that(2) by (auto simp: worker_own_def)
    moreover have "queue_work ((fprog s)(f := g)) (m_fibers (sc s)) = queue_work (fprog s) (m_fibers (sc s))"
    proof (rule queue_work_cong, intro ballI)
      fix h
      assume h: "h \<in># queue_own (m_fibers (sc s))"
      have "h \<noteq> f"
      proof
        assume "h = f"
        show False
        proof (cases "f = next_fiber s")
          case True
          have "h \<in># owned s" using h by (simp add: owned_def)
          with inv True \<open>h = f\<close> show False by (auto simp: sys_inv_unfold)
        next
          case False
          with that(2) have "f \<in># worker_own w" by (simp add: worker_own_def)
          with owned_once [OF inv worker_queue_owned [OF i] h] w \<open>h = f\<close> show False by simp
        qed
      qed
      then show "((fprog s)(f := g)) h = fprog s h" by simp
    qed
    ultimately show ?thesis
      using sys_work_update [OF inv i w, of s' w' f] s' s1 w' pc g
      by (simp add: task_work_def split: option.splits)
  qed
  show ?thesis
  proof (cases "\<exists>f. tk_fiber t = Some f \<and> fstate s f \<noteq> TERM_S \<and> fstate s f \<noteq> EXCEPT")
    case True
    then obtain f where f: "tk_fiber t = Some f" "fstate s f \<noteq> TERM_S" "fstate s f \<noteq> EXCEPT" by blast
    with step have s': "s' = set_fiber f EXEC (fprog s f) (set_worker i (w\<lparr>w_pc := W_run f False\<rparr>) s)"
      by (simp add: step_got_def)
    moreover have "f \<in># worker_own w" using f pc by (simp add: worker_own_def task_own_def)
    ultimately show ?thesis
      using sys_work_update [OF inv i w, of s' "w\<lparr>w_pc := W_run f False\<rparr>" f] pc f
      by (simp add: task_work_def split: option.splits)
  next
    case False
    show ?thesis
    proof (cases "tk_func t")
      case None
      with False step have "s' = add_active (-1) (set_worker i (w\<lparr>w_pc := W_top\<rparr>) s)"
        by (auto simp: step_got_def Let_def split: option.splits)
      then show ?thesis by (rule drop)
    next
      case (Some g)
      with False step have "(\<exists>f. w_func_fiber w = Some f \<and> s' = set_fiber f EXEC g (set_worker i (w\<lparr>w_pc := W_run f True\<rparr>) s)) \<or>
        s' = set_fiber (next_fiber s) EXEC g (set_worker i (w\<lparr>w_pc := W_run (next_fiber s) True,
               w_func_fiber := Some (next_fiber s)\<rparr>) (s\<lparr>next_fiber := Suc (next_fiber s)\<rparr>))"
        by (auto simp: step_got_def Let_def split: option.splits if_splits)
      then show ?thesis
      proof (elim disjE exE conjE)
        fix f
        assume "w_func_fiber w = Some f"
          and "s' = set_fiber f EXEC g (set_worker i (w\<lparr>w_pc := W_run f True\<rparr>) s)"
        then show ?thesis
          by (intro func [OF Some, where f = f and w' = "w\<lparr>w_pc := W_run f True\<rparr>" and sa = s]) simp_all
      next
        let ?f = "next_fiber s"
        assume "s' = set_fiber ?f EXEC g (set_worker i (w\<lparr>w_pc := W_run ?f True,
               w_func_fiber := Some ?f\<rparr>) (s\<lparr>next_fiber := Suc ?f\<rparr>))"
        then show ?thesis
          by (intro func [OF Some, where f = ?f and sa = "s\<lparr>next_fiber := Suc ?f\<rparr>" and
                w' = "w\<lparr>w_pc := W_run ?f True, w_func_fiber := Some ?f\<rparr>"]) simp_all
      qed
    qed
  qed
qed

lemma queue_work_held:
  assumes "sys_inv s" and "i < length (ws s)" and "f \<in># worker_own (ws s ! i)"
  shows "queue_work ((fprog s)(f := b)) (m_fibers (sc s)) = queue_work (fprog s) (m_fibers (sc s))"
proof -
  have "f \<notin># queue_own (m_fibers (sc s))"
    using owned_once [OF assms(1) _ assms(3), of "queue_own (m_fibers (sc s))"]
      worker_queue_owned [OF assms(2)] by (simp add: add.commute)
  then show ?thesis by (intro queue_work_cong) auto
qed

lemma step_run_work:
  assumes inv: "sys_inv s" and i: "i < length (ws s)" and w: "ws s ! i = w" and pc: "w_pc w = W_run f fn"
  shows "sys_work (step_run i w f fn s) < sys_work s"
proof -
  have f: "f \<in># worker_own w"
    using pc_fiber_owned [OF sys_invD(1) [OF inv i]] w pc by simp
  have q: "queue_work ((fprog s)(f := b)) (m_fibers (sc s)) = queue_work (fprog s) (m_fibers (sc s))" for b
    by (rule queue_work_held [OF inv i]) (use f w in simp)
  have ns: "no_self (fprog s f)" using sys_invD(3) [OF inv i] .
  have same: "ws s = (ws s)[i := w]" using w i by (metis list_update_id)
  have leave: "sys_work (set_worker i (w\<lparr>w_pc := W_back f fn\<rparr>) (set_fiber f st b s)) < sys_work s"
    if "(if st = READY \<or> st = HOLD then coro_work b + 5 else 0) \<le> coro_work (fprog s f)" for st b
    using sys_work_update [OF inv i w, of "set_worker i (w\<lparr>w_pc := W_back f fn\<rparr>) (set_fiber f st b s)"
        "w\<lparr>w_pc := W_back f fn\<rparr>" f] f pc q [of b] that
    by (simp add: left_work_def split: if_splits)
  show ?thesis
  proof (cases "fprog s f")
    case (Act a k)
    then show ?thesis
      using sys_work_update [OF inv i w, of "step_run i w f fn s" w f] f pc same q
      by (simp add: step_run_def)
  next
    case (Spawn g thr k)
    then show ?thesis
      using sys_work_update [OF inv i w, of "step_run i w f fn s" w f] f pc same q
      by (simp add: step_run_def Let_def task_real_def task_of_func_def
          task_work_simps [unfolded task_of_func_def])
  qed (use ns leave in \<open>simp_all add: step_run_def Let_def\<close>)
qed

lemma step_back_work:
  assumes inv: "sys_inv s" and i: "i < length (ws s)" and w: "ws s ! i = w" and pc: "w_pc w = W_back f fn"
  shows "sys_work (add_active (-1) (set_worker i (w\<lparr>w_pc := W_post f fn\<rparr>) s)) < sys_work s"
  using sys_work_update [OF inv i w, of "add_active (-1) (set_worker i (w\<lparr>w_pc := W_post f fn\<rparr>) s)"
      "w\<lparr>w_pc := W_post f fn\<rparr>" "next_fiber s"] pc
  by simp

lemma step_post_work:
  assumes inv: "sys_inv s" and i: "i < length (ws s)" and w: "ws s ! i = w" and pc: "w_pc w = W_post f fn"
    and step: "step_post i w f fn s = Inr s'"
  shows "sys_work s' < sys_work s"
proof -
  have f: "f \<in># worker_own w"
    using pc_fiber_owned [OF sys_invD(1) [OF inv i]] w pc by simp
  have q: "queue_work ((fprog s)(f := b)) (m_fibers (sc s)) = queue_work (fprog s) (m_fibers (sc s))" for b
    by (rule queue_work_held [OF inv i]) (use f w in simp)
  have upd: "sys_work s' + pc_work (fprog s) (fstate s) (w_pc w) + queue_work (fprog s) (m_fibers (sc s)) =
      sys_work s + queue_work (fprog s') (m_fibers (sc s'))"
    if "ws s' = (ws s)[i := w']" "w_pc w' = W_top" "\<And>g. g \<noteq> f \<Longrightarrow> fprog s' g = fprog s g"
      "\<And>g. g \<noteq> f \<Longrightarrow> fstate s' g = fstate s g" for w'
    using sys_work_update [OF inv i w, of s' w' f] that f by simp
  have st: "fstate s f \<in> {READY, HOLD, TERM_S, EXCEPT}"
    using sys_invD(1) [OF inv i] w pc by (simp add: worker_ok_def)
  show ?thesis
  proof (cases "fstate s f = READY \<or> fstate s f = HOLD")
    case True
    let ?w' = "if fn then w\<lparr>w_func_fiber := None, w_pc := W_top\<rparr> else w\<lparr>w_pc := W_top\<rparr>"
    from True step have "s' = set_worker i ?w' (enqueue (task_of_fiber (Some f) (-1)) s)"
      by (auto simp: step_post_def Let_def)
    moreover have "task_real (task_of_fiber (Some f) (-1) :: 'a task)"
      by (simp add: task_real_def task_of_fiber_def)
    ultimately show ?thesis using upd [of ?w'] True pc by (cases fn) (simp_all add: left_work_def)
  next
    case False
    with st step have "s' = set_worker i (w\<lparr>w_pc := W_top\<rparr>) s \<or>
        s' = set_worker i (w\<lparr>w_pc := W_top\<rparr>) (set_fiber f INIT Throw s)"
      by (auto simp: step_post_def Let_def split: if_splits)
    with upd [of "w\<lparr>w_pc := W_top\<rparr>"] pc False q [of Throw] show ?thesis
      by (auto simp: left_work_def)
  qed
qed

lemma step_idle_work:
  assumes inv: "sys_inv s" and i: "i < length (ws s)" and w: "ws s ! i = w" and pc: "w_pc w = W_idle"
  shows "sys_work (step_idle i w s) = sys_work s"
  using sys_work_update [OF inv i w, of "step_idle i w s" "ws (step_idle i w s) ! i" "next_fiber s"] pc i
  by (simp add: step_idle_def)

lemma worker_step_work:
  assumes inv: "sys_inv s" and i: "i < length (ws s)" and step: "worker_step i s = Inr s'"
  shows "if busy i s then sys_work s' < sys_work s else sys_work s' = sys_work s"
proof (cases "w_pc (ws s ! i)")
  case W_top
  with step_top_work [OF inv i refl W_top] step show ?thesis by (simp add: worker_step_def)
next
  case (W_post f fn)
  with step_post_work [OF inv i refl W_post] step show ?thesis by (simp add: worker_step_def busy_def)
next
  case (W_got t)
  with step_got_work [OF inv i refl W_got] step show ?thesis by (simp add: worker_step_def busy_def)
qed (use step step_run_work [OF inv i refl] step_back_work [OF inv i refl] step_idle_work [OF inv i refl] in
    \<open>auto simp: worker_step_def busy_def\<close>)

fun busy_steps :: "nat list \<Rightarrow> 'a sys \<Rightarrow> nat" where
  "busy_steps [] s = 0"
| "busy_steps (i # is) s =
     (if busy i s then 1 else 0) + (case worker_step i s of Inr s' \<Rightarrow> busy_steps is s' | Inl _ \<Rightarrow> 0)"

lemma busy_steps_work:
  "sys_inv s \<Longrightarrow> set is \<subseteq> {..<length (ws s)} \<Longrightarrow> busy_steps is s \<le> sys_work s"
proof (induction "is" arbitrary: s)
  case (Cons i js)
  then obtain s1 where s1: "worker_step i s = Inr s1" "sys_inv s1"
    using worker_step_inv [of s i] by auto
  with Cons worker_step_ws_length [OF s1(1)] have "busy_steps js s1 \<le> sys_work s1" by simp
  moreover have "if busy i s then sys_work s1 < sys_work s else sys_work s1 = sys_work s"
    using worker_step_work [OF Cons.prems(1) _ s1(1)] Cons.prems(2) by simp
  ultimately show ?case using s1 by (simp split: if_splits)
qed simp

section \<open>Draining the queue\<close>

text \<open>Functions that schedule only for any thread, and systems with no task bound to a thread.\<close>

fun anywhere :: "'a coro \<Rightarrow> bool" where
  "anywhere Return \<longleftrightarrow> True"
| "anywhere Throw \<longleftrightarrow> True"
| "anywhere (Act a k) \<longleftrightarrow> anywhere k"
| "anywhere (Spawn g t k) \<longleftrightarrow> t = -1 \<and> anywhere g \<and> anywhere k"
| "anywhere (ScheduleSelf t k) \<longleftrightarrow> t = -1 \<and> anywhere k"
| "anywhere (YieldReady k) \<longleftrightarrow> anywhere k"
| "anywhere (YieldHold k) \<longleftrightarrow> anywhere k"

definition task_anywhere :: "'a task \<Rightarrow> bool" where
  "task_anywhere t \<longleftrightarrow> tk_thread t = -1 \<and> (\<forall>g. tk_func t = Some g \<longrightarrow> anywhere g)"

definition unpinned :: "'a sys \<Rightarrow> bool" where
  "unpinned s \<longleftrightarrow> list_all task_anywhere (m_fibers (sc s)) \<and> (\<forall>f. anywhere (fprog s f)) \<and>
     (\<forall>w\<in>set (ws s). \<forall>t. w_pc w = W_got t \<longrightarrow> task_anywhere t)"

lemma task_anywhere_simps [simp]:
  "task_anywhere (task_of_fiber f thr) \<longleftrightarrow> thr = -1"
  "task_anywhere (task_of_func g thr) \<longleftrightarrow> thr = -1 \<and> (\<forall>b. g = Some b \<longrightarrow> anywhere b)"
  by (simp_all add: task_anywhere_def task_of_fiber_def task_of_func_def)

lemma unpinned_update:
  assumes "unpinned s" and "ws s' = (ws s)[i := w']"
    and "list_all task_anywhere (m_fibers (sc s'))" and "\<And>f. anywhere (fprog s' f)"
    and "\<And>t. w_pc w' = W_got t \<Longrightarrow> task_anywhere t"
  shows "unpinned s'"
  using assms set_update_subset_insert [of "ws s" i w'] by (auto simp: unpinned_def)

lemma unpinned_step:
  assumes inv: "sys_inv s" and i: "i < length (ws s)" and step: "worker_step i s = Inr s'"
    and un: "unpinned s"
  shows "unpinned s'"
proof -
  let ?w = "ws s ! i"
  have q: "list_all task_anywhere (m_fibers (sc s))" and pr: "\<And>f. anywhere (fprog s f)"
    and got: "\<And>t. w_pc ?w = W_got t \<Longrightarrow> task_anywhere t"
    using un i by (auto simp: unpinned_def)
  have same: "ws s = (ws s)[i := ?w]" by simp
  show ?thesis
  proof (cases "w_pc ?w")
    case W_top
    have real: "list_all task_real (m_fibers (sc s))"
      using sys_invD(2) [OF inv i] by (rule task_ok_real)
    obtain tk ft q' where pick: "pick_task (fstate s) (w_tid ?w) (m_fibers (sc s)) = Inr (tk, ft, q')"
      and q': "list_all task_anywhere q'" "\<And>t. ft = Some t \<Longrightarrow> task_anywhere t"
      using pick_task_split [OF real, of "fstate s" "w_tid ?w"] q by (elim disjE exE conjE) auto
    show ?thesis
      using step W_top pick q' pr i
      by (cases ft) (auto simp: worker_step_def step_top_def Let_def split: if_splits
          intro!: unpinned_update [OF un, of _ i "ws s' ! i"] dest: sym)
  next
    case (W_got t)
    with got have t: "\<And>g. tk_func t = Some g \<Longrightarrow> anywhere g" by (simp add: task_anywhere_def)
    have upd: "unpinned s'" if "ws s' = (ws s)[i := w']" "m_fibers (sc s') = m_fibers (sc s)"
      "\<And>f. anywhere (fprog s' f)" "\<And>t. w_pc w' \<noteq> W_got t" for s' w'
      by (rule unpinned_update [OF un that(1)]) (use q that in auto)
    show ?thesis
      using step W_got pr t
      by (auto simp: worker_step_def step_got_def Let_def split: option.splits if_splits intro!: upd)
  next
    case (W_run f fn)
    then have "s' = step_run i ?w f fn s" using step by (simp add: worker_step_def)
    moreover have "anywhere (fprog s f)" by (rule pr)
    ultimately show ?thesis
      using q pr W_run got i
      by (cases "fprog s f")
        (auto simp: step_run_def Let_def push_task_eq intro!: unpinned_update [OF un, of _ i "ws s' ! i"])
  next
    case (W_post f fn)
    have upd: "unpinned s'" if "ws s' = (ws s)[i := w']"
      "m_fibers (sc s') = m_fibers (sc s) \<or> m_fibers (sc s') = push_task (task_of_fiber (Some f) (-1)) (m_fibers (sc s))"
      "\<And>f. anywhere (fprog s' f)" "\<And>t. w_pc w' \<noteq> W_got t" for s' w'
      by (rule unpinned_update [OF un that(1)]) (use q that in \<open>auto simp: push_task_eq\<close>)
    show ?thesis
      using step W_post pr
      by (auto simp: worker_step_def step_post_def Let_def split: if_splits intro!: upd)
  next
    case (W_back f fn)
    then show ?thesis
      using step q pr i
      by (auto simp: worker_step_def intro!: unpinned_update [OF un, of _ i "ws s' ! i"])
  next
    case W_idle
    then show ?thesis
      using step q pr i
      by (auto simp: worker_step_def step_idle_def intro!: unpinned_update [OF un, of _ i "ws s' ! i"])
  next
    case W_exit
    with step un show ?thesis by (simp add: worker_step_def)
  qed
qed

lemma step_top_pc:
  assumes "step_top i w s = Inr s'" and "i < length (ws s)"
  shows "w_pc (ws s' ! i) = (case take_task (fstate s) (w_tid w) (m_fibers (sc s)) of
      Some (t, q) \<Rightarrow> W_got t | None \<Rightarrow> if w_idle_state w = TERM_S then W_exit else W_idle)"
  using assms
  by (cases "pick_task (fstate s) (w_tid w) (m_fibers (sc s))")
    (auto simp: step_top_def take_task_def split: option.splits if_splits)

lemma worker_step_pc:
  assumes "worker_step i s = Inr s'" and "i < length (ws s)" and "w_pc (ws s ! i) \<noteq> W_top"
    and "w_pc (ws s ! i) \<noteq> W_exit"
  shows "w_pc (ws s' ! i) \<noteq> W_exit \<and> w_pc (ws s' ! i) \<noteq> W_idle"
  using assms
  by (cases "w_pc (ws s ! i)")
    (auto simp: worker_step_def Let_def step_got_def step_run_def step_post_def
      step_idle_def split: option.splits if_splits coro.splits)

lemma pc_exit_step:
  assumes "worker_step i s = Inr s'" and "i < length (ws s)"
    and "w_pc (ws s' ! i) = W_exit \<or> w_pc (ws s' ! i) = W_idle" and "w_pc (ws s ! i) \<noteq> W_exit"
  shows "w_pc (ws s ! i) = W_top \<and> take_task (fstate s) (w_tid (ws s ! i)) (m_fibers (sc s)) = None"
proof -
  have top: "w_pc (ws s ! i) = W_top" using worker_step_pc [OF assms(1,2)] assms(3,4) by blast
  then have "step_top i (ws s ! i) s = Inr s'" using assms(1) by (simp add: worker_step_def)
  from step_top_pc [OF this assms(2)] top assms(3) show ?thesis by (auto split: option.splits)
qed

lemma unpinned_fit:
  assumes "sys_inv s" and "i < length (ws s)" and "unpinned s" and "m_fibers (sc s) \<noteq> []"
  shows "take_task (fstate s) tid (m_fibers (sc s)) \<noteq> None"
proof
  assume none: "take_task (fstate s) tid (m_fibers (sc s)) = None"
  have ok: "list_all (task_ok (fstate s)) (m_fibers (sc s))" by (rule sys_invD [OF assms(1,2)])
  from take_task_None [OF task_ok_real [OF ok] none] ok assms(3,4)
  show False
    by (cases "m_fibers (sc s)") (auto simp: task_fits_def unpinned_def task_anywhere_def task_ok_def)
qed

section \<open>A task no worker can take\<close>

definition blocked :: "'a task \<Rightarrow> 'a sys \<Rightarrow> bool" where
  "blocked t s \<longleftrightarrow> t \<in> set (m_fibers (sc s)) \<and> tk_thread t \<noteq> -1 \<and>
     (\<forall>w\<in>set (ws s). w_tid w \<noteq> tk_thread t \<and> w_pc w \<noteq> W_exit \<and> w_idle_state w \<noteq> TERM_S)"

lemma blocked_update:
  assumes "blocked t s" and "ws s' = (ws s)[i := w']" and "i < length (ws s)"
    and "w_tid w' = w_tid (ws s ! i)" and "w_pc w' \<noteq> W_exit" and "w_idle_state w' \<noteq> TERM_S"
    and "t \<in> set (m_fibers (sc s'))"
  shows "blocked t s'"
proof -
  have "\<forall>w\<in>set (ws s). w_tid w \<noteq> tk_thread t \<and> w_pc w \<noteq> W_exit \<and> w_idle_state w \<noteq> TERM_S"
    using assms(1) by (simp add: blocked_def)
  moreover have "w_tid w' \<noteq> tk_thread t" using assms(1,4) nth_mem [OF assms(3)] by (simp add: blocked_def)
  ultimately show ?thesis
    using assms(1,2,5-7) set_update_subset_insert [of "ws s" i w'] unfolding blocked_def by auto
qed

lemma blocked_step:
  assumes inv: "sys_inv s" and i: "i < length (ws s)" and step: "worker_step i s = Inr s'"
    and bl: "blocked t s"
  shows "blocked t s'"
proof -
  let ?w = "ws s ! i"
  have w: "w_tid ?w \<noteq> tk_thread t" "w_pc ?w \<noteq> W_exit" "w_idle_state ?w \<noteq> TERM_S"
    and t: "t \<in> set (m_fibers (sc s))" "tk_thread t \<noteq> -1"
    using bl nth_mem [OF i] by (auto simp: blocked_def)
  have upd: "blocked t s'" if "ws s' = (ws s)[i := w']" "w_tid w' = w_tid ?w" "w_pc w' \<noteq> W_exit"
    "w_idle_state w' \<noteq> TERM_S" "t \<in> set (m_fibers (sc s'))" for s' w'
    by (rule blocked_update [OF bl that(1) i that(2-5)])
  show ?thesis
  proof (cases "w_pc ?w")
    case W_top
    have real: "list_all task_real (m_fibers (sc s))"
      using sys_invD(2) [OF inv i] by (rule task_ok_real)
    have far: "\<not> task_fits (fstate s) (w_tid ?w) t" using w t by (auto simp: task_fits_def)
    from pick_task_split [OF real, of "fstate s" "w_tid ?w"] show ?thesis
    proof (elim disjE exE conjE)
      fix xs u ys
      assume q: "m_fibers (sc s) = xs @ u # ys" and u: "task_fits (fstate s) (w_tid ?w) u"
        and pick: "pick_task (fstate s) (w_tid ?w) (m_fibers (sc s)) =
        Inr ((\<exists>x\<in>set xs. tk_thread x \<noteq> -1 \<and> tk_thread x \<noteq> w_tid ?w) \<or> ys \<noteq> [], Some u, xs @ ys)"
      have "t \<noteq> u" using far u by auto
      with t q pick step W_top w show ?thesis
        by (auto simp: worker_step_def step_top_def intro!: upd)
    next
      assume pick: "pick_task (fstate s) (w_tid ?w) (m_fibers (sc s)) =
        Inr (\<exists>x\<in>set (m_fibers (sc s)). tk_thread x \<noteq> -1 \<and> tk_thread x \<noteq> w_tid ?w, None, m_fibers (sc s))"
      with t step W_top w show ?thesis by (auto simp: worker_step_def step_top_def intro!: upd)
    qed
  next
    case (W_got u)
    with step w t show ?thesis
      by (auto simp: worker_step_def step_got_def Let_def split: option.splits if_splits intro!: upd)
  next
    case (W_run f fn)
    then have s': "s' = step_run i ?w f fn s" using step by (simp add: worker_step_def)
    have same: "ws s = (ws s)[i := ?w]" by simp
    show ?thesis
      using w t same unfolding s'
      by (cases "fprog s f") (auto simp: step_run_def Let_def push_task_eq W_run intro!: upd [where w' = ?w] upd)
  next
    case (W_back f fn)
    with step w t show ?thesis by (auto simp: worker_step_def intro!: upd)
  next
    case (W_post f fn)
    with step w t show ?thesis
      by (auto simp: worker_step_def step_post_def Let_def push_task_eq split: if_splits intro!: upd)
  next
    case W_idle
    have "\<not> stopping (sc s)" using t by (auto simp: stopping_def)
    with W_idle step w t show ?thesis by (auto simp: worker_step_def step_idle_def intro!: upd)
  next
    case W_exit
    with w show ?thesis by simp
  qed
qed

lemma blocked_run:
  "sys_inv s \<Longrightarrow> blocked t s \<Longrightarrow> set is \<subseteq> {..<length (ws s)} \<Longrightarrow> run_steps is s = Inr s' \<Longrightarrow> blocked t s'"
proof (induction "is" arbitrary: s)
  case (Cons i js)
  then obtain s1 where s1: "worker_step i s = Inr s1" "sys_inv s1" "run_steps js s1 = Inr s'"
    using worker_step_inv [of s i] by auto
  with Cons worker_step_ws_length [OF s1(1)] blocked_step [OF Cons.prems(1) _ s1(1) Cons.prems(2)]
  show ?case by simp
qed simp

lemma worker_step_flags:
  "worker_step i s = Inr s' \<Longrightarrow>
     m_autoStop (sc s') = m_autoStop (sc s) \<and> m_stopping (sc s') = m_stopping (sc s)"
  by (cases "w_pc (ws s ! i)")
    (auto simp: worker_step_def Let_def step_top_def step_got_def step_run_def step_post_def
      step_idle_def res_bind_Inr_iff set_worker_def set_fiber_def add_active_def add_idle_def
      enqueue_def schedule_def split: option.splits if_splits coro.splits prod.splits)

lemma run_steps_flags:
  "run_steps is s = Inr s' \<Longrightarrow>
     m_autoStop (sc s') = m_autoStop (sc s) \<and> m_stopping (sc s') = m_stopping (sc s)"
proof (induction "is" arbitrary: s)
  case (Cons i js)
  then obtain s1 where "worker_step i s = Inr s1" "run_steps js s1 = Inr s'" by auto
  with Cons.IH worker_step_flags [of i s s1] show ?case by simp
qed simp

section \<open>Properties\<close>

text \<open>
  C9. The scheduler makes progress under every interleaving, for functions that do not schedule their own fiber: the workers can take at most as many
  busy steps (any step but an idle round) as there is work in the queue, in the programs of the
  fibers and in the workers' hands, so from some point on, unless something new is scheduled, they
  only idle.
\<close>

theorem busy_steps_bounded:
  assumes "sched_reachable s" and "set is \<subseteq> {..<length (ws s)}"
  shows "busy_steps is s \<le> sys_work s"
  using sched_reachable_inv [OF assms(1)] assms(2) by (rule busy_steps_work)

theorem busy_steps_bounded_witness:
  "busy_steps [0, 0, 1, 0, 1, 0, 0, 1] (demo_pool (-1) (Act 5 (YieldHold Return))) \<le> 11"
  using busy_steps_bounded [OF demo_pool_reachable(1), of "Act 5 (YieldHold Return)" "[0, 0, 1, 0, 1, 0, 0, 1]"
      "-1"]
  by (simp add: sys_work_def demo_pool_sel worker_init_def)

text \<open>
  C35. A task bound to a thread that is no worker of the scheduler is never taken, and it keeps
  \<open>stopping()\<close> false: no interleaving of the workers makes any of them leave \<open>run\<close>, so
  \<open>stop()\<close> waits for ever.
\<close>

theorem unknown_thread_blocks_stop:
  assumes "sched_reachable s" and "t \<in> set (m_fibers (sc s))" and "tk_thread t \<noteq> -1"
    and "\<forall>w\<in>set (ws s). w_tid w \<noteq> tk_thread t \<and> w_pc w \<noteq> W_exit \<and> w_idle_state w \<noteq> TERM_S"
    and "set is \<subseteq> {..<length (ws s)}"
  shows "\<exists>s'. run_steps is s = Inr s' \<and> t \<in> set (m_fibers (sc s')) \<and> \<not> stopping (sc s') \<and>
    (\<forall>w\<in>set (ws s'). w_pc w \<noteq> W_exit)"
proof -
  have inv: "sys_inv s" by (rule sched_reachable_inv [OF assms(1)])
  from run_steps_inv [OF inv assms(5)] obtain s' where s': "run_steps is s = Inr s'" by blast
  have "blocked t s" using assms(2-4) by (simp add: blocked_def)
  from blocked_run [OF inv this assms(5) s'] s' show ?thesis
    by (auto simp: blocked_def stopping_def)
qed

theorem unknown_thread_blocks_stop_witness:
  "\<exists>s'. run_steps [0, 1, 0, 1, 0] (demo_pool 9 Return) = Inr s' \<and> \<not> stopping (sc s')"
  using unknown_thread_blocks_stop [OF demo_pool_reachable(1), of Return "task_of_func (Some Return) 9" 9
      "[0, 1, 0, 1, 0]"]
  by (auto simp: demo_pool_sel worker_init_def task_of_func_def)

end
