(* ===== verification/SchedulerStop.thy ===== *)
theory SchedulerStop imports SchedulerDrain begin

text \<open>
  \<open>Scheduler::stop\<close> and the workers, under every fair interleaving: each round of steps, in which every
  worker takes at least one, either uses up some of the work (theory SchedulerDrain) or brings the
  workers nearer to the end of \<open>run\<close>.
\<close>

section \<open>The state of a pool that stops\<close>

definition stop_inv :: "'a sys \<Rightarrow> bool" where
  "stop_inv s \<longleftrightarrow> sys_inv s \<and> unpinned s \<and> m_autoStop (sc s) \<and> m_stopping (sc s) \<and>
     (m_fibers (sc s) \<noteq> [] \<longrightarrow> (\<exists>w\<in>set (ws s). w_pc w \<noteq> W_exit))"

definition fair_round :: "'a sys \<Rightarrow> nat list \<Rightarrow> bool" where
  "fair_round s r \<longleftrightarrow> set r = {..<length (ws s)}"

lemma worker_step_frame:
  "worker_step i s = Inr s' \<Longrightarrow> j \<noteq> i \<Longrightarrow> ws s' ! j = ws s ! j"
  by (auto simp: worker_step_def Let_def step_top_def step_got_def step_run_def step_post_def
      step_idle_def res_bind_Inr_iff set_worker_def set_fiber_def add_active_def add_idle_def
      enqueue_def lionet_assert_def split: wpc.splits option.splits if_splits coro.splits)

lemma stop_inv_step:
  assumes "stop_inv s" and i: "i < length (ws s)"
  shows "\<exists>s'. worker_step i s = Inr s' \<and> stop_inv s' \<and> length (ws s') = length (ws s)"
proof -
  have inv: "sys_inv s" "unpinned s" using assms(1) by (simp_all add: stop_inv_def)
  obtain s' where s': "worker_step i s = Inr s'" "sys_inv s'" using worker_step_inv [OF inv(1) i] by blast
  have len: "length (ws s') = length (ws s)" by (rule worker_step_ws_length [OF s'(1)])
  have "\<exists>w\<in>set (ws s'). w_pc w \<noteq> W_exit" if q: "m_fibers (sc s') \<noteq> []"
  proof (cases "w_pc (ws s' ! i) = W_exit")
    case True
    show ?thesis
    proof (cases "w_pc (ws s ! i) = W_exit")
      case True
      with s'(1) assms(1) q show ?thesis by (simp add: worker_step_def stop_inv_def)
    next
      case False
      with pc_exit_step [OF s'(1) i] True have top: "w_pc (ws s ! i) = W_top"
        and none: "take_task (fstate s) (w_tid (ws s ! i)) (m_fibers (sc s)) = None" by simp_all
      then have "m_fibers (sc s) = []" using unpinned_fit [OF inv(1) i inv(2)] by blast
      with top s'(1) q show ?thesis by (auto simp: worker_step_def step_top_def Let_def split: if_splits)
    qed
  qed (use i len nth_mem in metis)
  with s' len unpinned_step [OF inv(1) i s'(1) inv(2)] worker_step_flags [OF s'(1)] assms(1)
  show ?thesis by (simp add: stop_inv_def)
qed

text \<open>A step that is not busy changes no queue and only the worker that takes it.\<close>

lemma not_busy_step:
  assumes "stop_inv s" and i: "i < length (ws s)" and "worker_step i s = Inr s'" and "\<not> busy i s"
  shows "m_fibers (sc s') = m_fibers (sc s) \<and> (w_pc (ws s ! i) = W_idle \<longrightarrow> w_pc (ws s' ! i) = W_top)"
proof (cases "w_pc (ws s ! i) = W_top")
  case True
  then have "take_task (fstate s) (w_tid (ws s ! i)) (m_fibers (sc s)) = None"
    using assms(4) by (simp add: busy_def del: not_None_eq)
  then have "m_fibers (sc s) = []"
    using unpinned_fit [OF _ i, of "w_tid (ws s ! i)"] assms(1) by (auto simp: stop_inv_def)
  with True assms(3) show ?thesis by (auto simp: worker_step_def step_top_def Let_def split: if_splits)
next
  case False
  with assms(3,4) i show ?thesis
    by (auto simp: worker_step_def busy_def step_idle_def split: wpc.splits)
qed

section \<open>Rounds use up the work\<close>

lemma run_stop_inv:
  "stop_inv s \<Longrightarrow> set is \<subseteq> {..<length (ws s)} \<Longrightarrow> \<exists>s'. run_steps is s = Inr s' \<and> stop_inv s' \<and>
     length (ws s') = length (ws s) \<and> sys_work s' \<le> sys_work s"
proof (induction "is" arbitrary: s)
  case (Cons i js)
  then obtain s1 where s1: "worker_step i s = Inr s1" "stop_inv s1" "length (ws s1) = length (ws s)"
    using stop_inv_step [of s i] by auto
  have "sys_work s1 \<le> sys_work s"
    using worker_step_work [OF _ _ s1(1)] Cons.prems by (force simp: stop_inv_def split: if_splits)
  with Cons.IH [of s1] Cons.prems(2) s1 show ?case by (auto intro: order_trans)
qed simp

text \<open>A worker that has something to do when the run starts, and steps in it.\<close>

definition has_work :: "nat \<Rightarrow> 'a sys \<Rightarrow> bool" where
  "has_work j s \<longleftrightarrow> (case w_pc (ws s ! j) of
       W_idle \<Rightarrow> False | W_exit \<Rightarrow> False | W_top \<Rightarrow> m_fibers (sc s) \<noteq> [] | _ \<Rightarrow> True)"

lemma has_work_busy: "stop_inv s \<Longrightarrow> j < length (ws s) \<Longrightarrow> has_work j s \<Longrightarrow> busy j s"
  using unpinned_fit [of s j] by (auto simp: has_work_def busy_def stop_inv_def split: wpc.splits)

text \<open>
  The three lemmas below follow one worker \<open>j\<close> through a run: a step of another worker either is busy,
  and then the work has gone down, or leaves \<open>j\<close> and the queue as they are.
\<close>

lemma other_step:
  assumes "stop_inv s" and "i < length (ws s)" and "set is \<subseteq> {..<length (ws s)}"
    and "run_steps (i # is) s = Inr s'"
  obtains s1 where "worker_step i s = Inr s1" "stop_inv s1" "length (ws s1) = length (ws s)"
    "run_steps is s1 = Inr s'" "sys_work s' \<le> sys_work s1"
    "busy i s \<Longrightarrow> sys_work s' < sys_work s"
    "\<not> busy i s \<Longrightarrow> sys_work s1 = sys_work s \<and> m_fibers (sc s1) = m_fibers (sc s)"
    "\<And>j. j \<noteq> i \<Longrightarrow> ws s1 ! j = ws s ! j"
proof -
  obtain s1 where s1: "worker_step i s = Inr s1" "stop_inv s1" "length (ws s1) = length (ws s)"
    using stop_inv_step [OF assms(1,2)] by blast
  have r: "run_steps is s1 = Inr s'" using assms(4) s1 by simp
  have le: "sys_work s' \<le> sys_work s1" using run_stop_inv [OF s1(2), of "is"] assms(3) s1(3) r by auto
  have "if busy i s then sys_work s1 < sys_work s else sys_work s1 = sys_work s"
    using worker_step_work [OF _ assms(2) s1(1)] assms(1) by (simp add: stop_inv_def)
  with that [OF s1 r le] le not_busy_step [OF assms(1,2) s1(1)] worker_step_frame [OF s1(1)]
  show thesis by (auto split: if_splits)
qed

lemma has_work_used:
  "stop_inv s \<Longrightarrow> set is \<subseteq> {..<length (ws s)} \<Longrightarrow> run_steps is s = Inr s' \<Longrightarrow> j \<in> set is \<Longrightarrow>
     has_work j s \<Longrightarrow> sys_work s' < sys_work s"
proof (induction "is" arbitrary: s)
  case (Cons i js)
  from Cons.prems have i: "i < length (ws s)" "set js \<subseteq> {..<length (ws s)}" by simp_all
  obtain s1 where s1: "stop_inv s1" "length (ws s1) = length (ws s)" "run_steps js s1 = Inr s'"
    "busy i s \<Longrightarrow> sys_work s' < sys_work s"
    "\<not> busy i s \<Longrightarrow> sys_work s1 = sys_work s \<and> m_fibers (sc s1) = m_fibers (sc s)"
    "\<And>j. j \<noteq> i \<Longrightarrow> ws s1 ! j = ws s ! j"
    by (rule other_step [OF Cons.prems(1) i Cons.prems(3)]) blast
  show ?case
  proof (cases "busy i s")
    case False
    with has_work_busy [OF Cons.prems(1)] Cons.prems(5) i have "j \<noteq> i" by blast
    moreover from this s1(5,6) False Cons.prems(5) have "has_work j s1"
      by (simp add: has_work_def split: wpc.splits)
    ultimately show ?thesis using Cons.IH [OF s1(1) _ s1(3)] s1(2,5) False i Cons.prems(4) by simp
  qed (rule s1(4))
qed simp

lemma idle_wakes:
  "stop_inv s \<Longrightarrow> set (is @ r) \<subseteq> {..<length (ws s)} \<Longrightarrow> run_steps (is @ r) s = Inr s' \<Longrightarrow> j \<in> set is \<Longrightarrow>
     j \<in> set r \<Longrightarrow> w_pc (ws s ! j) = W_idle \<Longrightarrow> m_fibers (sc s) \<noteq> [] \<Longrightarrow> sys_work s' < sys_work s"
proof (induction "is" arbitrary: s)
  case (Cons i js)
  from Cons.prems have i: "i < length (ws s)" "set (js @ r) \<subseteq> {..<length (ws s)}" by simp_all
  obtain s1 where s1: "worker_step i s = Inr s1" "stop_inv s1" "length (ws s1) = length (ws s)"
    "run_steps (js @ r) s1 = Inr s'" "busy i s \<Longrightarrow> sys_work s' < sys_work s"
    "\<not> busy i s \<Longrightarrow> sys_work s1 = sys_work s \<and> m_fibers (sc s1) = m_fibers (sc s)"
    "\<And>j. j \<noteq> i \<Longrightarrow> ws s1 ! j = ws s ! j"
    by (rule other_step [OF Cons.prems(1) i, of s']) (use Cons.prems(3) in auto)
  show ?case
  proof (cases "busy i s")
    case nb: False
    show ?thesis
    proof (cases "j = i")
      case True
      with not_busy_step [OF Cons.prems(1) i(1) s1(1) nb] Cons.prems(6,7) have "has_work j s1"
        by (simp add: has_work_def)
      with has_work_used [OF s1(2) _ s1(4), of j] s1(3,6) nb i(2) Cons.prems(5) show ?thesis by simp
    next
      case False
      with Cons.IH [OF s1(2) _ s1(4)] Cons.prems(4-7) s1(3,6,7) nb i(2) show ?thesis by simp
    qed
  qed (rule s1(5))
qed simp

lemma two_rounds:
  assumes inv: "stop_inv s" and "fair_round s r1" and "fair_round s r2" and "0 < sys_work s"
    and run: "run_steps (r1 @ r2) s = Inr s'"
  shows "sys_work s' < sys_work s"
proof -
  have set: "set (r1 @ r2) \<subseteq> {..<length (ws s)}" "set r1 = {..<length (ws s)}" "set r2 = {..<length (ws s)}"
    using assms(2,3) by (auto simp: fair_round_def)
  show ?thesis
  proof (cases "\<exists>j<length (ws s). has_work j s")
    case True
    then obtain j where "j < length (ws s)" "has_work j s" by blast
    with has_work_used [OF inv set(1) run, of j] set(2) show ?thesis by auto
  next
    case False
    have "pc_work (fprog s) (fstate s) (w_pc w) = 0" if w: "w \<in> set (ws s)" for w
    proof -
      obtain j where "j < length (ws s)" "w = ws s ! j" using w by (auto simp: in_set_conv_nth)
      with False have "\<not> has_work j s" by blast
      with \<open>w = ws s ! j\<close> show ?thesis by (auto simp: has_work_def split: wpc.splits)
    qed
    then have "sys_work s = queue_work (fprog s) (m_fibers (sc s))"
      by (simp add: sys_work_def)
    then have q: "m_fibers (sc s) \<noteq> []" using assms(4) by auto
    with inv obtain j where j: "j < length (ws s)" "w_pc (ws s ! j) \<noteq> W_exit"
      by (auto simp: stop_inv_def in_set_conv_nth)
    with False have "\<not> has_work j s" by blast
    with j(2) q have "w_pc (ws s ! j) = W_idle" by (auto simp: has_work_def split: wpc.splits)
    with idle_wakes [OF inv set(1) run, of j] set(2,3) j(1) q show ?thesis by auto
  qed
qed

lemma fair_rounds_subset: "\<forall>r\<in>set rs. fair_round s r \<Longrightarrow> set (concat rs) \<subseteq> {..<length (ws s)}"
  by (auto simp: fair_round_def)

lemma rounds_drain:
  "stop_inv s \<Longrightarrow> \<forall>r\<in>set rs. fair_round s r \<Longrightarrow> 2 * sys_work s \<le> length rs \<Longrightarrow>
     run_steps (concat rs) s = Inr s' \<Longrightarrow> sys_work s' = 0"
proof (induction rs arbitrary: s rule: induct_list012)
  case (3 r1 r2 rs)
  show ?case
  proof (cases "sys_work s = 0")
    case True
    with run_stop_inv [OF 3(3) fair_rounds_subset [OF 3(4)]] 3(6) show ?thesis by auto
  next
    case False
    from run_stop_inv [OF 3(3), of "r1 @ r2"] 3(4) obtain s1 where s1: "run_steps (r1 @ r2) s = Inr s1"
      "stop_inv s1" "length (ws s1) = length (ws s)" by (auto simp: fair_round_def)
    have "sys_work s1 < sys_work s" by (rule two_rounds [OF 3(3) _ _ _ s1(1)]) (use False 3(4) in auto)
    moreover have "run_steps (concat rs) s1 = Inr s'" using 3(6) s1(1) run_steps_append [of "r1 @ r2" "concat rs" s] by simp
    ultimately show ?thesis using 3(1) [OF s1(2)] 3(4,5) s1(3) by (simp add: fair_round_def)
  qed
next
  case (2 r)
  then have "sys_work s = 0" by simp
  with run_stop_inv [OF 2(1) fair_rounds_subset [OF 2(2)]] 2(4) show ?case by auto
qed simp

section \<open>Rounds end the workers\<close>

text \<open>The steps a worker needs to leave \<open>run\<close> when there is no work left.\<close>

definition exit_rank :: "'a worker \<Rightarrow> nat" where
  "exit_rank w = (case w_pc w of
       W_exit \<Rightarrow> 0 | W_top \<Rightarrow> if w_idle_state w = TERM_S then 1 else 3 | _ \<Rightarrow> 2)"

lemma no_work:
  assumes "stop_inv s" and "sys_work s = 0"
  shows "m_fibers (sc s) = []" and "w \<in> set (ws s) \<Longrightarrow> w_pc w \<in> {W_top, W_idle, W_exit}" and "stopping (sc s)"
proof -
  have "queue_work (fprog s) (m_fibers (sc s)) = 0" using assms(2) by (simp add: sys_work_def)
  then show q: "m_fibers (sc s) = []"
    by (cases "m_fibers (sc s)") (auto simp: task_work_def)
  have z: "pc_work (fprog s) (fstate s) (w_pc w) = 0" if "w \<in> set (ws s)" for w
    using assms(2) that by (simp add: sys_work_def)
  show pc: "w_pc w \<in> {W_top, W_idle, W_exit}" if "w \<in> set (ws s)" for w
    using z [OF that] by (cases "w_pc w") (auto simp: task_work_def)
  have "pc_active (w_pc w) = 0" if "w \<in> set (ws s)" for w using pc [OF that] by auto
  then have "sum_list (map (pc_active \<circ> w_pc) (ws s)) = 0" by (simp add: sum_list_0 cong: map_cong)
  with assms(1) q show "stopping (sc s)" by (simp add: stop_inv_def sys_inv_unfold stopping_def)
qed

lemma exit_rank_step:
  assumes inv: "stop_inv s" "sys_work s = 0" and i: "i < length (ws s)" and step: "worker_step i s = Inr s'"
  shows "exit_rank (ws s' ! i) = exit_rank (ws s ! i) - 1"
proof -
  note nw = no_work [OF inv]
  from nw(2) [OF nth_mem [OF i]] show ?thesis
    using step i nw(1,3)
    by (auto simp: worker_step_def step_top_def step_idle_def exit_rank_def split: if_splits)
qed

lemma exit_rank_run:
  "stop_inv s \<Longrightarrow> sys_work s = 0 \<Longrightarrow> set is \<subseteq> {..<length (ws s)} \<Longrightarrow> run_steps is s = Inr s' \<Longrightarrow>
     j < length (ws s) \<Longrightarrow> exit_rank (ws s' ! j) = exit_rank (ws s ! j) - count_list is j"
proof (induction "is" arbitrary: s)
  case (Cons i js)
  from Cons.prems have i: "i < length (ws s)" "set js \<subseteq> {..<length (ws s)}" by simp_all
  from run_stop_inv [OF Cons.prems(1), of "[i]"] i(1) obtain s1 where s1: "worker_step i s = Inr s1" "stop_inv s1"
    "length (ws s1) = length (ws s)" "sys_work s1 = 0" using Cons.prems(2) by (auto simp: res_bind_Inr_iff)
  have "exit_rank (ws s1 ! j) = exit_rank (ws s ! j) - (if i = j then 1 else 0)"
    using exit_rank_step [OF Cons.prems(1,2) i(1) s1(1)] worker_step_frame [OF s1(1), of j] by auto
  with Cons.IH [OF s1(2,4)] s1 i(2) Cons.prems(4,5) show ?case by simp
qed simp

lemma count_rounds: "\<forall>r\<in>set rs. fair_round s r \<Longrightarrow> j < length (ws s) \<Longrightarrow> length rs \<le> count_list (concat rs) j"
proof (induction rs)
  case (Cons r rs)
  then have "0 < count_list r j" by (simp add: fair_round_def count_list_0_iff zero_less_iff_neq_zero)
  with Cons show ?case by simp
qed simp

lemma rounds_exit:
  assumes "stop_inv s" and "sys_work s = 0" and "\<forall>r\<in>set rs. fair_round s r" and "3 \<le> length rs"
    and "run_steps (concat rs) s = Inr s'" and "j < length (ws s)"
  shows "w_pc (ws s' ! j) = W_exit"
proof -
  have "exit_rank (ws s ! j) \<le> 3" by (simp add: exit_rank_def split: wpc.splits)
  with exit_rank_run [OF assms(1,2) fair_rounds_subset [OF assms(3)] assms(5,6)] count_rounds [OF assms(3,6)] assms(4)
  have "exit_rank (ws s' ! j) = 0" by simp
  then show ?thesis by (simp add: exit_rank_def split: wpc.splits if_splits)
qed

section \<open>Properties\<close>

text \<open>
  C7. \<open>stop()\<close> ends, with all the work done, under every fair interleaving: when the call was accepted, no
  task is bound to a thread and not every worker has left \<open>run\<close>, then, whatever the tasks spawn, yield or
  throw (they do not schedule their own fiber), after at most \<open>2 * sys_work s + 3\<close> rounds in which each worker takes one step or more, in any
  order, all workers have left \<open>run\<close> and the queue is empty, so that the threads can be joined.
\<close>

theorem stop_finishes_all_work:
  assumes "sched_reachable s" and "Scheduler_stop mine root_state (sc s) = Inr (joined, d)"
    and "unpinned s" and "\<exists>w\<in>set (ws s). w_pc w \<noteq> W_exit"
    and "\<forall>r\<in>set rounds. set r = {..<length (ws s)}" and "2 * sys_work s + 3 \<le> length rounds"
  shows "\<exists>s'. run_steps (concat rounds) (s\<lparr>sc := d\<rparr>) = Inr s' \<and>
    (\<forall>w\<in>set (ws s'). w_pc w = W_exit) \<and> m_fibers (sc s') = []"
proof -
  let ?s = "s\<lparr>sc := d\<rparr>" and ?n = "2 * sys_work s"
  have d: "m_fibers d = m_fibers (sc s)" "m_autoStop d" "m_stopping d"
    "m_activeThreadCount d = m_activeThreadCount (sc s)" "m_idleThreadCount d = m_idleThreadCount (sc s)"
    using assms(2) by (auto simp: Scheduler_stop_def Let_def lionet_assert_def stopping_def split: if_splits)
  then have inv: "stop_inv ?s"
    using assms(3,4) sched_reachable_inv [OF assms(1)]
    by (simp add: stop_inv_def sys_inv_unfold self_free_def unpinned_def owned_def)
  have work: "sys_work ?s = sys_work s" using d by (simp add: sys_work_def)
  have fair: "\<forall>r\<in>set (take ?n rounds). fair_round ?s r" "\<forall>r\<in>set (drop ?n rounds). fair_round ?s r"
    using assms(5) by (auto simp: fair_round_def dest!: in_set_takeD in_set_dropD)
  from run_stop_inv [OF inv fair_rounds_subset [OF fair(1)]] obtain s1 where s1:
    "run_steps (concat (take ?n rounds)) ?s = Inr s1" "stop_inv s1" "length (ws s1) = length (ws ?s)" by blast
  have zero: "sys_work s1 = 0" by (rule rounds_drain [OF inv fair(1) _ s1(1)]) (use assms(6) work in simp)
  have fair1: "\<forall>r\<in>set (drop ?n rounds). fair_round s1 r" using fair(2) s1(3) by (simp add: fair_round_def)
  from run_stop_inv [OF s1(2) fair_rounds_subset [OF fair1]] obtain s' where s':
    "run_steps (concat (drop ?n rounds)) s1 = Inr s'" "stop_inv s'" "length (ws s') = length (ws s1)" "sys_work s' = 0"
    using zero by auto
  have "w_pc w = W_exit" if "w \<in> set (ws s')" for w
    using that rounds_exit [OF s1(2) zero fair1 _ s'(1)] s'(3) assms(6) by (auto simp: in_set_conv_nth)
  moreover have "run_steps (concat rounds) ?s = Inr s'"
    using run_steps_append [of "concat (take ?n rounds)" "concat (drop ?n rounds)" ?s] s1(1) s'(1)
    by (simp flip: concat_append)
  ultimately show ?thesis using no_work(1) [OF s'(2,4)] by blast
qed

theorem stop_finishes_all_work_witness:
  "\<exists>d s'. Scheduler_stop False INIT (sc (demo_pool (-1) (Act 1 (Spawn (Act 2 Return) (-1) (YieldHold Throw))))) =
      Inr (StopJoin [], d) \<and>
    run_steps (concat (replicate 39 [1, 0]))
      (demo_pool (-1) (Act 1 (Spawn (Act 2 Return) (-1) (YieldHold Throw)))\<lparr>sc := d\<rparr>) = Inr s' \<and>
    (\<forall>w\<in>set (ws s'). w_pc w = W_exit) \<and> m_fibers (sc s') = []"
proof -
  let ?b = "Act 1 (Spawn (Act 2 Return) (-1) (YieldHold Throw)) :: nat coro"
  let ?d = "(sc (demo_pool (-1) ?b))\<lparr>m_autoStop := True, m_stopping := True, m_threads := []\<rparr>"
  have stop: "Scheduler_stop False INIT (sc (demo_pool (-1) ?b)) = Inr (StopJoin [], ?d)"
    by (simp add: Scheduler_stop_def demo_pool_def enqueue_def schedule_def scheduleNonLock_def sys_init_def
        demo_sched_def demo_sys_def lionet_assert_def)
  have "{Suc 0, 0} = {..<Suc (Suc 0)}" by auto
  moreover have "sys_work (demo_pool (-1) ?b) = 18" by (simp add: sys_work_def demo_pool_sel worker_init_def)
  ultimately show ?thesis
    using stop_finishes_all_work [OF demo_pool_reachable stop, of "replicate 39 [1, 0]"] stop
    by (auto simp: demo_pool_sel unpinned_def worker_init_def)
qed

end
