(* ===== verification/SchedulerFiber.thy ===== *)
theory SchedulerFiber imports SchedulerInv begin

text \<open>
  The scheduler's view of a fiber and the fiber itself. Theory Scheduler keeps of a fiber its state and the
  rest of its function, and runs it step by step on a worker; theory Fiber has the object with its
  context and the switches between contexts. This theory shows that the first is what the second does.
\<close>

section \<open>A slice on a worker\<close>

text \<open>What an event of the fiber \<open>f\<close> does to the scheduler.\<close>

fun apply_event :: "nat \<Rightarrow> 'a event \<Rightarrow> 'a sys \<Rightarrow> 'a sys" where
  "apply_event f (Did a) s = s\<lparr>done_events := done_events s @ [a]\<rparr>"
| "apply_event f (Spawned g thr) s = enqueue (task_of_func (Some g) thr) s"
| "apply_event f (SelfScheduled thr) s = enqueue (task_of_fiber (Some f) thr) s"

definition apply_events :: "nat \<Rightarrow> 'a event list \<Rightarrow> 'a sys \<Rightarrow> 'a sys" where
  "apply_events f evs s = fold (apply_event f) evs s"

text \<open>Steps of one worker.\<close>

fun worker_steps :: "nat \<Rightarrow> nat \<Rightarrow> 'a sys \<Rightarrow> 'a sys res" where
  "worker_steps 0 i s = Inr s"
| "worker_steps (Suc n) i s = res_bind (worker_step i s) (worker_steps n i)"

text \<open>The rest of the function as the scheduler keeps it.\<close>

definition rest_prog :: "fiber_state \<Rightarrow> 'a coro option \<Rightarrow> 'a coro" where
  "rest_prog st r = (case r of Some k \<Rightarrow> k | None \<Rightarrow> if st = TERM_S then Return else Throw)"

lemma apply_event_sel [simp]:
  "ws (apply_event f e s) = ws s" "fprog (apply_event f e s) = fprog s" "fstate (apply_event f e s) = fstate s"
  by (cases e; simp add: enqueue_def)+

lemma set_fiber_apply_event: "apply_event f e (set_fiber g st b s) = set_fiber g st b (apply_event f e s)"
  by (cases e) (simp_all add: enqueue_def set_fiber_def)

lemma set_fiber_apply_events: "apply_events f es (set_fiber g st b s) = set_fiber g st b (apply_events f es s)"
  unfolding apply_events_def by (induction es arbitrary: s) (simp_all add: set_fiber_apply_event)

lemma set_fiber_twice [simp]: "set_fiber f st b (set_fiber f st' b' s) = set_fiber f st b s"
  by (simp add: set_fiber_def)

lemma set_fiber_at [simp]:
  "ws (set_fiber f st b s) = ws s" "fprog (set_fiber f st b s) f = b" "fstate (set_fiber f st b s) f = st"
  by (simp_all add: set_fiber_def)

text \<open>An event of the function is one step, after which the worker is in the same place.\<close>

lemma worker_slice_event:
  assumes "worker_step i s = Inr (set_fiber f EXEC k (apply_event f e s))"
    and "worker_steps (Suc (length evs)) i (set_fiber f EXEC k (apply_event f e s)) =
      Inr (set_worker i w (set_fiber f st b (apply_events f evs (set_fiber f EXEC k (apply_event f e s)))))"
  shows "worker_steps (Suc (length (e # evs))) i s =
    Inr (set_worker i w (set_fiber f st b (apply_events f (e # evs) s)))"
proof -
  have "apply_events f (e # evs) s = apply_events f evs (apply_event f e s)" by (simp add: apply_events_def)
  with assms show ?thesis by (simp add: set_fiber_apply_events)
qed

lemma worker_slice:
  assumes "ws s ! i = w" and "w_pc w = W_run f fn" and "fprog s f = b" and "slice b = (evs, st, r)"
  shows "worker_steps (Suc (length evs)) i s =
    Inr (set_worker i (w\<lparr>w_pc := W_back f fn\<rparr>) (set_fiber f st (rest_prog st r) (apply_events f evs s)))"
  using assms
proof (induction b arbitrary: s evs)
  case (Act a k)
  then obtain evs' where k: "slice k = (evs', st, r)" "evs = Did a # evs'" by (auto split: prod.splits)
  have "worker_step i s = Inr (set_fiber f EXEC k (apply_event f (Did a) s))"
    using Act.prems by (simp add: worker_step_def step_run_def Let_def)
  then show ?case unfolding k(2) by (rule worker_slice_event) (rule Act.IH; use Act.prems k in simp)
next
  case (Spawn g thr k)
  then obtain evs' where k: "slice k = (evs', st, r)" "evs = Spawned g thr # evs'" by (auto split: prod.splits)
  have "worker_step i s = Inr (set_fiber f EXEC k (apply_event f (Spawned g thr) s))"
    using Spawn.prems by (simp add: worker_step_def step_run_def Let_def)
  then show ?case unfolding k(2) by (rule worker_slice_event) (rule Spawn.IH(2); use Spawn.prems k in simp)
next
  case (ScheduleSelf thr k)
  then obtain evs' where k: "slice k = (evs', st, r)" "evs = SelfScheduled thr # evs'" by (auto split: prod.splits)
  have "worker_step i s = Inr (set_fiber f EXEC k (apply_event f (SelfScheduled thr) s))"
    using ScheduleSelf.prems by (simp add: worker_step_def step_run_def Let_def)
  then show ?case unfolding k(2) by (rule worker_slice_event) (rule ScheduleSelf.IH; use ScheduleSelf.prems k in simp)
qed (auto simp: worker_step_def step_run_def Let_def apply_events_def rest_prog_def)

section \<open>Properties\<close>

lemma apply_events_ws [simp]: "ws (apply_events f es s) = ws s"
  unfolding apply_events_def by (induction es arbitrary: s) simp_all

text \<open>
  C5. What a worker of the scheduler's model does with a fiber is what \<open>swapIn\<close> does with the fiber object:
  from a fiber object that continues with the function the scheduler has for it, \<open>swapIn\<close> on the
  contexts and the steps of the worker end with the same state of the fiber, the same events in the same
  order, each with its effect on the scheduler, and, when the fiber has yielded, again with an object
  that continues with the function the scheduler has. Both return: the fuel and the number of steps are
  given by the slice.
\<close>

theorem worker_refines_swapIn:
  assumes "t_scheduler_fiber t = Some m" and "m \<noteq> f" and "fibers t m = Some fm" and "fibers t f = Some fb"
    and "continues_with MainFunc f fb (fprog s f)"
    and "w_pc (ws s ! i) = W_run f fn" and "length (fst (slice (fprog s f))) + 1 < n"
  shows "\<exists>t' fb' evs b'. swapIn_run n h f t = Some (Inr t') \<and> cur t' = Host h \<and> fibers t' f = Some fb' \<and>
    events t' = events t @ evs \<and>
    worker_steps (Suc (length evs)) i s =
      Inr (set_worker i ((ws s ! i)\<lparr>w_pc := W_back f fn\<rparr>) (set_fiber f (f_state fb') b' (apply_events f evs s))) \<and>
    (if f_state fb' = READY \<or> f_state fb' = HOLD then continues_with MainFunc f fb' b'
     else f_state fb' = TERM_S \<or> f_state fb' = EXCEPT)"
proof -
  obtain evs st r where sl: "slice (fprog s f) = (evs, st, r)" by (cases "slice (fprog s f)")
  let ?fb = "slice_fiber MainFunc f fb st r"
  have w: "worker_steps (Suc (length evs)) i s =
      Inr (set_worker i ((ws s ! i)\<lparr>w_pc := W_back f fn\<rparr>) (set_fiber f st (rest_prog st r) (apply_events f evs s)))"
    by (rule worker_slice [OF refl assms(6) refl sl])
  have m: "swapIn_run n h f t = Some (Inr (after_swapIn h m f (fprog s f) t))"
    by (rule swapIn_run_slice [OF assms(1-5,7)])
  have r: "(case r of None \<Rightarrow> st = TERM_S \<or> st = EXCEPT | Some k \<Rightarrow> st = READY \<or> st = HOLD)"
    using slice_yields [of "fprog s f" evs st] slice_ends [of "fprog s f" evs st] sl by (auto split: option.splits)
  have c: "continues_with MainFunc f ?fb (rest_prog st r)" if "st = READY \<or> st = HOLD"
    using that r by (cases r) (auto simp: continues_with_def slice_fiber_def rest_prog_def)
  have f: "f_state ?fb = st" by (simp add: slice_fiber_def)
  show ?thesis
    by (intro exI [of _ "after_swapIn h m f (fprog s f) t"] exI [of _ ?fb] exI [of _ evs] exI [of _ "rest_prog st r"])
      (use m w c f r sl assms(2,4) in \<open>auto simp: after_swapIn_def split: option.splits\<close>)
qed

theorem worker_refines_swapIn_witness:
  "\<exists>t' fb' evs b'. swapIn_run 4 7 1 (demo_thread True False (Act 5 (YieldHold Return))) = Some (Inr t') \<and>
    fibers t' 1 = Some fb' \<and>
    worker_steps (Suc (length evs)) 0
      (demo_sys [Return, Act 5 (YieldHold Return)] []\<lparr>ws := [worker_init 1\<lparr>w_pc := W_run 1 False\<rparr>]\<rparr>) =
    Inr (set_worker 0 (worker_init 1\<lparr>w_pc := W_back 1 False\<rparr>) (set_fiber 1 (f_state fb') b' (apply_events 1 evs
      (demo_sys [Return, Act 5 (YieldHold Return)] []\<lparr>ws := [worker_init 1\<lparr>w_pc := W_run 1 False\<rparr>]\<rparr>))))"
proof -
  let ?b = "Act 5 (YieldHold Return) :: nat coro"
  let ?s = "demo_sys [Return, ?b] []\<lparr>ws := [worker_init 1\<lparr>w_pc := W_run 1 False\<rparr>]\<rparr>"
  have p: "fprog ?s 1 = ?b" by (simp add: demo_sys_def)
  have c: "continues_with MainFunc 1 (demo_fiber False ?b) (fprog ?s 1)" unfolding p by (simp add: demo_simps)
  have l: "length (fst (slice (fprog ?s 1))) + 1 < 4" unfolding p by simp
  have w: "ws ?s ! 0 = worker_init 1\<lparr>w_pc := W_run 1 False\<rparr>" by simp
  have t: "t_scheduler_fiber (demo_thread True False ?b) = Some 0" "(0::nat) \<noteq> 1"
    "fibers (demo_thread True False ?b) 0 = Some demo_main"
    "fibers (demo_thread True False ?b) 1 = Some (demo_fiber False ?b)" by (simp_all add: demo_thread_sel)
  have "w_pc (ws ?s ! 0) = W_run 1 False" by simp
  from worker_refines_swapIn [OF t c this l, of 7] show ?thesis unfolding w by auto
qed

end

