(* ===== verification/MutexModel.thy ===== *)
theory MutexModel imports Prelude begin

text \<open>
  \<open>LioNet/mutex.h\<close> and \<open>mutex.cc\<close>: the lock classes, the three scoped-lock templates and the
  semaphore. A lock is a state with two operations; acquiring returns \<open>None\<close> where the calling
  thread has to wait. The templates are functions of these operations, as they are
  templates over the lock class, and the contract they rely on is the locale \<open>lockable\<close>,
  interpreted for every lock class. What the POSIX locks and semaphores do is modelled as POSIX
  documents it; \<open>CASLock\<close>'s loop on the atomic flag is the program's own.
\<close>

section \<open>Lock classes\<close>

text \<open>\<open>Mutex\<close> and \<open>Spinlock\<close>: the thread that holds the lock, if any.\<close>

type_synonym mutex = "nat option"

definition Mutex_new :: mutex where
  "Mutex_new = None"

definition Mutex_lock :: "nat \<Rightarrow> mutex \<Rightarrow> mutex option" where
  "Mutex_lock tid m = (if m = None then Some (Some tid) else None)"

definition Mutex_unlock :: "mutex \<Rightarrow> mutex" where
  "Mutex_unlock m = None"

definition Spinlock_new :: mutex where
  "Spinlock_new = None"

definition Spinlock_lock :: "nat \<Rightarrow> mutex \<Rightarrow> mutex option" where
  "Spinlock_lock tid m = (if m = None then Some (Some tid) else None)"

definition Spinlock_unlock :: "mutex \<Rightarrow> mutex" where
  "Spinlock_unlock m = None"

text \<open>\<open>NullMutex\<close> and \<open>NullRWMutex\<close> have no state.\<close>

definition NullMutex_lock :: "unit \<Rightarrow> unit option" where
  "NullMutex_lock m = Some m"

definition NullMutex_unlock :: "unit \<Rightarrow> unit" where
  "NullMutex_unlock m = m"

definition NullRWMutex_rdlock :: "unit \<Rightarrow> unit option" where
  "NullRWMutex_rdlock m = Some m"

definition NullRWMutex_wrlock :: "unit \<Rightarrow> unit option" where
  "NullRWMutex_wrlock m = Some m"

definition NullRWMutex_unlock :: "unit \<Rightarrow> unit" where
  "NullRWMutex_unlock m = m"

text \<open>\<open>RWMutex\<close>: free, held by a number of readers, or by a writer.\<close>

datatype rwlock = RW_readers nat | RW_writer

definition RWMutex_new :: rwlock where
  "RWMutex_new = RW_readers 0"

definition RWMutex_rdlock :: "rwlock \<Rightarrow> rwlock option" where
  "RWMutex_rdlock m = (case m of RW_readers n \<Rightarrow> Some (RW_readers (Suc n)) | RW_writer \<Rightarrow> None)"

definition RWMutex_wrlock :: "rwlock \<Rightarrow> rwlock option" where
  "RWMutex_wrlock m = (if m = RW_readers 0 then Some RW_writer else None)"

definition RWMutex_unlock :: "rwlock \<Rightarrow> rwlock" where
  "RWMutex_unlock m = (case m of RW_readers n \<Rightarrow> RW_readers (n - 1) | RW_writer \<Rightarrow> RW_readers 0)"

text \<open>
  \<open>CASLock\<close>: \<open>atomic_flag_test_and_set\<close> returns the old value and sets the flag; \<open>lock\<close>
  repeats it while the old value is set.
\<close>

definition CASLock_new :: bool where
  "CASLock_new = False"

definition test_and_set :: "bool \<Rightarrow> bool \<times> bool" where
  "test_and_set flag = (flag, True)"

partial_function (option) CASLock_lock :: "bool \<Rightarrow> bool option" where
  [code]: "CASLock_lock flag =
     (case test_and_set flag of (old, flag') \<Rightarrow> if old then CASLock_lock flag' else Some flag')"

definition CASLock_try :: "bool \<Rightarrow> bool option" where
  "CASLock_try flag = (case test_and_set flag of (old, flag') \<Rightarrow> if old then None else Some flag')"

definition CASLock_unlock :: "bool \<Rightarrow> bool" where
  "CASLock_unlock flag = False"

section \<open>Scoped locks\<close>

text \<open>
  \<open>ScopedLockImpl<T>\<close>: the guarded lock and \<open>m_locked\<close>. \<open>lk\<close> and \<open>un\<close> are \<open>T::lock\<close> and
  \<open>T::unlock\<close>.
\<close>

record 'm guard =
  g_mutex :: 'm
  m_locked :: bool

definition ScopedLock_new :: "('m \<Rightarrow> 'm option) \<Rightarrow> 'm \<Rightarrow> 'm guard option" where
  "ScopedLock_new lk m = (case lk m of None \<Rightarrow> None
     | Some m' \<Rightarrow> Some \<lparr>g_mutex = m', m_locked = True\<rparr>)"

definition ScopedLock_lock :: "('m \<Rightarrow> 'm option) \<Rightarrow> 'm guard \<Rightarrow> 'm guard option" where
  "ScopedLock_lock lk g =
     (if \<not> m_locked g then
        (case lk (g_mutex g) of None \<Rightarrow> None | Some m' \<Rightarrow> Some \<lparr>g_mutex = m', m_locked = True\<rparr>)
      else Some g)"

definition ScopedLock_unlock :: "('m \<Rightarrow> 'm) \<Rightarrow> 'm guard \<Rightarrow> 'm guard" where
  "ScopedLock_unlock un g =
     (if m_locked g then \<lparr>g_mutex = un (g_mutex g), m_locked = False\<rparr> else g)"

definition ScopedLock_delete :: "('m \<Rightarrow> 'm) \<Rightarrow> 'm guard \<Rightarrow> 'm" where
  "ScopedLock_delete un g = g_mutex (ScopedLock_unlock un g)"

text \<open>
  \<open>ReadScopedLockImpl<T>\<close> and \<open>WriteScopedLockImpl<T>\<close> have the same bodies over
  \<open>T::rdlock\<close> and \<open>T::wrlock\<close>.
\<close>

definition ReadScopedLock_new :: "('m \<Rightarrow> 'm option) \<Rightarrow> 'm \<Rightarrow> 'm guard option" where
  "ReadScopedLock_new rd m = (case rd m of None \<Rightarrow> None
     | Some m' \<Rightarrow> Some \<lparr>g_mutex = m', m_locked = True\<rparr>)"

definition ReadScopedLock_lock :: "('m \<Rightarrow> 'm option) \<Rightarrow> 'm guard \<Rightarrow> 'm guard option" where
  "ReadScopedLock_lock rd g =
     (if \<not> m_locked g then
        (case rd (g_mutex g) of None \<Rightarrow> None | Some m' \<Rightarrow> Some \<lparr>g_mutex = m', m_locked = True\<rparr>)
      else Some g)"

definition ReadScopedLock_unlock :: "('m \<Rightarrow> 'm) \<Rightarrow> 'm guard \<Rightarrow> 'm guard" where
  "ReadScopedLock_unlock un g =
     (if m_locked g then \<lparr>g_mutex = un (g_mutex g), m_locked = False\<rparr> else g)"

definition ReadScopedLock_delete :: "('m \<Rightarrow> 'm) \<Rightarrow> 'm guard \<Rightarrow> 'm" where
  "ReadScopedLock_delete un g = g_mutex (ReadScopedLock_unlock un g)"

definition WriteScopedLock_new :: "('m \<Rightarrow> 'm option) \<Rightarrow> 'm \<Rightarrow> 'm guard option" where
  "WriteScopedLock_new wr m = (case wr m of None \<Rightarrow> None
     | Some m' \<Rightarrow> Some \<lparr>g_mutex = m', m_locked = True\<rparr>)"

definition WriteScopedLock_lock :: "('m \<Rightarrow> 'm option) \<Rightarrow> 'm guard \<Rightarrow> 'm guard option" where
  "WriteScopedLock_lock wr g =
     (if \<not> m_locked g then
        (case wr (g_mutex g) of None \<Rightarrow> None | Some m' \<Rightarrow> Some \<lparr>g_mutex = m', m_locked = True\<rparr>)
      else Some g)"

definition WriteScopedLock_unlock :: "('m \<Rightarrow> 'm) \<Rightarrow> 'm guard \<Rightarrow> 'm guard" where
  "WriteScopedLock_unlock un g =
     (if m_locked g then \<lparr>g_mutex = un (g_mutex g), m_locked = False\<rparr> else g)"

definition WriteScopedLock_delete :: "('m \<Rightarrow> 'm) \<Rightarrow> 'm guard \<Rightarrow> 'm" where
  "WriteScopedLock_delete un g = g_mutex (WriteScopedLock_unlock un g)"

section \<open>Semaphore\<close>

text \<open>
  The value of a POSIX semaphore is at most \<open>SEM_VALUE_MAX\<close>, \<open>2 ^ 31 - 1\<close> on Linux;
  \<open>sem_init\<close> and \<open>sem_post\<close> fail beyond it. \<open>wait\<close> returns \<open>None\<close> where the thread has to wait.
\<close>

definition SEM_VALUE_MAX :: nat where
  "SEM_VALUE_MAX = 2 ^ 31 - 1"

definition Semaphore_new :: "32 word \<Rightarrow> nat res" where
  "Semaphore_new cnt =
     (if unat cnt > SEM_VALUE_MAX then Inl (Thrown ''sem_init error'') else Inr (unat cnt))"

definition Semaphore_wait :: "nat \<Rightarrow> nat option" where
  "Semaphore_wait v = (case v of 0 \<Rightarrow> None | Suc n \<Rightarrow> Some n)"

definition Semaphore_notify :: "nat \<Rightarrow> nat res" where
  "Semaphore_notify v = (if v \<ge> SEM_VALUE_MAX then Inl (Thrown ''sem_post error'') else Inr (Suc v))"

section \<open>The contract of a lock class\<close>

text \<open>
  What a scoped lock relies on: releasing right after acquiring gives the state before. The client
  is a program that uses the guard: \<open>guard_run\<close> is any sequence of \<open>lock()\<close> (\<open>True\<close>) and
  \<open>unlock()\<close> calls on it.
\<close>

fun guard_run :: "('m \<Rightarrow> 'm option) \<Rightarrow> ('m \<Rightarrow> 'm) \<Rightarrow> bool list \<Rightarrow> 'm guard \<Rightarrow> 'm guard option" where
  "guard_run lk un [] g = Some g"
| "guard_run lk un (b # bs) g =
     (case (if b then ScopedLock_lock lk g else Some (ScopedLock_unlock un g)) of
        None \<Rightarrow> None | Some g' \<Rightarrow> guard_run lk un bs g')"

locale lockable =
  fixes lk :: "'m \<Rightarrow> 'm option" and un :: "'m \<Rightarrow> 'm"
  assumes unlock_lock: "lk m = Some m' \<Longrightarrow> un m' = m"
begin

definition guard_ok :: "'m \<Rightarrow> 'm guard \<Rightarrow> bool" where
  "guard_ok m g \<longleftrightarrow> (if m_locked g then lk m = Some (g_mutex g) else g_mutex g = m)"

lemma guard_ok_step:
  assumes "guard_ok m g" and "lk m \<noteq> None"
  shows "\<exists>g1. (if b then ScopedLock_lock lk g else Some (ScopedLock_unlock un g)) = Some g1 \<and> guard_ok m g1"
proof (cases "m_locked g")
  case True
  with assms(1) have "un (g_mutex g) = m" using unlock_lock by (simp add: guard_ok_def)
  with True assms(1) show ?thesis
    by (simp add: guard_ok_def ScopedLock_lock_def ScopedLock_unlock_def)
next
  case False
  with assms show ?thesis
    by (auto simp: guard_ok_def ScopedLock_lock_def ScopedLock_unlock_def)
qed

lemma guard_ok_run:
  assumes "guard_ok m g" and "lk m \<noteq> None"
  shows "\<exists>g'. guard_run lk un bs g = Some g' \<and> guard_ok m g'"
  using assms(1)
proof (induction bs arbitrary: g)
  case (Cons b bs)
  from guard_ok_step [OF Cons.prems assms(2), of b] Cons.IH show ?case by auto
qed simp

text \<open>A scope leaves the lock as it found it, and a guard never blocks its own thread.\<close>

lemma scope_balance:
  assumes "ScopedLock_new lk m = Some g"
  shows "\<exists>g'. guard_run lk un bs g = Some g' \<and> ScopedLock_delete un g' = m"
proof -
  have g: "guard_ok m g" "lk m \<noteq> None"
    using assms by (auto simp: ScopedLock_new_def guard_ok_def split: option.splits)
  from guard_ok_run [OF this] obtain g' where g': "guard_run lk un bs g = Some g'" "guard_ok m g'" by blast
  have "ScopedLock_delete un g' = m"
    using g'(2) unlock_lock by (cases "m_locked g'") (simp_all add: guard_ok_def ScopedLock_delete_def ScopedLock_unlock_def)
  with g'(1) show ?thesis by blast
qed

end

text \<open>
  Threads that compete for a lock: each is outside, waiting in \<open>lock()\<close>, or between \<open>lock()\<close> and
  \<open>unlock()\<close>. One step of thread \<open>i\<close>; a thread that cannot get the lock stays where it is.
\<close>

datatype lock_pc = L_out | L_wait | L_crit

definition lock_step ::
    "(nat \<Rightarrow> 'm \<Rightarrow> 'm option) \<Rightarrow> ('m \<Rightarrow> 'm) \<Rightarrow> nat \<Rightarrow> 'm \<times> lock_pc list \<Rightarrow> 'm \<times> lock_pc list" where
  "lock_step lk un i s =
     (let (m, pcs) = s
      in case pcs ! i of
           L_out \<Rightarrow> (m, pcs[i := L_wait])
         | L_wait \<Rightarrow> (case lk i m of None \<Rightarrow> (m, pcs) | Some m' \<Rightarrow> (m', pcs[i := L_crit]))
         | L_crit \<Rightarrow> (un m, pcs[i := L_out]))"

definition lock_run ::
    "(nat \<Rightarrow> 'm \<Rightarrow> 'm option) \<Rightarrow> ('m \<Rightarrow> 'm) \<Rightarrow> nat list \<Rightarrow> 'm \<times> lock_pc list \<Rightarrow> 'm \<times> lock_pc list" where
  "lock_run lk un is s = fold (lock_step lk un) is s"

definition in_crit :: "lock_pc list \<Rightarrow> nat" where
  "in_crit pcs = length (filter (\<lambda>pc. pc = L_crit) pcs)"

lemma in_crit_update:
  assumes "i < length pcs"
  shows "in_crit (pcs[i := pc]) + (if pcs ! i = L_crit then 1 else 0) =
    in_crit pcs + (if pc = L_crit then 1 else 0)"
proof -
  have eq: "in_crit xs = sum_list (map (\<lambda>pc. if pc = L_crit then 1 else 0) xs)" for xs
    by (induction xs) (simp_all add: in_crit_def)
  show ?thesis unfolding eq using sum_list_map_update [OF assms] by blast
qed

lemma in_crit_two:
  assumes "in_crit pcs \<le> 1" and "i < length pcs" and "j < length pcs" and "i \<noteq> j" and "pcs ! i = L_crit"
  shows "pcs ! j \<noteq> L_crit"
proof
  assume j: "pcs ! j = L_crit"
  have "in_crit (pcs[i := L_out]) + 1 = in_crit pcs"
    using in_crit_update [OF assms(2), of L_out] assms(5) by simp
  moreover have "in_crit (pcs[i := L_out, j := L_out]) + 1 = in_crit (pcs[i := L_out])"
    using in_crit_update [of j "pcs[i := L_out]" L_out] assms(3,4) j by simp
  ultimately show False using assms(1) by simp
qed

text \<open>
  A lock that excludes: when it is taken nobody gets it, when it is free anybody does, and
  releasing frees it.
\<close>

locale exclusive_lock =
  fixes lk :: "nat \<Rightarrow> 'm \<Rightarrow> 'm option" and un :: "'m \<Rightarrow> 'm" and free :: "'m \<Rightarrow> bool"
  assumes lock_free: "free m \<Longrightarrow> \<exists>m'. lk tid m = Some m' \<and> \<not> free m' \<and> un m' = m"
    and lock_taken: "\<not> free m \<Longrightarrow> lk tid m = None"
    and unlock_free: "free (un m)"
begin

definition lock_inv :: "'m \<times> lock_pc list \<Rightarrow> bool" where
  "lock_inv s \<longleftrightarrow> in_crit (snd s) = (if free (fst s) then 0 else 1)"

lemma lock_inv_step:
  assumes "lock_inv s" and "i < length (snd s)"
  shows "lock_inv (lock_step lk un i s) \<and> length (snd (lock_step lk un i s)) = length (snd s)"
proof (cases "snd s ! i")
  case L_out
  with assms in_crit_update [OF assms(2), of L_wait] show ?thesis
    by (auto simp: lock_inv_def lock_step_def split: prod.splits)
next
  case L_wait
  show ?thesis
  proof (cases "free (fst s)")
    case True
    with lock_free [of "fst s" i] L_wait assms in_crit_update [OF assms(2), of L_crit] show ?thesis
      by (auto simp: lock_inv_def lock_step_def split: prod.splits)
  next
    case False
    with lock_taken [of "fst s" i] L_wait assms show ?thesis
      by (auto simp: lock_inv_def lock_step_def split: prod.splits)
  qed
next
  case L_crit
  with assms in_crit_update [OF assms(2), of L_out] unlock_free [of "fst s"] show ?thesis
    by (auto simp: lock_inv_def lock_step_def split: prod.splits if_splits)
qed

lemma lock_inv_run:
  "lock_inv s \<Longrightarrow> set is \<subseteq> {..<length (snd s)} \<Longrightarrow> lock_inv (lock_run lk un is s) \<and>
     length (snd (lock_run lk un is s)) = length (snd s)"
proof (induction "is" arbitrary: s)
  case (Cons i js)
  with lock_inv_step [of s i] show ?case by (auto simp: lock_run_def)
qed (simp add: lock_run_def)

lemma in_crit_out: "in_crit (replicate n L_out) = 0"
  by (induction n) (simp_all add: in_crit_def)

text \<open>Under every interleaving at most one thread is inside, and a free lock is taken by the next that tries.\<close>

lemma mutual_exclusion:
  assumes "free m0" and "set is \<subseteq> {..<n}" and "lock_run lk un is (m0, replicate n L_out) = (m, pcs)"
    and "i < n" and "j < n" and "i \<noteq> j" and "pcs ! i = L_crit"
  shows "pcs ! j \<noteq> L_crit"
proof -
  have "lock_inv (m0, replicate n L_out)" using assms(1) by (simp add: lock_inv_def in_crit_out)
  from lock_inv_run [OF this, of "is"] assms(2,3) have "lock_inv (m, pcs)" "length pcs = n" by simp_all
  then have "in_crit pcs \<le> 1" by (simp add: lock_inv_def split: if_splits)
  from in_crit_two [OF this] assms(4-7) \<open>length pcs = n\<close> show ?thesis by blast
qed

lemma free_iff_empty:
  assumes "free m0" and "set is \<subseteq> {..<n}" and "lock_run lk un is (m0, replicate n L_out) = (m, pcs)"
  shows "free m \<longleftrightarrow> (\<forall>j<n. pcs ! j \<noteq> L_crit)"
proof -
  have "lock_inv (m0, replicate n L_out)" using assms(1) by (simp add: lock_inv_def in_crit_out)
  from lock_inv_run [OF this, of "is"] assms(2,3) have inv: "lock_inv (m, pcs)" "length pcs = n" by simp_all
  have "in_crit pcs = 0 \<longleftrightarrow> (\<forall>j<n. pcs ! j \<noteq> L_crit)"
    using inv(2) by (auto simp: in_crit_def filter_empty_conv in_set_conv_nth)
  with inv(1) show ?thesis by (auto simp: lock_inv_def split: if_splits)
qed

lemma no_lost_wakeup:
  assumes "free m0" and "set is \<subseteq> {..<n}" and "lock_run lk un is (m0, replicate n L_out) = (m, pcs)"
    and "\<forall>j<n. pcs ! j \<noteq> L_crit" and "i < n" and "pcs ! i = L_wait"
  shows "snd (lock_step lk un i (m, pcs)) ! i = L_crit"
proof -
  have "lock_inv (m0, replicate n L_out)" using assms(1) by (simp add: lock_inv_def in_crit_out)
  from lock_inv_run [OF this, of "is"] assms(2,3) have inv: "lock_inv (m, pcs)" "length pcs = n" by simp_all
  have "in_crit pcs = 0" using assms(4) inv(2) by (auto simp: in_crit_def filter_empty_conv in_set_conv_nth)
  with inv(1) have "free m" by (simp add: lock_inv_def split: if_splits)
  with lock_free [of m i] assms(5,6) inv(2) show ?thesis by (auto simp: lock_step_def)
qed

end

sublocale exclusive_lock \<subseteq> scoped: lockable "lk tid" un for tid
proof
  fix m m'
  assume "lk tid m = Some m'"
  with lock_free [of m tid] lock_taken [of m tid] show "un m' = m" by (cases "free m") auto
qed

interpretation mtx: exclusive_lock Mutex_lock Mutex_unlock "\<lambda>m. m = None"
  by unfold_locales (auto simp: Mutex_lock_def Mutex_unlock_def)

interpretation spin: exclusive_lock Spinlock_lock Spinlock_unlock "\<lambda>m. m = None"
  by unfold_locales (auto simp: Spinlock_lock_def Spinlock_unlock_def)

interpretation cas: exclusive_lock "\<lambda>_. CASLock_try" CASLock_unlock Not
  by unfold_locales (auto simp: CASLock_try_def CASLock_unlock_def test_and_set_def)

interpretation nullm: lockable NullMutex_lock NullMutex_unlock
  by unfold_locales (simp add: NullMutex_lock_def NullMutex_unlock_def)

interpretation rd: lockable RWMutex_rdlock RWMutex_unlock
  by unfold_locales (auto simp: RWMutex_rdlock_def RWMutex_unlock_def split: rwlock.splits)

interpretation wr: lockable RWMutex_wrlock RWMutex_unlock
  by unfold_locales (auto simp: RWMutex_wrlock_def RWMutex_unlock_def split: if_splits)

interpretation nullrd: lockable NullRWMutex_rdlock NullRWMutex_unlock
  by unfold_locales (simp add: NullRWMutex_rdlock_def NullRWMutex_unlock_def)

interpretation nullwr: lockable NullRWMutex_wrlock NullRWMutex_unlock
  by unfold_locales (simp add: NullRWMutex_wrlock_def NullRWMutex_unlock_def)

text \<open>The read and write guards are instances of the same template text.\<close>

lemma read_write_guards:
  "ReadScopedLock_new = ScopedLock_new" "ReadScopedLock_lock = ScopedLock_lock"
  "ReadScopedLock_unlock = ScopedLock_unlock" "ReadScopedLock_delete = ScopedLock_delete"
  "WriteScopedLock_new = ScopedLock_new" "WriteScopedLock_lock = ScopedLock_lock"
  "WriteScopedLock_unlock = ScopedLock_unlock" "WriteScopedLock_delete = ScopedLock_delete"
  by (simp_all add: fun_eq_iff ReadScopedLock_new_def ScopedLock_new_def ReadScopedLock_lock_def
      ScopedLock_lock_def WriteScopedLock_new_def WriteScopedLock_lock_def ReadScopedLock_unlock_def
      ScopedLock_unlock_def WriteScopedLock_unlock_def ReadScopedLock_delete_def ScopedLock_delete_def
      WriteScopedLock_delete_def)

lemma CASLock_lock_Some: "CASLock_lock flag = Some y \<Longrightarrow> \<not> flag"
  by (erule CASLock_lock.raw_induct [of "\<lambda>flag _. \<not> flag", rotated])
    (auto simp: test_and_set_def split: if_splits)

lemma CASLock_lock_None: "CASLock_lock True = None"
  using CASLock_lock_Some [of True] by (cases "CASLock_lock True") auto

section \<open>Properties\<close>

text \<open>
  C19. \<open>CASLock\<close> excludes: whatever the number of threads and their interleaving, no two of them
  are between \<open>lock()\<close> and \<open>unlock()\<close> at once, the flag is set exactly when one of them is, and a
  test-and-set of a waiting thread gets the lock exactly when none is.
\<close>

theorem CASLock_mutual_exclusion:
  assumes "set is \<subseteq> {..<n}"
    and "lock_run (\<lambda>_. CASLock_try) CASLock_unlock is (CASLock_new, replicate n L_out) = (flag, pcs)"
    and "i < n"
  shows "(pcs ! i = L_crit \<longrightarrow> (\<forall>j<n. j \<noteq> i \<longrightarrow> pcs ! j \<noteq> L_crit)) \<and>
    (flag \<longleftrightarrow> (\<exists>j<n. pcs ! j = L_crit)) \<and>
    (pcs ! i = L_wait \<longrightarrow>
      (snd (lock_step (\<lambda>_. CASLock_try) CASLock_unlock i (flag, pcs)) ! i = L_crit \<longleftrightarrow>
        (\<forall>j<n. pcs ! j \<noteq> L_crit)))"
proof -
  have new: "\<not> CASLock_new" by (simp add: CASLock_new_def)
  have flag: "flag \<longleftrightarrow> (\<exists>j<n. pcs ! j = L_crit)" using cas.free_iff_empty [OF new assms(1,2)] by blast
  have "snd (lock_step (\<lambda>_. CASLock_try) CASLock_unlock i (flag, pcs)) ! i \<noteq> L_crit"
    if "flag" "pcs ! i = L_wait"
    using that by (simp add: lock_step_def CASLock_try_def test_and_set_def)
  with flag cas.no_lost_wakeup [OF new assms(1,2) _ assms(3)]
  have "snd (lock_step (\<lambda>_. CASLock_try) CASLock_unlock i (flag, pcs)) ! i = L_crit \<longleftrightarrow> (\<forall>j<n. pcs ! j \<noteq> L_crit)"
    if "pcs ! i = L_wait" using that by blast
  with flag cas.mutual_exclusion [OF new assms(1,2,3)] show ?thesis by blast
qed

theorem CASLock_mutual_exclusion_witness:
  "\<exists>flag pcs. lock_run (\<lambda>_. CASLock_try) CASLock_unlock [0, 1, 0, 1] (CASLock_new, replicate 2 L_out) = (flag, pcs) \<and>
    pcs ! 0 = L_crit \<and> pcs ! 1 \<noteq> L_crit \<and> flag"
proof -
  have r: "lock_run (\<lambda>_. CASLock_try) CASLock_unlock [0, 1, 0, 1] (CASLock_new, replicate 2 L_out) =
      (True, [L_crit, L_wait])"
    by (simp add: lock_run_def lock_step_def CASLock_try_def CASLock_new_def test_and_set_def numeral_2_eq_2)
  from CASLock_mutual_exclusion [OF _ r, of 0] r show ?thesis by auto
qed

text \<open>
  \<open>CASLock::lock\<close> returns, with the flag set, exactly when it finds the flag clear; on a flag
  that nobody clears it spins for ever, so a thread that locks twice does not return.
\<close>

theorem CASLock_lock_returns:
  "CASLock_lock flag = (if flag then None else Some True) \<and>
   CASLock_lock (CASLock_unlock flag) = Some True"
  using CASLock_lock_None CASLock_lock.simps [of False]
  by (auto simp: test_and_set_def CASLock_unlock_def)

text \<open>
  A scoped lock is balanced: whatever sequence of \<open>lock()\<close> and \<open>unlock()\<close> calls is made on the
  guard, none of them blocks the thread on its own lock, and the destructor leaves the lock in the
  state it had before the constructor. This holds for each lock class, for the read lock and for the write lock.
\<close>

theorem scoped_locks_balanced:
  "(ScopedLock_new (Mutex_lock tid) m = Some g \<longrightarrow>
      (\<exists>g'. guard_run (Mutex_lock tid) Mutex_unlock bs g = Some g' \<and> ScopedLock_delete Mutex_unlock g' = m)) \<and>
   (ScopedLock_new CASLock_try flag = Some h \<longrightarrow>
      (\<exists>g'. guard_run CASLock_try CASLock_unlock bs h = Some g' \<and> ScopedLock_delete CASLock_unlock g' = flag)) \<and>
   (ReadScopedLock_new RWMutex_rdlock rw = Some r \<longrightarrow>
      (\<exists>g'. guard_run RWMutex_rdlock RWMutex_unlock bs r = Some g' \<and> ReadScopedLock_delete RWMutex_unlock g' = rw)) \<and>
   (WriteScopedLock_new RWMutex_wrlock rw = Some w \<longrightarrow>
      (\<exists>g'. guard_run RWMutex_wrlock RWMutex_unlock bs w = Some g' \<and> WriteScopedLock_delete RWMutex_unlock g' = rw))"
  using mtx.scoped.scope_balance [of tid m g bs] cas.scoped.scope_balance [of flag h bs]
    rd.scope_balance [of rw r bs] wr.scope_balance [of rw w bs]
  by (simp add: read_write_guards)

theorem scoped_locks_balanced_witness:
  "\<exists>g'. guard_run RWMutex_rdlock RWMutex_unlock [False, False, True, True]
      \<lparr>g_mutex = RW_readers 3, m_locked = True\<rparr> = Some g' \<and> ReadScopedLock_delete RWMutex_unlock g' = RW_readers 2"
  using scoped_locks_balanced [of 0 None "\<lparr>g_mutex = Some 0, m_locked = True\<rparr>" "[False, False, True, True]"
      False "\<lparr>g_mutex = True, m_locked = True\<rparr>" "RW_readers 2" "\<lparr>g_mutex = RW_readers 3, m_locked = True\<rparr>"
      "\<lparr>g_mutex = RW_writer, m_locked = True\<rparr>"]
  by (simp add: ReadScopedLock_new_def RWMutex_rdlock_def)

end
