(* ===== verification/ThreadModel.thy ===== *)
theory ThreadModel imports MutexModel begin

text \<open>
  \<open>LioNet/thread.h\<close> and \<open>thread.cc\<close>: a thread object, the handshake between its constructor
  and \<open>Thread::run\<close> over the semaphore, \<open>join\<close>, the destructor and the thread-local name. The new
  thread takes one step per statement of \<open>run\<close>; the creating thread waits in the constructor, and
  may join or destroy the object afterwards. The result of \<open>pthread_create\<close> and \<open>pthread_join\<close>
  is a parameter (0 for success).
\<close>

section \<open>Data\<close>

record 'f thread_obj =
  m_id :: int
  m_thread :: bool
  m_func :: "'f option"
  th_name :: string
  m_semaphore :: nat

text \<open>
  Where the new thread is in \<open>run\<close>: before each statement, with the function taken from the object
  from \<open>C_notify\<close> on. An empty \<open>std::function\<close> is \<open>None\<close>.
\<close>

datatype 'f child_pc =
    C_this | C_name | C_id | C_setname | C_swap
  | C_notify "'f option" | C_task "'f option" | C_done | C_terminate

datatype parent_pc = P_wait | P_ready

text \<open>
  The object (\<open>None\<close> once destroyed), the new thread's locals \<open>t_thread\<close> and \<open>t_thread_name\<close>, the
  name the system shows for it, its id, and the functions it has called.
\<close>

record 'f tsys =
  obj :: "'f thread_obj option"
  ppc :: parent_pc
  cpc :: "'f child_pc"
  t_thread :: bool
  t_thread_name :: string
  kernel_name :: string
  tid_of :: int
  called :: "'f list"

section \<open>Operations\<close>

definition obj_of :: "'f tsys \<Rightarrow> 'f thread_obj res" where
  "obj_of s = (case obj s of None \<Rightarrow> Inl UseAfterFree | Some t \<Rightarrow> Inr t)"

text \<open>\<open>Thread::Thread(func, name)\<close> up to the wait; \<open>tid\<close> is the id the system gives.\<close>

definition Thread_new :: "int \<Rightarrow> int \<Rightarrow> 'f option \<Rightarrow> string \<Rightarrow> 'f tsys res" where
  "Thread_new create_rt tid func name =
     res_bind (Semaphore_new 0) (\<lambda>sem.
       if create_rt \<noteq> 0 then Inl (Thrown ''pthread_create error'')
       else Inr \<lparr>obj = Some \<lparr>m_id = -1, m_thread = True, m_func = func,
                        th_name = (if name = '''' then ''UNKNOW'' else name), m_semaphore = sem\<rparr>,
                 ppc = P_wait, cpc = C_this, t_thread = False, t_thread_name = ''UNKNOW'',
                 kernel_name = '''', tid_of = tid, called = []\<rparr>)"

text \<open>\<open>m_semaphore.wait()\<close> in the constructor; the thread stays there while the value is 0.\<close>

definition Thread_ctor_wait :: "'f tsys \<Rightarrow> 'f tsys res" where
  "Thread_ctor_wait s =
     res_bind (obj_of s) (\<lambda>t. case Semaphore_wait (m_semaphore t) of
        None \<Rightarrow> Inr s
      | Some v \<Rightarrow> Inr (s\<lparr>obj := Some (t\<lparr>m_semaphore := v\<rparr>), ppc := P_ready\<rparr>))"

text \<open>\<open>Thread::run\<close>, one statement.\<close>

definition Thread_run :: "'f tsys \<Rightarrow> 'f tsys res" where
  "Thread_run s = (case cpc s of
       C_this \<Rightarrow> Inr (s\<lparr>t_thread := True, cpc := C_name\<rparr>)
     | C_name \<Rightarrow> res_bind (obj_of s) (\<lambda>t. Inr (s\<lparr>t_thread_name := th_name t, cpc := C_id\<rparr>))
     | C_id \<Rightarrow> res_bind (obj_of s) (\<lambda>t.
         Inr (s\<lparr>obj := Some (t\<lparr>m_id := tid_of s\<rparr>), cpc := C_setname\<rparr>))
     | C_setname \<Rightarrow> res_bind (obj_of s) (\<lambda>t.
         Inr (s\<lparr>kernel_name := substr (th_name t) 0 15, cpc := C_swap\<rparr>))
     | C_swap \<Rightarrow> res_bind (obj_of s) (\<lambda>t.
         Inr (s\<lparr>obj := Some (t\<lparr>m_func := None\<rparr>), cpc := C_notify (m_func t)\<rparr>))
     | C_notify task \<Rightarrow> res_bind (obj_of s) (\<lambda>t.
         res_bind (Semaphore_notify (m_semaphore t)) (\<lambda>v.
           Inr (s\<lparr>obj := Some (t\<lparr>m_semaphore := v\<rparr>), cpc := C_task task\<rparr>)))
     | C_task task \<Rightarrow> (case task of
           Some f \<Rightarrow> Inr (s\<lparr>called := called s @ [f], cpc := C_done\<rparr>)
         | None \<Rightarrow> Inr (s\<lparr>cpc := C_terminate\<rparr>))
     | C_done \<Rightarrow> Inr s
     | C_terminate \<Rightarrow> Inr s)"

text \<open>\<open>Thread::SetName\<close>, \<open>GetName\<close> and \<open>GetThis\<close> on the new thread.\<close>

definition Thread_SetName :: "string \<Rightarrow> 'f tsys \<Rightarrow> 'f tsys res" where
  "Thread_SetName name s =
     (if name = '''' then Inr s
      else if t_thread s then
        res_bind (obj_of s) (\<lambda>t.
          Inr (s\<lparr>obj := Some (t\<lparr>th_name := name\<rparr>), t_thread_name := name\<rparr>))
      else Inr (s\<lparr>t_thread_name := name\<rparr>))"

definition Thread_GetName :: "'f tsys \<Rightarrow> string" where
  "Thread_GetName s = t_thread_name s"

definition Thread_GetThis :: "'f tsys \<Rightarrow> bool" where
  "Thread_GetThis s = t_thread s"

text \<open>
  \<open>join\<close>: \<open>None\<close> while the thread runs. \<open>pthread_join\<close> fails with \<open>join_rt\<close> (its result) non-zero.
\<close>

definition Thread_join :: "int \<Rightarrow> 'f tsys \<Rightarrow> 'f tsys res option" where
  "Thread_join join_rt s = (case obj s of
       None \<Rightarrow> Some (Inl UseAfterFree)
     | Some t \<Rightarrow>
         if \<not> m_thread t then Some (Inr s)
         else if join_rt \<noteq> 0 then Some (Inl (Thrown ''pthread_join error''))
         else if cpc s = C_done then Some (Inr (s\<lparr>obj := Some (t\<lparr>m_thread := False\<rparr>)\<rparr>))
         else None)"

text \<open>\<open>~Thread\<close> detaches a thread that was not joined; either way the object is gone.\<close>

definition Thread_delete :: "'f tsys \<Rightarrow> 'f tsys res" where
  "Thread_delete s = res_bind (obj_of s) (\<lambda>t. Inr (s\<lparr>obj := None\<rparr>))"

section \<open>Interleavings\<close>

text \<open>
  The new thread runs, the creator waits; once the constructor has returned, the owner may join or
  destroy the object at any time.
\<close>

inductive thread_step :: "'f tsys \<Rightarrow> 'f tsys \<Rightarrow> bool" where
  ts_child: "Thread_run s = Inr s' \<Longrightarrow> thread_step s s'"
| ts_wait: "ppc s = P_wait \<Longrightarrow> Thread_ctor_wait s = Inr s' \<Longrightarrow> thread_step s s'"
| ts_join: "ppc s = P_ready \<Longrightarrow> Thread_join 0 s = Some (Inr s') \<Longrightarrow> thread_step s s'"
| ts_delete: "ppc s = P_ready \<Longrightarrow> Thread_delete s = Inr s' \<Longrightarrow> thread_step s s'"

inductive_cases thread_stepE: "thread_step s s'"

inductive thread_reachable :: "int \<Rightarrow> 'f option \<Rightarrow> string \<Rightarrow> 'f tsys \<Rightarrow> bool" for tid func name where
  tr_new: "Thread_new 0 tid func name = Inr s \<Longrightarrow> thread_reachable tid func name s"
| tr_step: "thread_reachable tid func name s \<Longrightarrow> thread_step s s' \<Longrightarrow> thread_reachable tid func name s'"

definition full_name :: "string \<Rightarrow> string" where
  "full_name name = (if name = '''' then ''UNKNOW'' else name)"

text \<open>What holds of the object and the locals at each statement of \<open>run\<close>.\<close>

fun child_rank :: "'f child_pc \<Rightarrow> nat" where
  "child_rank C_this = 0"
| "child_rank C_name = 1"
| "child_rank C_id = 2"
| "child_rank C_setname = 3"
| "child_rank C_swap = 4"
| "child_rank (C_notify t) = 5"
| "child_rank (C_task t) = 6"
| "child_rank C_done = 7"
| "child_rank C_terminate = 7"

definition thread_inv :: "int \<Rightarrow> 'f option \<Rightarrow> string \<Rightarrow> 'f tsys \<Rightarrow> bool" where
  "thread_inv tid func name s \<longleftrightarrow>
     tid_of s = tid \<and>
     (1 \<le> child_rank (cpc s) \<longrightarrow> t_thread s) \<and>
     (2 \<le> child_rank (cpc s) \<longrightarrow> t_thread_name s = full_name name) \<and>
     (4 \<le> child_rank (cpc s) \<longrightarrow> kernel_name s = take 15 (full_name name)) \<and>
     (\<forall>t. cpc s = C_notify t \<or> cpc s = C_task t \<longrightarrow> t = func) \<and>
     called s = (if cpc s = C_done then [the func] else []) \<and>
     (cpc s = C_done \<longrightarrow> func \<noteq> None) \<and> (cpc s = C_terminate \<longrightarrow> func = None) \<and>
     (ppc s = P_ready \<longrightarrow> 6 \<le> child_rank (cpc s)) \<and>
     (ppc s = P_wait \<longrightarrow> obj s \<noteq> None) \<and>
     (\<forall>t. obj s = Some t \<longrightarrow>
        th_name t = full_name name \<and>
        m_id t = (if 3 \<le> child_rank (cpc s) then tid else -1) \<and>
        m_func t = (if 5 \<le> child_rank (cpc s) then None else func) \<and>
        (m_thread t \<or> cpc s = C_done) \<and>
        m_semaphore t = (if ppc s = P_wait \<and> 6 \<le> child_rank (cpc s) then 1 else 0))"

lemma thread_inv_alive:
  assumes "thread_inv tid func name s" and "child_rank (cpc s) \<le> 5"
  shows "ppc s = P_wait \<and> (\<exists>t. obj s = Some t)"
  using assms by (cases "ppc s") (auto simp: thread_inv_def)

lemma Thread_run_total:
  assumes "thread_inv tid func name s"
  shows "\<exists>s'. Thread_run s = Inr s'"
proof (cases "child_rank (cpc s) \<le> 5")
  case True
  from thread_inv_alive [OF assms True] obtain t where t: "ppc s = P_wait" "obj s = Some t" by blast
  with True assms have "m_semaphore t = 0" by (simp add: thread_inv_def)
  with t show ?thesis
    by (cases "cpc s") (simp_all add: Thread_run_def obj_of_def Semaphore_notify_def SEM_VALUE_MAX_def split: option.split)
next
  case False
  then show ?thesis by (cases "cpc s") (simp_all add: Thread_run_def split: option.split)
qed

lemma Thread_run_keeps:
  assumes inv: "thread_inv tid func name s" and step: "Thread_run s = Inr s'"
  shows "thread_inv tid func name s'"
proof (cases "child_rank (cpc s) \<le> 5")
  case True
  from thread_inv_alive [OF inv True] obtain t where t: "ppc s = P_wait" "obj s = Some t" by blast
  with inv True have sem: "m_semaphore t = 0" by (simp add: thread_inv_def)
  show ?thesis
    using step t sem True inv
    by (cases "cpc s"; clarsimp simp: Thread_run_def obj_of_def Semaphore_notify_def SEM_VALUE_MAX_def;
        simp add: thread_inv_def substr_def)
next
  case False
  have fn: "\<And>t. cpc s = C_task t \<Longrightarrow> t = func" using inv by (simp add: thread_inv_def)
  show ?thesis
    using False step inv fn
    by (cases "cpc s"; cases func; clarsimp simp: Thread_run_def; simp add: thread_inv_def; metis option.sel)
qed

lemma Thread_run_inv:
  "thread_inv tid func name s \<Longrightarrow> \<exists>s'. Thread_run s = Inr s' \<and> thread_inv tid func name s'"
  using Thread_run_total Thread_run_keeps by blast

lemma Thread_wait_inv:
  assumes inv: "thread_inv tid func name s" and w: "ppc s = P_wait"
  shows "\<exists>s'. Thread_ctor_wait s = Inr s' \<and> thread_inv tid func name s' \<and>
    (ppc s' = P_ready \<longleftrightarrow> 6 \<le> child_rank (cpc s))"
proof -
  from assms obtain t where t: "obj s = Some t" by (auto simp: thread_inv_def)
  show ?thesis
  proof (cases "6 \<le> child_rank (cpc s)")
    case True
    with inv w t have "m_semaphore t = Suc 0" by (simp add: thread_inv_def)
    with t have "Thread_ctor_wait s = Inr (s\<lparr>obj := Some (t\<lparr>m_semaphore := 0\<rparr>), ppc := P_ready\<rparr>)"
      by (simp add: Thread_ctor_wait_def obj_of_def Semaphore_wait_def)
    with inv t True show ?thesis by (simp add: thread_inv_def)
  next
    case False
    with inv w t have "m_semaphore t = 0" by (simp add: thread_inv_def)
    with t have "Thread_ctor_wait s = Inr s"
      by (simp add: Thread_ctor_wait_def obj_of_def Semaphore_wait_def)
    with inv w False show ?thesis by simp
  qed
qed

lemma thread_step_inv: "thread_step s s' \<Longrightarrow> thread_inv tid func name s \<Longrightarrow> thread_inv tid func name s'"
proof (induction rule: thread_step.induct)
  case (ts_child s s')
  with Thread_run_inv [of tid func name s] show ?case by auto
next
  case (ts_wait s s')
  with Thread_wait_inv [of tid func name s] show ?case by auto
next
  case (ts_join s s')
  then obtain t where t: "obj s = Some t"
    and s': "s' = s \<or> cpc s = C_done \<and> s' = s\<lparr>obj := Some (t\<lparr>m_thread := False\<rparr>)\<rparr>"
    by (auto simp: Thread_join_def split: option.splits if_splits)
  from s' ts_join.prems t show ?case by (elim disjE conjE) (simp_all add: thread_inv_def)
next
  case (ts_delete s s')
  then obtain t where "obj s = Some t" and s': "s' = s\<lparr>obj := None\<rparr>"
    by (auto simp: Thread_delete_def obj_of_def split: option.splits)
  with ts_delete show ?case by (simp add: thread_inv_def)
qed

lemma Thread_new_eq:
  "Thread_new 0 tid func name = Inr \<lparr>obj = Some \<lparr>m_id = -1, m_thread = True, m_func = func,
     th_name = full_name name, m_semaphore = 0\<rparr>, ppc = P_wait, cpc = C_this, t_thread = False,
     t_thread_name = ''UNKNOW'', kernel_name = '''', tid_of = tid, called = []\<rparr>"
  by (simp add: Thread_new_def Semaphore_new_def SEM_VALUE_MAX_def full_name_def)

lemma thread_reachable_inv: "thread_reachable tid func name s \<Longrightarrow> thread_inv tid func name s"
proof (induction rule: thread_reachable.induct)
  case (tr_new s)
  then show ?case by (simp add: Thread_new_eq thread_inv_def eq_commute [of _ s])
qed (rule thread_step_inv)

text \<open>A schedule: \<open>True\<close> is a step of the new thread, \<open>False\<close> one of the constructor's wait.\<close>

fun handshake :: "bool list \<Rightarrow> 'f tsys \<Rightarrow> 'f tsys res" where
  "handshake [] s = Inr s"
| "handshake (b # bs) s =
     res_bind (if b then Thread_run s else if ppc s = P_wait then Thread_ctor_wait s else Inr s) (handshake bs)"

lemma child_rank_le: "child_rank pc \<le> 7"
  by (cases pc) auto

lemma child_rank_run: "Thread_run s = Inr s' \<Longrightarrow> min 7 (Suc (child_rank (cpc s))) = child_rank (cpc s')"
  by (cases "cpc s") (auto simp: Thread_run_def obj_of_def res_bind_Inr_iff split: option.splits)

lemma child_rank_wait: "Thread_ctor_wait s = Inr s' \<Longrightarrow> cpc s' = cpc s"
  by (auto simp: Thread_ctor_wait_def obj_of_def split: option.splits)

lemma ppc_run: "Thread_run s = Inr s' \<Longrightarrow> ppc s' = ppc s"
  by (cases "cpc s") (auto simp: Thread_run_def obj_of_def res_bind_Inr_iff split: option.splits)

lemma handshake_inv:
  "thread_inv tid func name s \<Longrightarrow>
     \<exists>s'. handshake bs s = Inr s' \<and> thread_inv tid func name s' \<and>
       child_rank (cpc s') = min 7 (child_rank (cpc s) + length (filter id bs)) \<and>
       (ppc s = P_ready \<longrightarrow> ppc s' = P_ready)"
proof (induction bs arbitrary: s)
  case (Cons b bs)
  let ?op = "if b then Thread_run s else if ppc s = P_wait then Thread_ctor_wait s else Inr s"
  obtain s1 where s1: "?op = Inr s1" "thread_inv tid func name s1" "ppc s = P_ready \<longrightarrow> ppc s1 = P_ready"
    "child_rank (cpc s1) = (if b then min 7 (Suc (child_rank (cpc s))) else child_rank (cpc s))"
  proof (cases b)
    case True
    with Thread_run_inv [OF Cons.prems] obtain s1 where "Thread_run s = Inr s1" "thread_inv tid func name s1" by blast
    with True that [of s1] child_rank_run [of s s1] ppc_run [of s s1] show thesis by simp
  next
    case False
    show thesis
    proof (cases "ppc s = P_wait")
      case True
      with Thread_wait_inv [OF Cons.prems True] obtain s1
        where "Thread_ctor_wait s = Inr s1" "thread_inv tid func name s1" by blast
      with \<open>\<not> b\<close> True that [of s1] child_rank_wait [of s s1] show thesis by simp
    qed (use False Cons.prems that [of s] in simp)
  qed
  from Cons.IH [OF s1(2)] s1 show ?case by (auto simp: min_def split: if_splits)
qed (simp add: child_rank_le min_absorb2)

section \<open>Properties\<close>

lemma demo_thread_run:
  "\<exists>s0 s. Thread_new 0 42 (Some (7 :: nat)) ''worker'' = Inr s0 \<and>
     handshake [False, True, True, False, True, True, True, True, False, True] s0 = Inr s \<and>
     ppc s = P_ready \<and> (\<exists>t. obj s = Some t)"
  by (simp add: Thread_new_def Semaphore_new_def SEM_VALUE_MAX_def Thread_run_def Thread_ctor_wait_def
      Semaphore_wait_def Semaphore_notify_def obj_of_def)

lemma handshake_reachable:
  "thread_reachable tid func name s \<Longrightarrow> handshake bs s = Inr s' \<Longrightarrow> thread_reachable tid func name s'"
proof (induction bs arbitrary: s)
  case (Cons b bs)
  then obtain s1 where "(if b then Thread_run s else if ppc s = P_wait then Thread_ctor_wait s else Inr s) = Inr s1"
    "handshake bs s1 = Inr s'" by auto
  with Cons show ?case by (auto intro: tr_step ts_child ts_wait split: if_splits)
qed simp

lemma handshake_append: "handshake (xs @ ys) s = res_bind (handshake xs s) (handshake ys)"
  by (induction xs arbitrary: s) (auto simp: res_bind_def split: sum.splits)

text \<open>
  When the constructor of a \<open>Thread\<close> has returned, under every interleaving of the new thread, the
  creator, joins and the destructor, the new thread has \<open>t_thread\<close> and its name set, and the object,
  while it lives, has the id of the new thread and no longer holds the function.
\<close>

theorem thread_ready_after_ctor:
  assumes "thread_reachable tid func name s" and "ppc s = P_ready"
  shows "Thread_GetThis s \<and> Thread_GetName s = (if name = '''' then ''UNKNOW'' else name) \<and>
    kernel_name s = take 15 (Thread_GetName s) \<and>
    (\<forall>t. obj s = Some t \<longrightarrow> m_id t = tid \<and> m_func t = None \<and> th_name t = Thread_GetName s)"
proof -
  have "thread_inv tid func name s" by (rule thread_reachable_inv [OF assms(1)])
  with assms(2) show ?thesis
    by (auto simp: thread_inv_def Thread_GetThis_def Thread_GetName_def full_name_def)
qed

theorem thread_ready_after_ctor_witness:
  "\<exists>s0 s. Thread_new 0 42 (Some (7 :: nat)) ''worker'' = Inr s0 \<and>
     handshake [False, True, True, False, True, True, True, True, False, True] s0 = Inr s \<and>
     Thread_GetName s = ''worker''"
proof -
  obtain s0 s where s: "Thread_new 0 42 (Some (7 :: nat)) ''worker'' = Inr s0"
    "handshake [False, True, True, False, True, True, True, True, False, True] s0 = Inr s" "ppc s = P_ready"
    using demo_thread_run by blast
  from thread_ready_after_ctor [OF handshake_reachable [OF tr_new [OF s(1)] s(2)] s(3)] have "Thread_GetName s = ''worker''" by simp
  with s show ?thesis by blast
qed

text \<open>
  C21. The new thread never faults: it does not touch the object after it has notified the creator, so
  destroying the object as soon as the constructor has returned is safe, and the semaphore does not
  overflow. It calls the function it was given exactly once, and a successful \<open>join\<close> returns only
  after that.
\<close>

theorem thread_runs_task_once:
  assumes "thread_reachable tid func name s"
  shows "(\<exists>s'. Thread_run s = Inr s') \<and>
    called s = (if cpc s = C_done then [the func] else []) \<and>
    (\<forall>t s'. obj s = Some t \<and> m_thread t \<and> Thread_join 0 s = Some (Inr s') \<longrightarrow> called s' = [the func])"
proof -
  have inv: "thread_inv tid func name s" by (rule thread_reachable_inv [OF assms])
  with Thread_run_total [OF inv] show ?thesis
    by (auto simp: thread_inv_def Thread_join_def split: if_splits)
qed

theorem thread_runs_task_once_witness:
  "\<exists>s0. Thread_new 0 42 (Some (7 :: nat)) ''worker'' = Inr s0 \<and> (\<exists>s'. Thread_run s0 = Inr s') \<and> called s0 = []"
proof -
  obtain s0 where s0: "Thread_new 0 42 (Some (7 :: nat)) ''worker'' = Inr s0" using demo_thread_run by blast
  have "cpc s0 = C_this" using s0 by (auto simp: Thread_new_def Semaphore_new_def SEM_VALUE_MAX_def)
  with thread_runs_task_once [OF tr_new [OF s0]] have "(\<exists>s'. Thread_run s0 = Inr s') \<and> called s0 = []" by simp
  with s0 show ?thesis by blast
qed

text \<open>
  The constructor returns: in every interleaving in which the new thread has taken six steps, the
  next step of the waiting creator ends the wait.
\<close>

theorem thread_ctor_returns:
  assumes "Thread_new 0 tid func name = Inr s0" and "6 \<le> length (filter id bs)"
  shows "\<exists>s. handshake (bs @ [False]) s0 = Inr s \<and> ppc s = P_ready"
proof -
  have inv0: "thread_inv tid func name s0" by (rule thread_reachable_inv [OF tr_new [OF assms(1)]])
  from handshake_inv [OF inv0, of bs] assms(2)
  obtain s where s: "handshake bs s0 = Inr s" "thread_inv tid func name s" "6 \<le> child_rank (cpc s)"
    by auto
  show ?thesis
  proof (cases "ppc s")
    case P_wait
    from Thread_wait_inv [OF s(2) P_wait] s P_wait show ?thesis by (auto simp: handshake_append)
  next
    case P_ready
    with s show ?thesis by (simp add: handshake_append)
  qed
qed

theorem thread_ctor_returns_witness:
  "\<exists>s0 s. Thread_new 0 42 (Some (7 :: nat)) ''worker'' = Inr s0 \<and>
     handshake ([True, False, True, True, True, True, True] @ [False]) s0 = Inr s \<and> ppc s = P_ready"
proof -
  obtain s0 where s0: "Thread_new 0 42 (Some (7 :: nat)) ''worker'' = Inr s0" using demo_thread_run by blast
  have "\<exists>s. handshake ([True, False, True, True, True, True, True] @ [False]) s0 = Inr s \<and> ppc s = P_ready"
    by (rule thread_ctor_returns [OF s0]) simp
  with s0 show ?thesis by blast
qed

text \<open>
  \<open>Thread::SetName\<close> called by the thread's function writes to the \<open>Thread\<close> object through
  \<open>t_thread\<close>, which is never cleared: after the object was destroyed (the destructor detaches the
  running thread) it is an access to a dead object, for every non-empty name.
\<close>

theorem SetName_after_delete:
  assumes "thread_reachable tid func name s" and "ppc s = P_ready" and "Thread_delete s = Inr s'"
    and "new_name \<noteq> ''''"
  shows "Thread_SetName new_name s' = Inl UseAfterFree"
proof -
  have "thread_inv tid func name s" by (rule thread_reachable_inv [OF assms(1)])
  with assms(2-4) show ?thesis
    by (auto simp: thread_inv_def Thread_delete_def Thread_SetName_def obj_of_def split: option.splits)
qed

theorem SetName_after_delete_witness:
  "\<exists>s0 s s'. Thread_new 0 42 (Some (7 :: nat)) ''worker'' = Inr s0 \<and> Thread_delete s = Inr s' \<and>
     handshake [False, True, True, False, True, True, True, True, False, True] s0 = Inr s \<and>
     Thread_SetName ''x'' s' = Inl UseAfterFree"
proof -
  obtain s0 s t where s: "Thread_new 0 42 (Some (7 :: nat)) ''worker'' = Inr s0"
    "handshake [False, True, True, False, True, True, True, True, False, True] s0 = Inr s" "ppc s = P_ready"
    "obj s = Some t"
    using demo_thread_run by blast
  then obtain s' where s': "Thread_delete s = Inr s'" by (auto simp: Thread_delete_def obj_of_def)
  have "Thread_SetName ''x'' s' = Inl UseAfterFree"
    by (rule SetName_after_delete [OF handshake_reachable [OF tr_new [OF s(1)] s(2)] s(3) s']) simp
  with s s' show ?thesis by blast
qed

end
