(* ===== verification/SchedulerStart.thy ===== *)
theory SchedulerStart imports Scheduler ThreadModel begin

text \<open>
  \<open>Scheduler::start\<close> in detail: it holds \<open>m_mutex\<close> while it makes the \<open>Thread\<close>s one after the other, and each
  constructor waits for its new thread, whose function \<open>Scheduler::run\<close> locks \<open>m_mutex\<close> in turn. The starting
  thread and the new threads interleave at the steps of theory ThreadModel and at the lock; the result is that
  this refines the one step \<open>Scheduler_start\<close> of theory Scheduler, and that it ends.
\<close>

section \<open>The starting thread and its workers\<close>

datatype start_pc = S_begin | S_create nat | S_wait nat | S_id nat | S_unlock | S_done

text \<open>
  A new thread that has called its function: at the head of the loop of \<open>run\<close>, where it locks \<open>m_mutex\<close> to
  take a task; with the mutex; elsewhere in the loop. It does not leave the loop, since \<open>m_stopping\<close> is
  false.
\<close>

datatype run_pc = RN_top | RN_locked | RN_away

record 'a start_sys =
  sd :: "'a sched"
  mtx :: mutex
  spc :: start_pc
  kids :: "unit tsys list"
  kpc :: "run_pc list"

definition worker_name :: "(nat \<Rightarrow> string) \<Rightarrow> 'a sched \<Rightarrow> nat \<Rightarrow> string" where
  "worker_name to_string s i = m_name s @ ''_'' @ to_string i"

text \<open>
  One step of the starting thread. The mutex knows it as 0 and the new threads as 1, 2, ...; \<open>create_rt\<close> gives the
  results of \<open>pthread_create\<close>, \<open>tids\<close> the ids of the threads. An exception of a constructor leaves \<open>start\<close>.
\<close>

definition start_step :: "(nat \<Rightarrow> string) \<Rightarrow> (nat \<Rightarrow> int) \<Rightarrow> (nat \<Rightarrow> int) \<Rightarrow> 'a start_sys \<Rightarrow> 'a start_sys res" where
  "start_step to_string create_rt tids s = (case spc s of
       S_begin \<Rightarrow> (case Mutex_lock 0 (mtx s) of
           None \<Rightarrow> Inr s
         | Some m \<Rightarrow>
             if \<not> m_stopping (sd s) then Inr (s\<lparr>mtx := m, spc := S_unlock\<rparr>)
             else lionet_assert (m_threads (sd s) = [])
               (Inr (s\<lparr>mtx := m, sd := (sd s)\<lparr>m_stopping := False\<rparr>, spc := S_create 0\<rparr>)))
     | S_create i \<Rightarrow>
         if i < m_threadCount (sd s) then
           res_bind (Thread_new (create_rt i) (tids i) (Some ()) (worker_name to_string (sd s) i)) (\<lambda>t.
             Inr (s\<lparr>kids := kids s @ [t], kpc := kpc s @ [RN_top], spc := S_wait i\<rparr>))
         else Inr (s\<lparr>spc := S_unlock\<rparr>)
     | S_wait i \<Rightarrow> res_bind (Thread_ctor_wait (kids s ! i)) (\<lambda>t.
         Inr (s\<lparr>kids := (kids s)[i := t], spc := (if ppc t = P_ready then S_id i else S_wait i)\<rparr>))
     | S_id i \<Rightarrow> res_bind (obj_of (kids s ! i)) (\<lambda>t.
         Inr (s\<lparr>sd := (sd s)\<lparr>m_threads := m_threads (sd s) @ [worker_name to_string (sd s) i],
                              m_threadIds := m_threadIds (sd s) @ [m_id t]\<rparr>,
                spc := S_create (Suc i)\<rparr>))
     | S_unlock \<Rightarrow> Inr (s\<lparr>mtx := Mutex_unlock (mtx s), spc := S_done\<rparr>)
     | S_done \<Rightarrow> Inr s)"

text \<open>One step of the new thread \<open>i\<close>: of \<open>Thread::run\<close> up to the call of its function, then of the loop of \<open>Scheduler::run\<close>.\<close>

definition kid_step :: "nat \<Rightarrow> 'a start_sys \<Rightarrow> 'a start_sys res" where
  "kid_step i s =
     (if i < length (kids s) then
        (case cpc (kids s ! i) of
           C_task (Some _) \<Rightarrow> (case kpc s ! i of
               RN_top \<Rightarrow> (case Mutex_lock (Suc i) (mtx s) of
                   None \<Rightarrow> Inr s
                 | Some m \<Rightarrow> Inr (s\<lparr>mtx := m, kpc := (kpc s)[i := RN_locked]\<rparr>))
             | RN_locked \<Rightarrow> Inr (s\<lparr>mtx := Mutex_unlock (mtx s), kpc := (kpc s)[i := RN_away]\<rparr>)
             | RN_away \<Rightarrow> Inr (s\<lparr>kpc := (kpc s)[i := RN_top]\<rparr>))
         | _ \<Rightarrow> res_bind (Thread_run (kids s ! i)) (\<lambda>t. Inr (s\<lparr>kids := (kids s)[i := t]\<rparr>)))
      else Inr s)"

text \<open>A schedule: 0 is a step of the starting thread, \<open>Suc i\<close> one of the new thread \<open>i\<close>.\<close>

definition any_step :: "(nat \<Rightarrow> string) \<Rightarrow> (nat \<Rightarrow> int) \<Rightarrow> (nat \<Rightarrow> int) \<Rightarrow> nat \<Rightarrow> 'a start_sys \<Rightarrow> 'a start_sys res" where
  "any_step to_string create_rt tids j s =
     (case j of 0 \<Rightarrow> start_step to_string create_rt tids s | Suc i \<Rightarrow> kid_step i s)"

fun start_run ::
    "(nat \<Rightarrow> string) \<Rightarrow> (nat \<Rightarrow> int) \<Rightarrow> (nat \<Rightarrow> int) \<Rightarrow> nat list \<Rightarrow> 'a start_sys \<Rightarrow> 'a start_sys res" where
  "start_run to_string create_rt tids [] s = Inr s"
| "start_run to_string create_rt tids (j # js) s =
     res_bind (any_step to_string create_rt tids j s) (start_run to_string create_rt tids js)"

definition start_new :: "'a sched \<Rightarrow> 'a start_sys" where
  "start_new d = \<lparr>sd = d, mtx = Mutex_new, spc = S_begin, kids = [], kpc = []\<rparr>"

section \<open>The invariant\<close>

text \<open>
  How many threads the starting thread has made and how many of them it has entered in the scheduler, and
  the scheduler it has made so far.
\<close>

fun made :: "nat \<Rightarrow> start_pc \<Rightarrow> nat" where
  "made n S_begin = 0"
| "made n (S_create i) = i"
| "made n (S_wait i) = Suc i"
| "made n (S_id i) = Suc i"
| "made n S_unlock = n"
| "made n S_done = n"

fun entered :: "nat \<Rightarrow> start_pc \<Rightarrow> nat" where
  "entered n (S_wait i) = i"
| "entered n (S_id i) = i"
| "entered n pc = made n pc"

definition started :: "(nat \<Rightarrow> string) \<Rightarrow> (nat \<Rightarrow> int) \<Rightarrow> nat \<Rightarrow> 'a sched \<Rightarrow> 'a sched" where
  "started to_string tids i d =
     d\<lparr>m_stopping := False, m_threads := map (worker_name to_string d) [0..<i],
       m_threadIds := m_threadIds d @ map tids [0..<i]\<rparr>"

text \<open>Every new thread is in the state its handshake allows, and those entered are ready.\<close>

definition kids_ok :: "(nat \<Rightarrow> string) \<Rightarrow> (nat \<Rightarrow> int) \<Rightarrow> 'a sched \<Rightarrow> 'a start_sys \<Rightarrow> bool" where
  "kids_ok to_string tids d s \<longleftrightarrow>
     length (kids s) = made (m_threadCount d) (spc s) \<and> length (kpc s) = length (kids s) \<and>
     (\<forall>i < length (kids s). thread_inv (tids i) (Some ()) (worker_name to_string d i) (kids s ! i) \<and>
        obj (kids s ! i) \<noteq> None \<and> child_rank (cpc (kids s ! i)) \<le> 6 \<and>
        (ppc (kids s ! i) = P_wait \<longleftrightarrow> spc s = S_wait i))"

text \<open>
  Until it is done the starting thread has the mutex, and no worker has; afterwards the mutex tells which
  worker has it.
\<close>

definition mtx_ok :: "'a start_sys \<Rightarrow> bool" where
  "mtx_ok s \<longleftrightarrow> (if spc s = S_begin then mtx s = None
     else if spc s = S_done then mtx s \<noteq> Some 0 \<and> (\<forall>i < length (kids s). kpc s ! i = RN_locked \<longleftrightarrow> mtx s = Some (Suc i))
     else mtx s = Some 0 \<and> (\<forall>i < length (kids s). kpc s ! i \<noteq> RN_locked))"

definition start_inv :: "(nat \<Rightarrow> string) \<Rightarrow> (nat \<Rightarrow> int) \<Rightarrow> 'a sched \<Rightarrow> 'a start_sys \<Rightarrow> bool" where
  "start_inv to_string tids d s \<longleftrightarrow> kids_ok to_string tids d s \<and> mtx_ok s \<and>
     sd s = (if spc s = S_begin then d else started to_string tids (entered (m_threadCount d) (spc s)) d) \<and>
     (\<forall>i. spc s = S_create i \<longrightarrow> i \<le> m_threadCount d) \<and>
     (\<forall>i. spc s = S_wait i \<or> spc s = S_id i \<longrightarrow> i < m_threadCount d)"


lemma run_keeps_obj: "Thread_run t = Inr t' \<Longrightarrow> obj t \<noteq> None \<Longrightarrow> obj t' \<noteq> None"
  by (cases "cpc t") (auto simp: Thread_run_def obj_of_def res_bind_Inr_iff split: option.splits)

text \<open>What is asked of one new thread.\<close>

definition kid_ok :: "(nat \<Rightarrow> string) \<Rightarrow> (nat \<Rightarrow> int) \<Rightarrow> 'a sched \<Rightarrow> nat \<Rightarrow> unit tsys \<Rightarrow> bool" where
  "kid_ok to_string tids d i t \<longleftrightarrow> thread_inv (tids i) (Some ()) (worker_name to_string d i) t \<and>
     obj t \<noteq> None \<and> child_rank (cpc t) \<le> 6"

lemma kids_ok_alt:
  "kids_ok to_string tids d s \<longleftrightarrow>
     length (kids s) = made (m_threadCount d) (spc s) \<and> length (kpc s) = length (kids s) \<and>
     (\<forall>i < length (kids s). kid_ok to_string tids d i (kids s ! i) \<and>
        (ppc (kids s ! i) = P_wait \<longleftrightarrow> spc s = S_wait i))"
  by (auto simp: kids_ok_def kid_ok_def)

lemma kid_run:
  assumes "kid_ok to_string tids d i t" and "child_rank (cpc t) < 6"
  shows "\<exists>t'. Thread_run t = Inr t' \<and> kid_ok to_string tids d i t' \<and> ppc t' = ppc t \<and>
    child_rank (cpc t') = Suc (child_rank (cpc t))"
proof -
  from Thread_run_inv [of "tids i" "Some ()" "worker_name to_string d i" t] assms(1) obtain t' where
    t': "Thread_run t = Inr t'" "thread_inv (tids i) (Some ()) (worker_name to_string d i) t'"
    by (auto simp: kid_ok_def)
  with child_rank_run [OF t'(1)] ppc_run [OF t'(1)] run_keeps_obj [OF t'(1)] assms show ?thesis
    by (simp add: kid_ok_def)
qed

lemma kid_in_run:
  assumes "kid_ok to_string tids d i t" and "\<not> child_rank (cpc t) < 6"
  shows "cpc t = C_task (Some ())"
  using assms by (cases "cpc t") (auto simp: kid_ok_def thread_inv_def)

lemma kid_step_early:
  assumes "i < length (kids s)" and "child_rank (cpc (kids s ! i)) < 6"
  shows "kid_step i s = res_bind (Thread_run (kids s ! i)) (\<lambda>t. Inr (s\<lparr>kids := (kids s)[i := t]\<rparr>))"
  using assms by (cases "cpc (kids s ! i)") (simp_all add: kid_step_def)

lemma kids_ok_update:
  assumes "kids_ok to_string tids d s" and "i < length (kids s)" and "kid_ok to_string tids d i t'"
    and "ppc t' = ppc (kids s ! i)"
  shows "kids_ok to_string tids d (s\<lparr>kids := (kids s)[i := t']\<rparr>)"
  using assms by (auto simp: kids_ok_alt nth_list_update)

text \<open>A step of a new thread: \<open>Scheduler::run\<close> changes nothing but the mutex and its own place.\<close>

lemma kid_step_run:
  assumes "start_inv to_string tids d s" and "i < length (kids s)" and "cpc (kids s ! i) = C_task (Some ())"
  shows "\<exists>s'. kid_step i s = Inr s' \<and> start_inv to_string tids d s' \<and> spc s' = spc s \<and> kids s' = kids s"
proof (cases "kpc s ! i")
  case RN_top
  show ?thesis
  proof (cases "mtx s")
    case None
    then have "spc s = S_done \<or> spc s = S_begin" using assms(1) by (auto simp: start_inv_def mtx_ok_def split: if_splits)
    with assms have d: "spc s = S_done" by (auto simp: start_inv_def kids_ok_def)
    let ?s = "s\<lparr>mtx := Some (Suc i), kpc := (kpc s)[i := RN_locked]\<rparr>"
    have "kid_step i s = Inr ?s" using assms(2,3) RN_top None by (simp add: kid_step_def Mutex_lock_def)
    moreover have "start_inv to_string tids d ?s" using assms(1,2) d None
      by (auto simp: start_inv_def kids_ok_def mtx_ok_def nth_list_update)
    ultimately show ?thesis by auto
  next
    case (Some m)
    with assms RN_top show ?thesis by (simp add: kid_step_def Mutex_lock_def)
  qed
next
  case RN_locked
  then have d: "spc s = S_done" "mtx s = Some (Suc i)" using assms(1,2)
    by (auto simp: start_inv_def mtx_ok_def kids_ok_def split: if_splits)
  let ?s = "s\<lparr>mtx := None, kpc := (kpc s)[i := RN_away]\<rparr>"
  have "kid_step i s = Inr ?s" using assms(2,3) RN_locked by (simp add: kid_step_def Mutex_unlock_def)
  moreover have "start_inv to_string tids d ?s" using assms(1,2) d
    by (auto simp: start_inv_def kids_ok_def mtx_ok_def nth_list_update)
  ultimately show ?thesis by auto
next
  case RN_away
  let ?s = "s\<lparr>kpc := (kpc s)[i := RN_top]\<rparr>"
  have "kid_step i s = Inr ?s" using assms(2,3) RN_away by (simp add: kid_step_def)
  moreover have "start_inv to_string tids d ?s"
  proof -
    have "length (kpc s) = length (kids s)" using assms(1) by (simp add: start_inv_def kids_ok_def)
    then have "kpc ?s ! j = RN_locked \<longleftrightarrow> kpc s ! j = RN_locked" if "j < length (kids s)" for j
      using RN_away that assms(2) by (auto simp: nth_list_update)
    then have "mtx_ok ?s \<longleftrightarrow> mtx_ok s" by (simp add: mtx_ok_def)
    with assms(1) show ?thesis by (simp add: start_inv_def kids_ok_def)
  qed
  ultimately show ?thesis by auto
qed


section \<open>Progress\<close>

text \<open>
  What the starting thread still has to do, with the statements that the new thread it waits for has to take
  first, and the thread whose step comes next.
\<close>

definition start_left :: "nat \<Rightarrow> 'a start_sys \<Rightarrow> nat" where
  "start_left n s = (case spc s of
       S_begin \<Rightarrow> 10 * n + 3
     | S_create i \<Rightarrow> 10 * (n - i) + 2
     | S_wait i \<Rightarrow> 10 * (n - i) + 1 - child_rank (cpc (kids s ! i))
     | S_id i \<Rightarrow> 10 * (n - i) - 6
     | S_unlock \<Rightarrow> 1
     | S_done \<Rightarrow> 0)"

definition next_thread :: "'a start_sys \<Rightarrow> nat" where
  "next_thread s = (case spc s of
       S_wait i \<Rightarrow> if child_rank (cpc (kids s ! i)) < 6 then Suc i else 0
     | _ \<Rightarrow> 0)"

lemma kid_progress:
  assumes inv: "start_inv to_string tids d s"
  shows "\<exists>s'. kid_step i s = Inr s' \<and> start_inv to_string tids d s' \<and> spc s' = spc s \<and>
    (if next_thread s = Suc i then start_left (m_threadCount d) s' < start_left (m_threadCount d) s
     else start_left (m_threadCount d) s' = start_left (m_threadCount d) s \<and> next_thread s' = next_thread s)"
proof (cases "i < length (kids s)")
  case False
  have "next_thread s \<noteq> Suc i" using False inv
    by (auto simp: next_thread_def start_inv_def kids_ok_def split: start_pc.splits)
  with False inv show ?thesis by (simp add: kid_step_def)
next
  case True
  have k: "kid_ok to_string tids d i (kids s ! i)" using inv True by (simp add: start_inv_def kids_ok_alt)
  show ?thesis
  proof (cases "child_rank (cpc (kids s ! i)) < 6")
    case lt: True
    from kid_run [OF k lt] obtain t' where t': "Thread_run (kids s ! i) = Inr t'" "kid_ok to_string tids d i t'"
      "ppc t' = ppc (kids s ! i)" "child_rank (cpc t') = Suc (child_rank (cpc (kids s ! i)))" by blast
    let ?s = "s\<lparr>kids := (kids s)[i := t']\<rparr>"
    have "kid_step i s = Inr ?s" using kid_step_early [OF True lt] t'(1) by simp
    moreover have "start_inv to_string tids d ?s"
      using inv kids_ok_update [OF _ True t'(2,3)] by (simp add: start_inv_def mtx_ok_def)
    moreover have "if next_thread s = Suc i then start_left (m_threadCount d) ?s < start_left (m_threadCount d) s
      else start_left (m_threadCount d) ?s = start_left (m_threadCount d) s \<and> next_thread ?s = next_thread s"
    proof (cases "spc s = S_wait i")
      case w: True
      then have "i < m_threadCount d" using inv by (simp add: start_inv_def)
      with w lt t'(4) True show ?thesis by (auto simp: start_left_def next_thread_def)
    next
      case False
      with True show ?thesis by (auto simp: start_left_def next_thread_def split: start_pc.split)
    qed
    ultimately show ?thesis by auto
  next
    case False
    from kid_step_run [OF inv True kid_in_run [OF k False]] obtain s' where
      s': "kid_step i s = Inr s'" "start_inv to_string tids d s'" "spc s' = spc s" "kids s' = kids s" by blast
    have "next_thread s \<noteq> Suc i" using False by (auto simp: next_thread_def split: start_pc.splits if_splits)
    with s' show ?thesis by (simp add: start_left_def next_thread_def cong: start_pc.case_cong)
  qed
qed

text \<open>The steps of the starting thread.\<close>

lemma name_full: "full_name (worker_name to_string d i) = worker_name to_string d i"
  by (simp add: full_name_def worker_name_def)

lemma started_sel [simp]:
  "m_stopping (started to_string tids i d) = False" "m_threadCount (started to_string tids i d) = m_threadCount d"
  "m_threads (started to_string tids i d) = map (worker_name to_string d) [0..<i]"
  "m_threadIds (started to_string tids i d) = m_threadIds d @ map tids [0..<i]"
  "worker_name to_string (started to_string tids i d) = worker_name to_string d"
  by (simp_all add: started_def worker_name_def fun_eq_iff)

lemma started_0: "m_stopping d \<Longrightarrow> m_threads d = [] \<Longrightarrow> started to_string tids 0 d = d\<lparr>m_stopping := False\<rparr>"
  by (simp add: started_def)

lemma started_Suc:
  "(started to_string tids i d)\<lparr>m_threads := map (worker_name to_string d) [0..<i] @ [worker_name to_string d i],
     m_threadIds := m_threadIds d @ map tids [0..<i] @ [tids i]\<rparr> = started to_string tids (Suc i) d"
  by (simp add: started_def)

lemma new_kid:
  "\<exists>t. Thread_new 0 (tids i) (Some ()) (worker_name to_string d i) = Inr t \<and> kid_ok to_string tids d i t \<and>
     ppc t = P_wait \<and> child_rank (cpc t) = 0"
  by (simp add: Thread_new_eq kid_ok_def thread_inv_def name_full)

lemma start_progress:
  assumes inv: "start_inv to_string tids d s" and d: "m_stopping d" "m_threads d = []" and rt: "\<forall>i. create_rt i = 0"
  shows "\<exists>s'. start_step to_string create_rt tids s = Inr s' \<and> start_inv to_string tids d s' \<and>
    (if next_thread s = 0 \<and> spc s \<noteq> S_done then start_left (m_threadCount d) s' < start_left (m_threadCount d) s
     else start_left (m_threadCount d) s' = start_left (m_threadCount d) s \<and> next_thread s' = next_thread s)"
proof (cases "spc s")
  case S_begin
  let ?s = "s\<lparr>mtx := Some 0, sd := d\<lparr>m_stopping := False\<rparr>, spc := S_create 0\<rparr>"
  have "start_step to_string create_rt tids s = Inr ?s"
    using inv d S_begin by (simp add: start_step_def start_inv_def mtx_ok_def Mutex_lock_def)
  moreover have "start_inv to_string tids d ?s"
    using inv d S_begin by (simp add: start_inv_def mtx_ok_def kids_ok_def started_0)
  ultimately show ?thesis using S_begin by (simp add: start_left_def next_thread_def)
next
  case (S_create i)
  have sd: "sd s = started to_string tids i d" and i: "i \<le> m_threadCount d" and l: "length (kids s) = i" "length (kpc s) = i"
    using inv S_create by (simp_all add: start_inv_def kids_ok_def)
  show ?thesis
  proof (cases "i < m_threadCount d")
    case True
    from new_kid obtain t where t: "Thread_new 0 (tids i) (Some ()) (worker_name to_string d i) = Inr t"
      "kid_ok to_string tids d i t" "ppc t = P_wait" "child_rank (cpc t) = 0" by blast
    let ?s = "s\<lparr>kids := kids s @ [t], kpc := kpc s @ [RN_top], spc := S_wait i\<rparr>"
    have "start_step to_string create_rt tids s = Inr ?s"
      using S_create True t(1) rt sd by (simp add: start_step_def)
    moreover have "start_inv to_string tids d ?s"
      using inv S_create True t(2,3) l sd
      by (auto simp: start_inv_def mtx_ok_def kids_ok_alt nth_append less_Suc_eq)
    ultimately show ?thesis using S_create True l t(4) by (simp add: start_left_def next_thread_def)
  next
    case False
    with i have n: "i = m_threadCount d" by simp
    have "start_step to_string create_rt tids s = Inr (s\<lparr>spc := S_unlock\<rparr>)"
      using S_create False sd by (simp add: start_step_def)
    moreover have "start_inv to_string tids d (s\<lparr>spc := S_unlock\<rparr>)"
      using inv S_create n by (simp add: start_inv_def mtx_ok_def kids_ok_def)
    ultimately show ?thesis using S_create by (simp add: start_left_def next_thread_def)
  qed
next
  case (S_wait i)
  have i: "i < m_threadCount d" "length (kids s) = Suc i" using inv S_wait by (auto simp: start_inv_def kids_ok_def)
  have k: "kid_ok to_string tids d i (kids s ! i)" "ppc (kids s ! i) = P_wait"
    using inv S_wait i by (simp_all add: start_inv_def kids_ok_alt)
  then have "thread_inv (tids i) (Some ()) (worker_name to_string d i) (kids s ! i)" by (simp add: kid_ok_def)
  from Thread_wait_inv [OF this k(2)] obtain t where t: "Thread_ctor_wait (kids s ! i) = Inr t"
    "thread_inv (tids i) (Some ()) (worker_name to_string d i) t"
    "ppc t = P_ready \<longleftrightarrow> 6 \<le> child_rank (cpc (kids s ! i))" by blast
  have c: "cpc t = cpc (kids s ! i)" by (rule child_rank_wait [OF t(1)])
  have o: "obj t \<noteq> None" using t(1) by (auto simp: Thread_ctor_wait_def obj_of_def split: option.splits)
  have ok: "kid_ok to_string tids d i t" using t(2) c o k(1) by (simp add: kid_ok_def)
  let ?s = "s\<lparr>kids := (kids s)[i := t], spc := (if ppc t = P_ready then S_id i else S_wait i)\<rparr>"
  have "start_step to_string create_rt tids s = Inr ?s" using S_wait t(1) by (simp add: start_step_def)
  moreover have "start_inv to_string tids d ?s"
    using inv S_wait ok i
    by (cases "ppc t") (auto simp: start_inv_def mtx_ok_def kids_ok_alt nth_list_update)
  moreover have "if next_thread s = 0 \<and> spc s \<noteq> S_done then start_left (m_threadCount d) ?s < start_left (m_threadCount d) s
      else start_left (m_threadCount d) ?s = start_left (m_threadCount d) s \<and> next_thread ?s = next_thread s"
    using S_wait i t(3) c k(1) by (auto simp: start_left_def next_thread_def kid_ok_def)
  ultimately show ?thesis by blast
next
  case (S_id i)
  have sd: "sd s = started to_string tids i d" and i: "i < m_threadCount d" "length (kids s) = Suc i"
    using inv S_id by (auto simp: start_inv_def kids_ok_def)
  have k: "kid_ok to_string tids d i (kids s ! i)" "ppc (kids s ! i) = P_ready"
    using inv S_id i by (auto simp: start_inv_def kids_ok_alt intro: parent_pc.exhaust)
  then obtain t where t: "obj (kids s ! i) = Some t" "m_id t = tids i" by (auto simp: kid_ok_def thread_inv_def)
  let ?s = "s\<lparr>sd := started to_string tids (Suc i) d, spc := S_create (Suc i)\<rparr>"
  have "start_step to_string create_rt tids s = Inr ?s"
    using S_id t sd by (simp add: start_step_def obj_of_def started_Suc)
  moreover have "start_inv to_string tids d ?s"
    using inv S_id i k(2) by (auto simp: start_inv_def mtx_ok_def kids_ok_alt)
  ultimately show ?thesis using S_id i by (simp add: start_left_def next_thread_def)
next
  case S_unlock
  let ?s = "s\<lparr>mtx := None, spc := S_done\<rparr>"
  have "start_step to_string create_rt tids s = Inr ?s" using S_unlock by (simp add: start_step_def Mutex_unlock_def)
  moreover have "start_inv to_string tids d ?s"
    using inv S_unlock by (auto simp: start_inv_def mtx_ok_def kids_ok_alt)
  ultimately show ?thesis using S_unlock by (simp add: start_left_def next_thread_def)
next
  case S_done
  with inv show ?thesis by (simp add: start_step_def)
qed


lemma any_progress:
  assumes "start_inv to_string tids d s" and "m_stopping d" "m_threads d = []" and "\<forall>i. create_rt i = 0"
  shows "\<exists>s'. any_step to_string create_rt tids j s = Inr s' \<and> start_inv to_string tids d s' \<and>
    (if next_thread s = j \<and> spc s \<noteq> S_done then start_left (m_threadCount d) s' < start_left (m_threadCount d) s
     else start_left (m_threadCount d) s' = start_left (m_threadCount d) s \<and> next_thread s' = next_thread s)"
proof (cases j)
  case 0
  with start_progress [OF assms] show ?thesis by (simp add: any_step_def)
next
  case (Suc i)
  have "spc s \<noteq> S_done" if "next_thread s = Suc i" using that by (auto simp: next_thread_def)
  with kid_progress [OF assms(1), of i] Suc show ?thesis by (auto simp: any_step_def)
qed

lemma start_left_0: "start_inv to_string tids d s \<Longrightarrow> start_left (m_threadCount d) s = 0 \<longleftrightarrow> spc s = S_done"
  by (cases "spc s") (force simp: start_left_def start_inv_def kids_ok_def)+

text \<open>A run keeps the invariant, and gets further when the thread that is next takes a step in it.\<close>

lemma start_run_inv:
  assumes "start_inv to_string tids d s" and d: "m_stopping d" "m_threads d = []" and rt: "\<forall>i. create_rt i = 0"
  shows "\<exists>s'. start_run to_string create_rt tids js s = Inr s' \<and> start_inv to_string tids d s' \<and>
    start_left (m_threadCount d) s' \<le> start_left (m_threadCount d) s \<and>
    (next_thread s \<in> set js \<and> spc s \<noteq> S_done \<longrightarrow> start_left (m_threadCount d) s' < start_left (m_threadCount d) s)"
  using assms(1)
proof (induction js arbitrary: s)
  case (Cons j js)
  let ?l = "start_left (m_threadCount d)"
  from any_progress [where j = j, OF Cons.prems d rt] obtain s1 where
    1: "any_step to_string create_rt tids j s = Inr s1" "start_inv to_string tids d s1"
      "if next_thread s = j \<and> spc s \<noteq> S_done then ?l s1 < ?l s else ?l s1 = ?l s \<and> next_thread s1 = next_thread s"
    by blast
  from Cons.IH [OF 1(2)] obtain s2 where
    2: "start_run to_string create_rt tids js s1 = Inr s2" "start_inv to_string tids d s2" "?l s2 \<le> ?l s1"
      "next_thread s1 \<in> set js \<and> spc s1 \<noteq> S_done \<longrightarrow> ?l s2 < ?l s1"
    by blast
  have "spc s1 \<noteq> S_done" if "?l s1 = ?l s" "spc s \<noteq> S_done"
    using that start_left_0 [OF 1(2)] start_left_0 [OF Cons.prems] by simp
  with 1 2 show ?case by (auto split: if_splits)
qed auto

lemma start_inv_new: "start_inv to_string tids d (start_new d)"
  by (simp add: start_inv_def start_new_def kids_ok_def mtx_ok_def Mutex_new_def)

text \<open>In a round every thread takes a step.\<close>

definition start_round :: "nat \<Rightarrow> nat list \<Rightarrow> bool" where
  "start_round n r \<longleftrightarrow> {..n} \<subseteq> set r"

lemma next_thread_le: "start_inv to_string tids d s \<Longrightarrow> next_thread s \<le> m_threadCount d"
  by (auto simp: next_thread_def start_inv_def split: start_pc.split)

lemma start_run_append:
  "start_run to_string create_rt tids (js @ ks) s = res_bind (start_run to_string create_rt tids js s) (start_run to_string create_rt tids ks)"
  by (induction js arbitrary: s) (auto simp: res_bind_def split: sum.splits)

lemma rounds_finish_start:
  assumes "start_inv to_string tids d s" and d: "m_stopping d" "m_threads d = []" and rt: "\<forall>i. create_rt i = 0"
    and "\<forall>r\<in>set rounds. start_round (m_threadCount d) r" and "start_left (m_threadCount d) s \<le> length rounds"
  shows "\<exists>s'. start_run to_string create_rt tids (concat rounds) s = Inr s' \<and> start_inv to_string tids d s' \<and> spc s' = S_done"
  using assms(1,5,6)
proof (induction rounds arbitrary: s)
  case Nil
  then show ?case using start_left_0 [OF Nil(1)] by simp
next
  case (Cons r rs)
  from start_run_inv [OF Cons.prems(1) d rt, where js = r] obtain s1 where
    1: "start_run to_string create_rt tids r s = Inr s1" "start_inv to_string tids d s1"
      "start_left (m_threadCount d) s1 \<le> start_left (m_threadCount d) s"
      "next_thread s \<in> set r \<and> spc s \<noteq> S_done \<longrightarrow> start_left (m_threadCount d) s1 < start_left (m_threadCount d) s"
    by blast
  have "next_thread s \<in> set r" using next_thread_le [OF Cons.prems(1)] Cons.prems(2) by (auto simp: start_round_def)
  with 1(3,4) start_left_0 [OF Cons.prems(1)] Cons.prems(3) have "start_left (m_threadCount d) s1 \<le> length rs"
    by (cases "spc s = S_done") auto
  from Cons.IH [OF 1(2) _ this] Cons.prems(2) 1(1) show ?case by (simp add: start_run_append)
qed

section \<open>Properties\<close>

text \<open>
  C8. \<open>start\<close> makes its workers although it holds the mutex that they need: under every interleaving of the
  starting thread and the new threads none of them faults and no worker gets the mutex before \<open>start\<close> has released it; and after \<open>10 n + 3\<close>
  rounds, in each of which every thread has taken a step, \<open>start\<close> has returned, the scheduler is the one that the
  single step \<open>Scheduler_start\<close> makes, and all \<open>n\<close> threads are ready, with the ids and names that the scheduler
  recorded.
\<close>

theorem start_refines_Scheduler_start:
  assumes "m_stopping d" and "m_threads d = []" and "\<forall>i. create_rt i = 0"
  shows "(\<exists>s. start_run to_string create_rt tids js (start_new d) = Inr s \<and>
      (spc s \<noteq> S_done \<longrightarrow> (\<forall>i < length (kids s). kpc s ! i \<noteq> RN_locked))) \<and>
    ((\<forall>r\<in>set rounds. start_round (m_threadCount d) r) \<and> 10 * m_threadCount d + 3 \<le> length rounds \<longrightarrow>
      (\<exists>s. start_run to_string create_rt tids (concat rounds) (start_new d) = Inr s \<and> spc s = S_done \<and>
        Scheduler_start to_string tids d = Inr (sd s) \<and> length (kids s) = m_threadCount d \<and>
        (\<forall>i < m_threadCount d. ppc (kids s ! i) = P_ready \<and>
           Thread_GetName (kids s ! i) = m_threads (sd s) ! i \<and>
           (\<exists>t. obj (kids s ! i) = Some t \<and> m_threadIds (sd s) ! (length (m_threadIds d) + i) = m_id t))))"
proof (intro conjI impI)
  from start_run_inv [OF start_inv_new assms, where js = js] obtain s where
    s: "start_run to_string create_rt tids js (start_new d) = Inr s" "start_inv to_string tids d s" by blast
  then have "\<forall>i < length (kids s). kpc s ! i \<noteq> RN_locked" if "spc s \<noteq> S_done"
    using that by (auto simp: start_inv_def mtx_ok_def kids_ok_def split: if_splits)
  with s show "\<exists>s. start_run to_string create_rt tids js (start_new d) = Inr s \<and>
      (spc s \<noteq> S_done \<longrightarrow> (\<forall>i < length (kids s). kpc s ! i \<noteq> RN_locked))" by blast
next
  assume r: "(\<forall>r\<in>set rounds. start_round (m_threadCount d) r) \<and> 10 * m_threadCount d + 3 \<le> length rounds"
  have "start_left (m_threadCount d) (start_new d) = 10 * m_threadCount d + 3" by (simp add: start_left_def start_new_def)
  with rounds_finish_start [OF start_inv_new assms, where rounds = rounds and to_string = to_string and tids = tids] r
  obtain s where
    s: "start_run to_string create_rt tids (concat rounds) (start_new d) = Inr s" "start_inv to_string tids d s" "spc s = S_done"
    by auto
  have sd: "sd s = started to_string tids (m_threadCount d) d" and l: "length (kids s) = m_threadCount d"
    using s(2,3) by (simp_all add: start_inv_def kids_ok_def)
  have k: "ppc (kids s ! i) = P_ready \<and> Thread_GetName (kids s ! i) = m_threads (sd s) ! i \<and>
      (\<exists>t. obj (kids s ! i) = Some t \<and> m_threadIds (sd s) ! (length (m_threadIds d) + i) = m_id t)"
    if "i < m_threadCount d" for i
  proof -
    have i: "thread_inv (tids i) (Some ()) (worker_name to_string d i) (kids s ! i)" "obj (kids s ! i) \<noteq> None"
      "ppc (kids s ! i) \<noteq> P_wait" using s(2,3) that by (simp_all add: start_inv_def kids_ok_def)
    then have "ppc (kids s ! i) = P_ready" by (cases "ppc (kids s ! i)") simp_all
    with i that sd show ?thesis by (auto simp: thread_inv_def Thread_GetName_def name_full nth_append)
  qed
  have "Scheduler_start to_string tids d = Inr (sd s)"
    using assms(1,2) sd by (simp add: Scheduler_start_def started_def worker_name_def)
  with s k l show "\<exists>s. start_run to_string create_rt tids (concat rounds) (start_new d) = Inr s \<and> spc s = S_done \<and>
      Scheduler_start to_string tids d = Inr (sd s) \<and> length (kids s) = m_threadCount d \<and>
      (\<forall>i < m_threadCount d. ppc (kids s ! i) = P_ready \<and> Thread_GetName (kids s ! i) = m_threads (sd s) ! i \<and>
         (\<exists>t. obj (kids s ! i) = Some t \<and> m_threadIds (sd s) ! (length (m_threadIds d) + i) = m_id t))"
    by blast
qed

definition demo_sched :: "unit sched" where
  "demo_sched = \<lparr>m_name = ''w'', m_fibers = [], m_rootFiber = None, m_threads = [], m_threadIds = [],
     m_threadCount = 2, m_activeThreadCount = 0, m_idleThreadCount = 0, m_stopping = True, m_autoStop = False,
     m_rootThread = -1\<rparr>"

theorem start_refines_Scheduler_start_witness:
  "\<exists>s. start_run (\<lambda>i. if i = 0 then ''0'' else ''1'') (\<lambda>_. 0) (\<lambda>i. 100 + int i) (concat (replicate 23 [0, 1, 2])) (start_new demo_sched) = Inr s \<and>
     spc s = S_done \<and> m_threads (sd s) = [''w_0'', ''w_1''] \<and> m_threadIds (sd s) = [100, 101]"
proof -
  let ?ts = "\<lambda>i :: nat. if i = 0 then ''0'' else ''1''"
  have d: "m_stopping demo_sched" "m_threads demo_sched = []" "m_threadCount demo_sched = 2" by (simp_all add: demo_sched_def)
  have r: "\<forall>r\<in>set (replicate 23 [0, 1, 2]). start_round 2 r" by (auto simp: start_round_def)
  from start_refines_Scheduler_start [OF d(1,2), of "\<lambda>_. 0" ?ts "\<lambda>i. 100 + int i" "[]" "replicate 23 [0, 1, 2]"] d(3) r
  obtain s where s: "start_run ?ts (\<lambda>_. 0) (\<lambda>i. 100 + int i) (concat (replicate 23 [0, 1, 2])) (start_new demo_sched) = Inr s"
    "spc s = S_done" "Scheduler_start ?ts (\<lambda>i. 100 + int i) demo_sched = Inr (sd s)" by auto
  have "m_threads (sd s) = [''w_0'', ''w_1'']" "m_threadIds (sd s) = [100, 101]"
    using arg_cong [OF s(3), of "map_sum id m_threads"] arg_cong [OF s(3), of "map_sum id m_threadIds"]
    by (simp_all add: Scheduler_start_def demo_sched_def numeral_2_eq_2)
  with s show ?thesis by blast
qed

end
