(* ===== verification/LogFormat.thy ===== *)
theory LogFormat imports Prelude begin

text \<open>
  \<open>LogLevel\<close>, \<open>LogEvent\<close>, the format items and \<open>LogFormatter\<close> of \<open>LioNet/log.h\<close> and
  \<open>log.cc\<close>. \<open>LogFormatter::init\<close> is modelled with its index loops over the pattern; a second,
  structural parser on the rest of the pattern is proved equal to it and carries the
  properties. What \<open>localtime_r\<close> and \<open>strftime\<close> produce is the parameter \<open>time_str\<close>, with \<open>None\<close>
  for a text that does not fit the 64 bytes of the buffer.
\<close>

section \<open>Levels\<close>

datatype log_level = UNKNOW | DEBUG | INFO | WARN | ERROR | FATAL

fun level_value :: "log_level \<Rightarrow> nat" where
  "level_value UNKNOW = 0"
| "level_value DEBUG = 1"
| "level_value INFO = 2"
| "level_value WARN = 3"
| "level_value ERROR = 4"
| "level_value FATAL = 5"

lemma level_value_inj: "level_value a = level_value b \<longleftrightarrow> a = b"
  by (cases a; cases b) auto

text \<open>The levels compare as the numbers of the enumeration.\<close>

instantiation log_level :: linorder
begin

definition less_eq_log_level :: "log_level \<Rightarrow> log_level \<Rightarrow> bool" where
  "less_eq_log_level a b \<longleftrightarrow> level_value a \<le> level_value b"

definition less_log_level :: "log_level \<Rightarrow> log_level \<Rightarrow> bool" where
  "less_log_level a b \<longleftrightarrow> level_value a < level_value b"

instance
  by standard (auto simp: less_eq_log_level_def less_log_level_def level_value_inj)

end

fun LogLevel_ToString :: "log_level \<Rightarrow> string" where
  "LogLevel_ToString DEBUG = ''DEBUG''"
| "LogLevel_ToString INFO = ''INFO''"
| "LogLevel_ToString WARN = ''WARN''"
| "LogLevel_ToString ERROR = ''ERROR''"
| "LogLevel_ToString FATAL = ''FATAL''"
| "LogLevel_ToString UNKNOW = ''UNKNOW''"

definition LogLevel_FromString :: "string \<Rightarrow> log_level" where
  "LogLevel_FromString str =
     (if str = ''debug'' then DEBUG
      else if str = ''info'' then INFO
      else if str = ''warn'' then WARN
      else if str = ''error'' then ERROR
      else if str = ''fatal'' then FATAL
      else if str = ''DEBUG'' then DEBUG
      else if str = ''INFO'' then INFO
      else if str = ''WARN'' then WARN
      else if str = ''ERROR'' then ERROR
      else if str = ''FATAL'' then FATAL
      else UNKNOW)"

section \<open>Events\<close>

text \<open>
  \<open>LogEvent\<close>; the logger is its address. \<open>getElapse\<close> and \<open>getThreadId\<close> return the \<open>uint32_t\<close>
  members as \<open>int32_t\<close>.
\<close>

record log_event =
  e_file :: string
  e_line :: "32 word"
  e_elapse :: "32 word"
  e_threadId :: "32 word"
  e_fiberId :: "32 word"
  e_time :: "64 word"
  e_content :: string
  e_threadName :: string
  e_logger :: nat
  e_level :: log_level

definition LogEvent_new ::
    "nat \<Rightarrow> log_level \<Rightarrow> string \<Rightarrow> 32 word \<Rightarrow> 32 word \<Rightarrow> 32 word \<Rightarrow> 32 word \<Rightarrow> 64 word \<Rightarrow>
     string \<Rightarrow> log_event" where
  "LogEvent_new logger level file line elapse thread_id fiber_id time thread_name =
     \<lparr>e_file = file, e_line = line, e_elapse = elapse, e_threadId = thread_id, e_fiberId = fiber_id,
      e_time = time, e_content = '''', e_threadName = thread_name, e_logger = logger, e_level = level\<rparr>"

definition getLine :: "log_event \<Rightarrow> int" where
  "getLine e = sint (e_line e)"

definition getElapse :: "log_event \<Rightarrow> int" where
  "getElapse e = sint (e_elapse e)"

definition getThreadId :: "log_event \<Rightarrow> int" where
  "getThreadId e = sint (e_threadId e)"

definition getFiberId :: "log_event \<Rightarrow> int" where
  "getFiberId e = uint (e_fiberId e)"

text \<open>\<open>LogEvent::format\<close>: \<open>out\<close> is what \<open>vasprintf\<close> printed, \<open>None\<close> when it failed.\<close>

definition LogEvent_format :: "string option \<Rightarrow> log_event \<Rightarrow> log_event" where
  "LogEvent_format out e = (case out of None \<Rightarrow> e | Some s \<Rightarrow> e\<lparr>e_content := e_content e @ s\<rparr>)"

section \<open>Format items\<close>

datatype format_item =
    MessageItem
  | LevelItem
  | ElapseItem
  | NameItem
  | ThreadIdItem
  | FiberIdItem
  | ThreadNameItem
  | DateTimeItem string
  | FilenameItem
  | LineItem
  | NewLineItem
  | StringItem string
  | TabItem

definition default_time_format :: string where
  "default_time_format = ''%Y-%m-%d %H:%M:%S''"

text \<open>The constructor of \<open>DateTimeFormatItem\<close>.\<close>

definition DateTimeItem_new :: "string \<Rightarrow> format_item" where
  "DateTimeItem_new fmt = DateTimeItem (if fmt = '''' then default_time_format else fmt)"

text \<open>Decimal output of an integer.\<close>

function show_nat :: "nat \<Rightarrow> string" where
  "show_nat n = (if n < 10 then [char_of (48 + n)] else show_nat (n div 10) @ [char_of (48 + n mod 10)])"
  by auto
termination by (relation "measure id") auto

declare show_nat.simps [simp del]

definition show_int :: "int \<Rightarrow> string" where
  "show_int i = (if i < 0 then ''-'' @ show_nat (nat (- i)) else show_nat (nat i))"

text \<open>
  \<open>FormatItem::format\<close> of each class: what the item writes, for the logger named \<open>name\<close>. A date
  that does not fit the buffer leaves it unspecified, and it is written all the same.
\<close>

type_synonym time_str = "string \<Rightarrow> 64 word \<Rightarrow> string option"

fun item_format :: "time_str \<Rightarrow> string \<Rightarrow> log_level \<Rightarrow> log_event \<Rightarrow> format_item \<Rightarrow> string res" where
  "item_format tstr name level e MessageItem = Inr (e_content e)"
| "item_format tstr name level e LevelItem = Inr (LogLevel_ToString level)"
| "item_format tstr name level e ElapseItem = Inr (show_int (getElapse e))"
| "item_format tstr name level e NameItem = Inr name"
| "item_format tstr name level e ThreadIdItem = Inr (show_int (getThreadId e))"
| "item_format tstr name level e FiberIdItem = Inr (show_int (getFiberId e))"
| "item_format tstr name level e ThreadNameItem = Inr (e_threadName e)"
| "item_format tstr name level e (DateTimeItem fmt) =
     (case tstr fmt (e_time e) of None \<Rightarrow> Inl UninitRead | Some s \<Rightarrow> Inr s)"
| "item_format tstr name level e FilenameItem = Inr (e_file e)"
| "item_format tstr name level e LineItem = Inr (show_int (getLine e))"
| "item_format tstr name level e NewLineItem = Inr [CHR 0x0A]"
| "item_format tstr name level e (StringItem s) = Inr s"
| "item_format tstr name level e TabItem = Inr [CHR 0x09]"

section \<open>The formatter\<close>

record formatter =
  m_pattern :: string
  m_items :: "format_item list"
  m_error :: bool

fun LogFormatter_format ::
    "time_str \<Rightarrow> string \<Rightarrow> log_level \<Rightarrow> log_event \<Rightarrow> format_item list \<Rightarrow> string res" where
  "LogFormatter_format tstr name level e [] = Inr ''''"
| "LogFormatter_format tstr name level e (it # its) =
     res_bind (item_format tstr name level e it) (\<lambda>s.
       res_bind (LogFormatter_format tstr name level e its) (\<lambda>r. Inr (s @ r)))"

text \<open>
  The inner loop of \<open>init\<close>, from position \<open>n\<close> with the local variables of the code: the result is
  \<open>n\<close>, \<open>fmt_status\<close>, \<open>str\<close> and \<open>fmt\<close> at its end.
\<close>

function scan_loop ::
    "string \<Rightarrow> nat \<Rightarrow> nat \<Rightarrow> nat \<Rightarrow> nat \<Rightarrow> string \<Rightarrow> string \<Rightarrow> nat \<times> nat \<times> string \<times> string" where
  "scan_loop p i n fmt_status fmt_begin str fmt =
     (if n < length p then
        if fmt_status = 0 \<and> (\<not> is_alpha (p ! n) \<and> p ! n \<noteq> CHR ''{'' \<and> p ! n \<noteq> CHR ''}'')
        then (n, fmt_status, substr p (i + 1) (n - i - 1), fmt)
        else if fmt_status = 0 \<and> p ! n = CHR ''{''
        then scan_loop p i (n + 1) 1 n (substr p (i + 1) (n - i - 1)) fmt
        else if fmt_status = 1 \<and> p ! n = CHR ''}''
        then (n + 1, 0, str, substr p (fmt_begin + 1) (n - fmt_begin - 1))
        else scan_loop p i (n + 1) fmt_status fmt_begin
               (if n + 1 = length p \<and> str = '''' then drop (i + 1) p else str) fmt
      else (n, fmt_status, str, fmt))"
  by auto
termination by (relation "measure (\<lambda>(p, i, n, _). length p - n)") auto

declare scan_loop.simps [simp del]

text \<open>The entries of \<open>vec\<close>: text, format and type (\<open>True\<close> for 1, an item).\<close>

type_synonym vec_entry = "string \<times> string \<times> bool"

lemma scan_loop_le: "n \<le> fst (scan_loop p i n st fb str fmt)"
proof (induction p i n st fb str fmt rule: scan_loop.induct)
  case (1 p i n st fb str fmt)
  show ?case
    unfolding scan_loop.simps [of p i n st fb str fmt]
    by (use 1 in \<open>auto dest!: Suc_leD\<close>)
qed

function init_loop ::
    "string \<Rightarrow> nat \<Rightarrow> string \<Rightarrow> vec_entry list \<Rightarrow> bool \<Rightarrow> vec_entry list \<times> bool" where
  "init_loop p i nstr vec err =
     (if i < length p then
        if p ! i \<noteq> CHR ''%'' then init_loop p (i + 1) (nstr @ [p ! i]) vec err
        else if i + 1 < length p \<and> p ! (i + 1) = CHR ''%''
        then init_loop p (i + 1) (nstr @ [CHR ''%'']) vec err
        else
          (let (n, fmt_status, str, fmt) = scan_loop p i (i + 1) 0 0 '''' ''''
           in if fmt_status = 0
              then init_loop p n ''''
                     (vec @ (if nstr \<noteq> '''' then [(nstr, '''', False)] else []) @ [(str, fmt, True)]) err
              else init_loop p (i + 1) nstr (vec @ [(''<<pattern_error>>'', fmt, False)]) True)
      else (vec @ (if nstr \<noteq> '''' then [(nstr, '''', False)] else []), err))"
  by auto
termination
proof (relation "measure (\<lambda>(p, i, _). length p - i)", goal_cases)
  case (4 p i nstr vec err x n y fmt_status z str fmt)
  have "fst (scan_loop p i (i + 1) 0 0 '''' '''') = n" using 4 by (metis fst_conv)
  with scan_loop_le [of "i + 1" p i 0 0 "''''" "''''"] have "i + 1 \<le> n" by simp
  with 4 show ?case by auto
qed auto

declare init_loop.simps [simp del]

text \<open>What \<open>init\<close> prints on the console: a line for each brace that is not closed.\<close>

function init_output :: "string \<Rightarrow> nat \<Rightarrow> string" where
  "init_output p i =
     (if i < length p then
        if p ! i \<noteq> CHR ''%'' then init_output p (i + 1)
        else if i + 1 < length p \<and> p ! (i + 1) = CHR ''%'' then init_output p (i + 1)
        else
          (let (n, fmt_status, str, fmt) = scan_loop p i (i + 1) 0 0 '''' ''''
           in if fmt_status = 0 then init_output p n
              else ''pattern parse error: '' @ p @ '' - '' @ drop i p @ [CHR 0x0A] @ init_output p (i + 1))
      else '''')"
  by auto
termination
proof (relation "measure (\<lambda>(p, i). length p - i)", goal_cases)
  case (4 p i x n y fmt_status z str fmt)
  have "fst (scan_loop p i (i + 1) 0 0 '''' '''') = n" using 4 by (metis fst_conv)
  with scan_loop_le [of "i + 1" p i 0 0 "''''" "''''"] have "i + 1 \<le> n" by simp
  with 4 show ?case by auto
qed auto

declare init_output.simps [simp del]

text \<open>\<open>s_format_items\<close>\<close>

definition format_items :: "string \<Rightarrow> (string \<Rightarrow> format_item) option" where
  "format_items str =
     (if str = ''m'' then Some (\<lambda>_. MessageItem)
      else if str = ''p'' then Some (\<lambda>_. LevelItem)
      else if str = ''r'' then Some (\<lambda>_. ElapseItem)
      else if str = ''c'' then Some (\<lambda>_. NameItem)
      else if str = ''t'' then Some (\<lambda>_. ThreadIdItem)
      else if str = ''n'' then Some (\<lambda>_. NewLineItem)
      else if str = ''d'' then Some DateTimeItem_new
      else if str = ''f'' then Some (\<lambda>_. FilenameItem)
      else if str = ''l'' then Some (\<lambda>_. LineItem)
      else if str = ''T'' then Some (\<lambda>_. TabItem)
      else if str = ''F'' then Some (\<lambda>_. FiberIdItem)
      else if str = ''N'' then Some (\<lambda>_. ThreadNameItem)
      else None)"

fun make_items :: "vec_entry list \<Rightarrow> bool \<Rightarrow> format_item list \<times> bool" where
  "make_items [] err = ([], err)"
| "make_items ((str, fmt, is_item) # vec) err =
     (if \<not> is_item then
        (let (its, err') = make_items vec err in (StringItem str # its, err'))
      else (case format_items str of
          None \<Rightarrow>
            (let (its, err') = make_items vec True
             in (StringItem (''<<error_format %'' @ str @ ''>>'') # its, err'))
        | Some mk \<Rightarrow> (let (its, err') = make_items vec err in (mk fmt # its, err'))))"

text \<open>The constructor, with \<open>init()\<close>.\<close>

definition LogFormatter_new :: "string \<Rightarrow> formatter" where
  "LogFormatter_new pattern =
     (let (vec, err) = init_loop pattern 0 '''' [] False;
          (its, err') = make_items vec err
      in \<lparr>m_pattern = pattern, m_items = its, m_error = err'\<rparr>)"

definition isError :: "formatter \<Rightarrow> bool" where
  "isError f = m_error f"

definition getPattern :: "formatter \<Rightarrow> string" where
  "getPattern f = m_pattern f"

section \<open>The grammar of patterns\<close>

text \<open>
  The same parser on the rest of the pattern: the name of an item up to a brace or a character that
  is neither a letter nor a closing brace, then the format in braces. \<open>None\<close> is a brace that is not closed.
\<close>

fun scan_fmt :: "string \<Rightarrow> (string \<times> string) option" where
  "scan_fmt [] = None"
| "scan_fmt (c # r) =
     (if c = CHR ''}'' then Some ([], r)
      else map_option (\<lambda>(f, r'). (c # f, r')) (scan_fmt r))"

fun scan_item :: "string \<Rightarrow> (string \<times> string \<times> string) option" where
  "scan_item [] = Some ([], [], [])"
| "scan_item (c # r) =
     (if \<not> is_alpha c \<and> c \<noteq> CHR ''{'' \<and> c \<noteq> CHR ''}'' then Some ([], [], c # r)
      else if c = CHR ''{'' then map_option (\<lambda>(f, r'). ([], f, r')) (scan_fmt r)
      else map_option (\<lambda>(name, f, r'). (c # name, f, r')) (scan_item r))"

lemma scan_fmt_length: "scan_fmt r = Some (f, r') \<Longrightarrow> length r' \<le> length r"
  by (induction r arbitrary: f r') (auto split: if_splits)

lemma scan_item_length: "scan_item r = Some (name, f, r') \<Longrightarrow> length r' \<le> length r"
  by (induction r arbitrary: name f r') (auto split: if_splits dest!: scan_fmt_length)

definition flush :: "string \<Rightarrow> vec_entry list" where
  "flush nstr = (if nstr \<noteq> '''' then [(nstr, '''', False)] else [])"

function parse :: "string \<Rightarrow> string \<Rightarrow> vec_entry list \<times> bool" where
  "parse [] nstr = (flush nstr, False)"
| "parse (c # r) nstr =
     (if c \<noteq> CHR ''%'' then parse r (nstr @ [c])
      else if r \<noteq> [] \<and> hd r = CHR ''%'' then parse r (nstr @ [CHR ''%''])
      else (case scan_item r of
          Some (name, f, r') \<Rightarrow>
            (let (v, e) = parse r' '''' in (flush nstr @ (name, f, True) # v, e))
        | None \<Rightarrow> (let (v, e) = parse r nstr in ((''<<pattern_error>>'', '''', False) # v, True))))"
  by pat_completeness auto
termination
  by (relation "measure (\<lambda>(r, _). length r)") (auto dest: scan_item_length)

lemma drop_Cons_nth: "n < length p \<Longrightarrow> drop n p = p ! n # drop (Suc n) p"
  by (simp add: Cons_nth_drop_Suc)

lemma substr_snoc:
  "i < n \<Longrightarrow> n < length p \<Longrightarrow> substr p (i + 1) (Suc n - i - 1) = substr p (i + 1) (n - i - 1) @ [p ! n]"
  by (simp add: substr_def take_Suc_conv_app_nth Suc_diff_Suc [symmetric] less_diff_conv)

lemma scan_loop_fmt_Some:
  assumes "scan_fmt (drop n p) = Some (f, r)" and "fb < n" and "n \<le> length p"
  shows "\<exists>m. scan_loop p i n 1 fb str fmt = (m, 0, str, substr p (fb + 1) (n - fb - 1) @ f) \<and>
    drop m p = r \<and> m \<le> length p"
  using assms
proof (induction "length p - n" arbitrary: n f)
  case 0
  then show ?case by simp
next
  case (Suc k)
  then have n: "n < length p" by simp
  note d = drop_Cons_nth [OF n]
  show ?case
  proof (cases "p ! n = CHR ''}''")
    case True
    with Suc.prems d n show ?thesis by (simp add: scan_loop.simps [of p i n])
  next
    case False
    with Suc.prems d obtain f' where f': "scan_fmt (drop (Suc n) p) = Some (f', r)" "f = p ! n # f'"
      by auto
    then have n2: "Suc n < length p" by (cases "Suc n < length p") auto
    have "k = length p - Suc n" using Suc.hyps(2) by simp
    from Suc.hyps(1) [OF this f'(1)] Suc.prems n
    obtain m where "scan_loop p i (Suc n) 1 fb str fmt = (m, 0, str, substr p (fb + 1) (Suc n - fb - 1) @ f')"
      "drop m p = r" "m \<le> length p" by auto
    with False n n2 f'(2) substr_snoc [of fb n p] Suc.prems show ?thesis
      by (simp add: scan_loop.simps [of p i n])
  qed
qed

lemma scan_loop_fmt_None:
  assumes "scan_fmt (drop n p) = None"
  shows "\<exists>m str'. scan_loop p i n 1 fb str fmt = (m, 1, str', fmt)"
  using assms
proof (induction "length p - n" arbitrary: n str)
  case 0
  then show ?case by (simp add: scan_loop.simps [of p i n])
next
  case (Suc k)
  then have n: "n < length p" by simp
  note d = drop_Cons_nth [OF n]
  from Suc.prems d have "p ! n \<noteq> CHR ''}''" "scan_fmt (drop (Suc n) p) = None" by (auto split: if_splits)
  with Suc.hyps n show ?case by (simp add: scan_loop.simps [of p i n])
qed

lemma scan_loop_item:
  assumes "i < n" and "n \<le> length p" and "str = (if n = length p then drop (i + 1) p else '''')"
  shows "case scan_item (drop n p) of
      Some (name, f, r) \<Rightarrow> \<exists>m. scan_loop p i n 0 0 str '''' =
        (m, 0, substr p (i + 1) (n - i - 1) @ name, f) \<and> drop m p = r \<and> m \<le> length p
    | None \<Rightarrow> \<exists>m str'. scan_loop p i n 0 0 str '''' = (m, 1, str', '''')"
  using assms
proof (induction "length p - n" arbitrary: n str)
  case 0
  then have "n = length p" by simp
  with 0 show ?case by (simp add: scan_loop.simps [of p i "length p"] substr_def)
next
  case (Suc k)
  then have n: "n < length p" by simp
  note d = drop_Cons_nth [OF n]
  have k: "k = length p - Suc n" using Suc.hyps(2) by simp
  consider (stop) "\<not> is_alpha (p ! n)" "p ! n \<noteq> CHR ''{''" "p ! n \<noteq> CHR ''}''"
    | (brace) "p ! n = CHR ''{''" | (letter) "is_alpha (p ! n) \<or> p ! n = CHR ''}''" "p ! n \<noteq> CHR ''{''"
    by blast
  then show ?case
  proof cases
    case stop
    with n d show ?thesis by (auto simp: scan_loop.simps [of p i n])
  next
    case brace
    have step: "scan_loop p i n 0 0 str '''' =
        scan_loop p i (Suc n) 1 n (substr p (i + 1) (n - i - 1)) ''''"
      using brace n by (simp add: scan_loop.simps [of p i n])
    show ?thesis
    proof (cases "scan_fmt (drop (Suc n) p)")
      case None
      with scan_loop_fmt_None [OF None] brace d step show ?thesis by simp
    next
      case (Some a)
      then obtain f r where s: "scan_fmt (drop (Suc n) p) = Some (f, r)" by (cases a) auto
      from scan_loop_fmt_Some [OF s, of n] n brace d step s show ?thesis
        by (auto simp: substr_def)
    qed
  next
    case letter
    let ?str = "if Suc n = length p then drop (i + 1) p else ''''"
    have step: "scan_loop p i n 0 0 str '''' = scan_loop p i (Suc n) 0 0 ?str ''''"
      using letter n Suc.prems by (auto simp: scan_loop.simps [of p i n])
    have item: "scan_item (drop n p) =
        map_option (\<lambda>(name, f, r'). (p ! n # name, f, r')) (scan_item (drop (Suc n) p))"
      using letter d by auto
    from Suc.hyps(1) [OF k, of ?str] Suc.prems n substr_snoc [of i n p] step item
    show ?thesis by (auto split: option.splits)
  qed
qed

lemma init_loop_parse:
  "init_loop p i nstr vec err =
     (let (v, e) = parse (drop i p) nstr in (vec @ v, err \<or> e))"
proof (induction p i nstr vec err rule: init_loop.induct)
  case (1 p i nstr vec err)
  show ?case
  proof (cases "i < length p")
    case False
    then show ?thesis by (simp add: init_loop.simps [of p i] flush_def)
  next
    case i: True
    note d = drop_Cons_nth [OF i]
    have hd: "drop (Suc i) p \<noteq> [] \<and> hd (drop (Suc i) p) = CHR ''%'' \<longleftrightarrow>
        i + 1 < length p \<and> p ! (i + 1) = CHR ''%''"
      by (auto simp: hd_drop_conv_nth)
    consider (lit) "p ! i \<noteq> CHR ''%''" | (twice) "p ! i = CHR ''%''" "i + 1 < length p \<and> p ! (i + 1) = CHR ''%''"
      | (item) "p ! i = CHR ''%''" "\<not> (i + 1 < length p \<and> p ! (i + 1) = CHR ''%'')" by blast
    then show ?thesis
    proof cases
      case lit
      with 1(1) [OF i] d i show ?thesis by (simp add: init_loop.simps [of p i])
    next
      case twice
      with 1(2) [OF i] d i hd show ?thesis by (simp add: init_loop.simps [of p i])
    next
      case item
      have str0: "'''' = (if i + 1 = length p then drop (i + 1) p else '''')" by simp
      note sc = scan_loop_item [OF _ _ str0]
      show ?thesis
      proof (cases "scan_item (drop (Suc i) p)")
        case None
        with sc i obtain m str' where s: "scan_loop p i (Suc i) 0 0 '''' '''' = (m, 1, str', '''')" by auto
        have "init_loop p i nstr vec err =
            init_loop p (Suc i) nstr (vec @ [(''<<pattern_error>>'', '''', False)]) True"
          using item s i by (auto simp: init_loop.simps [of p i])
        moreover have "parse (drop i p) nstr =
            (let (v, e) = parse (drop (Suc i) p) nstr in ((''<<pattern_error>>'', '''', False) # v, True))"
          using item None d hd by auto
        ultimately show ?thesis
          using 1(4) [OF i] item s by (simp split: prod.splits)
      next
        case (Some a)
        then obtain name f r where a: "scan_item (drop (Suc i) p) = Some (name, f, r)" by (cases a) auto
        with sc i obtain m where s: "scan_loop p i (Suc i) 0 0 '''' '''' = (m, 0, name, f)" "drop m p = r"
          by (auto simp: substr_def)
        have "init_loop p i nstr vec err = init_loop p m '''' (vec @ flush nstr @ [(name, f, True)]) err"
          using item s i by (auto simp: init_loop.simps [of p i] flush_def)
        moreover have "parse (drop i p) nstr =
            (let (v, e) = parse r '''' in (flush nstr @ (name, f, True) # v, e))"
          using item a d hd by auto
        ultimately show ?thesis
          using 1(3) [OF i] item s by (simp add: flush_def split: prod.splits)
      qed
    qed
  qed
qed

section \<open>Writing patterns\<close>

text \<open>A pattern as a list of pieces: text, or an item with its name and perhaps a format.\<close>

datatype piece = Lit string | Item string "string option"

fun render :: "piece list \<Rightarrow> string" where
  "render [] = ''''"
| "render (Lit s # ps) = s @ render ps"
| "render (Item name None # ps) = CHR ''%'' # name @ render ps"
| "render (Item name (Some f) # ps) = CHR ''%'' # name @ CHR ''{'' # f @ CHR ''}'' # render ps"

definition stops :: "string \<Rightarrow> bool" where
  "stops r \<longleftrightarrow> (case r of [] \<Rightarrow> True
     | c # _ \<Rightarrow> \<not> is_alpha c \<and> c \<noteq> CHR ''{'' \<and> c \<noteq> CHR ''}'')"

text \<open>
  Text has no \<open>%\<close> and is not next to other text; an item has a name of letters, known to the
  formatter, and a format without \<open>}\<close>; an item without a format is not followed by text that would
  continue it.
\<close>

fun pieces_ok :: "piece list \<Rightarrow> bool" where
  "pieces_ok [] \<longleftrightarrow> True"
| "pieces_ok (Lit s # ps) \<longleftrightarrow> s \<noteq> '''' \<and> CHR ''%'' \<notin> set s \<and>
     (case ps of Lit _ # _ \<Rightarrow> False | _ \<Rightarrow> True) \<and> pieces_ok ps"
| "pieces_ok (Item name fo # ps) \<longleftrightarrow> name \<noteq> '''' \<and> list_all is_alpha name \<and> format_items name \<noteq> None \<and>
     (case fo of None \<Rightarrow> stops (render ps) | Some f \<Rightarrow> CHR ''}'' \<notin> set f) \<and> pieces_ok ps"

fun piece_entry :: "piece \<Rightarrow> vec_entry" where
  "piece_entry (Lit s) = (s, '''', False)"
| "piece_entry (Item name fo) = (name, (case fo of None \<Rightarrow> '''' | Some f \<Rightarrow> f), True)"

fun piece_item :: "piece \<Rightarrow> format_item" where
  "piece_item (Lit s) = StringItem s"
| "piece_item (Item name fo) =
     the (format_items name) (case fo of None \<Rightarrow> '''' | Some f \<Rightarrow> f)"

lemma not_alpha [simp]: "\<not> is_alpha CHR ''{''" "\<not> is_alpha CHR ''}''" "\<not> is_alpha CHR ''%''"
  by (simp_all add: is_alpha_def is_upper_def char_code_def of_char_def)

lemma parse_lit: "CHR ''%'' \<notin> set s \<Longrightarrow> parse (s @ r) nstr = parse r (nstr @ s)"
  by (induction s arbitrary: nstr) auto

lemma scan_item_name:
  "list_all is_alpha name \<Longrightarrow> stops r \<Longrightarrow> scan_item (name @ r) = Some (name, '''', r)"
proof (induction name)
  case Nil
  then show ?case by (cases r) (auto simp: stops_def)
next
  case (Cons c name)
  then have "c \<noteq> CHR ''{''" by auto
  with Cons show ?case by auto
qed

lemma scan_fmt_close: "CHR ''}'' \<notin> set f \<Longrightarrow> scan_fmt (f @ CHR ''}'' # r) = Some (f, r)"
  by (induction f) auto

lemma scan_fmt_open: "CHR ''}'' \<notin> set f \<Longrightarrow> scan_fmt f = None"
  by (induction f) auto

lemma scan_item_brace:
  "list_all is_alpha name \<Longrightarrow> scan_item (name @ CHR ''{'' # r) =
     map_option (\<lambda>(f, r'). (name, f, r')) (scan_fmt r)"
proof (induction name)
  case (Cons c name)
  then have "c \<noteq> CHR ''{''" by auto
  with Cons show ?case by (auto simp: option.map_comp comp_def split_beta)
qed simp

lemma parse_item:
  assumes "name \<noteq> ''''" and "list_all is_alpha name"
  shows "parse (CHR ''%'' # name @ r) nstr = (case scan_item (name @ r) of
      Some (n, f, r') \<Rightarrow> (let (v, e) = parse r' '''' in (flush nstr @ (n, f, True) # v, e))
    | None \<Rightarrow> (let (v, e) = parse (name @ r) nstr in ((''<<pattern_error>>'', '''', False) # v, True)))"
proof -
  obtain c n where "name = c # n" using assms(1) by (cases name) auto
  with assms(2) have "hd (name @ r) \<noteq> CHR ''%''" by auto
  with assms(1) show ?thesis by simp
qed

lemma parse_render_items:
  "pieces_ok ps \<Longrightarrow> (case ps of Lit _ # _ \<Rightarrow> nstr = '''' | _ \<Rightarrow> True) \<Longrightarrow>
     parse (render ps) nstr = (flush nstr @ map piece_entry ps, False)"
proof (induction ps arbitrary: nstr rule: render.induct)
  case (2 s ps)
  then have "parse (render ps) s = (flush s @ map piece_entry ps, False)"
    by (intro "2.IH") (auto split: list.splits piece.splits)
  with 2 show ?case by (simp add: parse_lit flush_def)
next
  case (3 name ps)
  then have "parse (render ps) '''' = (map piece_entry ps, False)"
    using "3.IH" [of "''''"] by (auto simp: flush_def split: list.splits piece.splits)
  with 3 show ?case by (simp add: parse_item scan_item_name del: parse.simps)
next
  case (4 name f ps)
  then have "parse (render ps) '''' = (map piece_entry ps, False)"
    using "4.IH" [of "''''"] by (auto simp: flush_def split: list.splits piece.splits)
  with 4 show ?case by (simp add: parse_item scan_item_brace scan_fmt_close del: parse.simps)
qed simp

fun bad_entry :: "vec_entry \<Rightarrow> bool" where
  "bad_entry (str, fmt, it) \<longleftrightarrow> it \<and> format_items str = None"

lemma make_items_snd: "snd (make_items vec err) \<longleftrightarrow> err \<or> list_ex bad_entry vec"
proof (induction vec arbitrary: err)
  case (Cons x vec)
  obtain str fmt it where x: "x = (str, fmt, it)" by (cases x) auto
  show ?case
    using Cons.IH [of err] Cons.IH [of True]
    by (cases "format_items str"; cases it) (auto simp: x split: prod.splits)
qed simp

lemma make_items_pieces:
  "pieces_ok ps \<Longrightarrow> make_items (map piece_entry ps) err = (map piece_item ps, err)"
  by (induction ps rule: pieces_ok.induct) (auto split: option.splits list.splits piece.splits)

lemma LogFormatter_new_parse:
  "LogFormatter_new p =
     (let (vec, err) = parse p ''''; (its, err') = make_items vec err
      in \<lparr>m_pattern = p, m_items = its, m_error = err'\<rparr>)"
  by (simp add: LogFormatter_new_def init_loop_parse)

text \<open>The console gets a line exactly for the patterns with a brace that is not closed.\<close>

lemma init_loop_err:
  "snd (init_loop p i nstr vec err) \<longleftrightarrow> err \<or> init_output p i \<noteq> ''''"
proof (induction p i nstr vec err rule: init_loop.induct)
  case (1 p i nstr vec err)
  show ?case
    unfolding init_loop.simps [of p i] init_output.simps [of p i]
    using 1 by (auto split: prod.splits)
qed

lemma init_output_silent: "init_output p 0 = '''' \<longleftrightarrow> \<not> snd (parse p '''')"
proof -
  have "init_loop p 0 '''' [] False = parse p ''''"
    using init_loop_parse [of p 0 "''''" "[]" False] by (simp split: prod.splits)
  with init_loop_err [of p 0 "''''" "[]" False] show ?thesis by simp
qed

section \<open>Properties\<close>

text \<open>
  C22. Writing a formatter's pieces as a pattern and parsing it gives the pieces back: each text and
  each item in order, with its format, and no error.
\<close>

theorem formatter_roundtrip:
  assumes "pieces_ok ps"
  shows "LogFormatter_new (render ps) =
    \<lparr>m_pattern = render ps, m_items = map piece_item ps, m_error = False\<rparr>"
  using parse_render_items [OF assms, of "''''"] make_items_pieces [OF assms]
  by (simp add: LogFormatter_new_parse flush_def split: list.splits piece.splits)

text \<open>The pattern every \<open>Logger\<close> starts with.\<close>

definition default_pieces :: "piece list" where
  "default_pieces =
     [Item ''d'' (Some ''%Y-%m-%d %H:%M:%S''), Item ''T'' None, Item ''t'' None, Item ''T'' None,
      Item ''N'' None, Item ''T'' None, Item ''F'' None, Item ''T'' None, Lit ''['', Item ''p'' None,
      Lit '']'', Item ''T'' None, Lit ''['', Item ''c'' None, Lit '']'', Item ''T'' None, Item ''f'' None,
      Lit '':'', Item ''l'' None, Item ''T'' None, Item ''m'' None, Item ''n'' None]"

theorem formatter_roundtrip_witness:
  "LogFormatter_new ''%d{%Y-%m-%d %H:%M:%S}%T%t%T%N%T%F%T[%p]%T[%c]%T%f:%l%T%m%n'' =
     \<lparr>m_pattern = ''%d{%Y-%m-%d %H:%M:%S}%T%t%T%N%T%F%T[%p]%T[%c]%T%f:%l%T%m%n'',
      m_items = [DateTimeItem ''%Y-%m-%d %H:%M:%S'', TabItem, ThreadIdItem, TabItem, ThreadNameItem, TabItem,
        FiberIdItem, TabItem, StringItem ''['', LevelItem, StringItem '']'', TabItem, StringItem ''['', NameItem,
        StringItem '']'', TabItem, FilenameItem, StringItem '':'', LineItem, TabItem, MessageItem, NewLineItem],
      m_error = False\<rparr>"
  using formatter_roundtrip [of default_pieces]
  by (simp add: default_pieces_def stops_def is_alpha_def is_upper_def char_code_def of_char_def
      format_items_def DateTimeItem_new_def)

text \<open>
  C23. A pattern is an error exactly when a brace after an item is not closed or an item's name is not
  one of the twelve; the index loops of \<open>init\<close> are the structural parser.
\<close>

theorem formatter_error_iff:
  "init_loop p 0 '''' [] False = parse p '''' \<and>
   (isError (LogFormatter_new p) \<longleftrightarrow>
     snd (parse p '''') \<or> list_ex bad_entry (fst (parse p '''')))"
proof -
  have "init_loop p 0 '''' [] False = parse p ''''"
    using init_loop_parse [of p 0 "''''" "[]" False] by (simp split: prod.splits)
  moreover have "isError (LogFormatter_new p) \<longleftrightarrow>
      snd (make_items (fst (parse p '''')) (snd (parse p '''')))"
    by (simp add: LogFormatter_new_parse isError_def split: prod.splits)
  ultimately show ?thesis by (simp add: make_items_snd)
qed

text \<open>
  \<open>%%\<close> is not an escaped percent sign: the loop appends one \<open>%\<close> and then reads the second
  \<open>%\<close> again as the start of an item, so that \<open>%%\<close> before anything but a letter, a brace or another
  \<open>%\<close> makes the pattern an error.
\<close>

theorem double_percent_is_error:
  assumes "CHR ''%'' \<notin> set s" and "stops r" and "r = '''' \<or> hd r \<noteq> CHR ''%''"
  shows "isError (LogFormatter_new (s @ ''%%'' @ r)) \<and>
    parse (s @ ''%%'' @ r) '''' = parse (CHR ''%'' # r) (s @ ''%'')"
proof -
  have step: "parse (s @ ''%%'' @ r) '''' = parse (CHR ''%'' # r) (s @ ''%'')"
    using assms(1) by (simp add: parse_lit)
  have "scan_item r = Some ('''', '''', r)" using scan_item_name [of "''''" r] assms(2) by simp
  with assms(3) have "('''', '''', True) \<in> set (fst (parse (CHR ''%'' # r) (s @ ''%'')))"
    by (auto split: prod.splits)
  with step have "isError (LogFormatter_new (s @ ''%%'' @ r))"
    by (auto simp: LogFormatter_new_parse isError_def make_items_snd format_items_def Let_def split_beta
        list_ex_iff intro!: bexI [of _ "('''', '''', True)"])
  with step show ?thesis by simp
qed

theorem double_percent_is_error_witness: "isError (LogFormatter_new ''100%% sure'')"
  using double_percent_is_error [of "''100''" "'' sure''"]
  by (simp add: stops_def is_alpha_def is_upper_def char_code_def of_char_def)

text \<open>
  After a brace that is not closed the text before the item is not written out yet, and the item is
  read again as text: the error mark comes first, then the text, the name and the format.
\<close>

theorem unclosed_brace_items:
  assumes "CHR ''%'' \<notin> set s" and "name \<noteq> ''''" and "list_all is_alpha name"
    and "CHR ''}'' \<notin> set f" and "CHR ''%'' \<notin> set f"
  shows "m_items (LogFormatter_new (s @ ''%'' @ name @ ''{'' @ f)) =
      [StringItem ''<<pattern_error>>'', StringItem (s @ name @ ''{'' @ f)] \<and>
    isError (LogFormatter_new (s @ ''%'' @ name @ ''{'' @ f))"
proof -
  have "CHR ''%'' \<notin> set (name @ CHR ''{'' # f)" using assms(3,5) by (auto simp: list_all_iff)
  from parse_lit [OF this, of "''''"] have rest: "parse (name @ CHR ''{'' # f) s = ([(s @ name @ CHR ''{'' # f, '''', False)], False)"
    by (simp add: flush_def)
  have "parse (s @ CHR ''%'' # name @ CHR ''{'' # f) '''' =
      ([(''<<pattern_error>>'', '''', False), (s @ name @ CHR ''{'' # f, '''', False)], True)"
    using assms rest by (simp add: parse_lit parse_item scan_item_brace scan_fmt_open del: parse.simps)
  then show ?thesis by (simp add: LogFormatter_new_parse isError_def)
qed

theorem unclosed_brace_items_witness:
  "m_items (LogFormatter_new ''at %d{now'') = [StringItem ''<<pattern_error>>'', StringItem ''at d{now'']"
  using unclosed_brace_items [of "''at ''" "''d''" "''now''"]
  by (simp add: is_alpha_def is_upper_def char_code_def of_char_def)

text \<open>
  Level names read back: \<open>FromString(ToString(level))\<close> is the level, for each level, in the
  order of their severity.
\<close>

theorem log_level_roundtrip:
  "LogLevel_FromString (LogLevel_ToString l) = l \<and> (l \<le> l' \<longleftrightarrow> level_value l \<le> level_value l')"
  by (cases l) (simp_all add: LogLevel_FromString_def less_eq_log_level_def)

end
