(* ===== verification/UtilFS.thy ===== *)
theory UtilFS imports Prelude begin

text \<open>
  \<open>LioNet/util.h\<close> and \<open>util.cc\<close>: the path functions, the clock and id conversions, and
  the file streams as the library opens and closes them. What the system answers (the clock, whether a
  file can be opened) is an argument.
\<close>

section \<open>Paths\<close>

definition Dirname :: "string \<Rightarrow> string" where
  "Dirname filename =
     (if filename = '''' then ''.''
      else (case str_rfind CHR ''/'' filename of
          None \<Rightarrow> ''.''
        | Some pos \<Rightarrow> if pos = 0 then ''/'' else substr filename 0 pos))"

definition Basename :: "string \<Rightarrow> string" where
  "Basename filename =
     (if filename = '''' then filename
      else (case str_rfind CHR ''/'' filename of
          None \<Rightarrow> filename
        | Some pos \<Rightarrow> substr filename (pos + 1) (length filename)))"

section \<open>Clock and ids\<close>

text \<open>\<open>tv_sec\<close> and \<open>tv_usec\<close> of \<open>gettimeofday\<close>; the arithmetic is on \<open>unsigned long\<close>.\<close>

definition GetCurrentMS :: "64 word \<Rightarrow> 64 word \<Rightarrow> 64 word" where
  "GetCurrentMS tv_sec tv_usec = tv_sec * 1000 + tv_usec div 1000"

definition GetCurrentUS :: "64 word \<Rightarrow> 64 word \<Rightarrow> 64 word" where
  "GetCurrentUS tv_sec tv_usec = tv_sec * 1000 * 1000 + tv_usec"

text \<open>\<open>GetFiberId\<close> returns the 64-bit fiber id as a \<open>uint32_t\<close>.\<close>

definition GetFiberId32 :: "64 word \<Rightarrow> 32 word" where
  "GetFiberId32 fiber_id = ucast fiber_id"

section \<open>File streams\<close>

text \<open>
  A \<open>std::fstream\<close>: whether a file is open and whether the stream is in a failed state. \<open>open\<close> on an
  open stream fails, and clears the state when it succeeds; \<open>close\<close> on a stream that is not open fails.
\<close>

record stream =
  is_open :: bool
  failed :: bool

definition stream_new :: stream where
  "stream_new = \<lparr>is_open = False, failed = False\<rparr>"

definition stream_open :: "bool \<Rightarrow> stream \<Rightarrow> stream" where
  "stream_open ok st =
     (if is_open st then st\<lparr>failed := True\<rparr>
      else if ok then \<lparr>is_open = True, failed = False\<rparr>
      else st\<lparr>failed := True\<rparr>)"

definition stream_close :: "stream \<Rightarrow> stream" where
  "stream_close st = (if is_open st then st\<lparr>is_open := False\<rparr> else st\<lparr>failed := True\<rparr>)"

text \<open>
  \<open>OpenForWrite\<close>: \<open>opens\<close> tells if the file can be opened as things are, \<open>opens_dir\<close> if it can be once
  its directory was made; the second result is the directory made.
\<close>

definition OpenForRead :: "bool \<Rightarrow> stream \<Rightarrow> bool \<times> stream" where
  "OpenForRead opens ifs = (let s1 = stream_open opens ifs in (is_open s1, s1))"

definition OpenForWrite :: "(string \<Rightarrow> bool) \<Rightarrow> (string \<Rightarrow> bool) \<Rightarrow> string \<Rightarrow> stream \<Rightarrow>
    bool \<times> string option \<times> stream" where
  "OpenForWrite opens opens_dir filename ofs =
     (let s1 = stream_open (opens filename) ofs
      in if \<not> is_open s1 then
           (let dir = Dirname filename; s2 = stream_open (opens_dir filename) s1
            in (is_open s2, Some dir, s2))
         else (is_open s1, None, s1))"

section \<open>Properties\<close>

text \<open>
  \<open>Dirname\<close> and \<open>Basename\<close> split a path at its last slash: the base name has no slash, and the two
  parts give the path back (with no slash the directory is \<open>.\<close>, with only a leading one it is \<open>/\<close>).
\<close>

theorem dirname_basename_split:
  "CHR ''/'' \<notin> set (Basename f) \<and>
   (if CHR ''/'' \<notin> set f then Dirname f = ''.'' \<and> Basename f = f
    else if Dirname f = ''/'' then f = CHR ''/'' # Basename f \<or> f = ''//'' @ Basename f
    else f = Dirname f @ ''/'' @ Basename f)"
proof (cases "str_rfind CHR ''/'' f")
  case None
  moreover from None have "CHR ''/'' \<notin> set f" by (simp add: str_rfind_None_iff)
  ultimately show ?thesis by (simp add: Dirname_def Basename_def)
next
  case (Some i)
  note s = str_rfind_Some [OF Some]
  note sp = str_rfind_split [OF Some]
  have base: "Basename f = drop (Suc i) f" using Some s by (auto simp: Basename_def substr_def)
  have "CHR ''/'' \<in> set f" using s nth_mem by fastforce
  moreover have dir: "Dirname f = (if i = 0 then ''/'' else take i f)"
    using Some s by (auto simp: Dirname_def substr_def)
  moreover have "f = ''//'' @ drop (Suc i) f" if "take i f = ''/''" using sp that by simp
  moreover have "f = CHR ''/'' # drop (Suc i) f" if "i = 0" using sp that by simp
  ultimately show ?thesis using s base sp by auto
qed

text \<open>
  The clock functions agree and do not wrap before the year 584554: below that the milliseconds
  are the exact value, and the microseconds divided by 1000.
\<close>

theorem clock_exact:
  assumes "unat tv_usec < 1000000" and "unat tv_sec < 18446744073709"
  shows "unat (GetCurrentMS tv_sec tv_usec) = unat tv_sec * 1000 + unat tv_usec div 1000 \<and>
    unat (GetCurrentUS tv_sec tv_usec) = unat tv_sec * 1000000 + unat tv_usec \<and>
    GetCurrentUS tv_sec tv_usec div 1000 = GetCurrentMS tv_sec tv_usec"
proof -
  have k: "unat (tv_sec * 1000) = unat tv_sec * 1000"
    using unat_mult_lem [THEN iffD1, of tv_sec 1000] assms(2) by simp
  have kk: "unat (tv_sec * 1000 * 1000) = unat tv_sec * 1000000"
    using unat_mult_lem [THEN iffD1, of "tv_sec * 1000" 1000] assms(2) k by simp
  have 1: "unat (GetCurrentMS tv_sec tv_usec) = unat tv_sec * 1000 + unat tv_usec div 1000"
    using unat_add_lem [THEN iffD1, of "tv_sec * 1000" "tv_usec div 1000"] assms k
    by (simp add: GetCurrentMS_def unat_div_distrib)
  have 2: "unat (GetCurrentUS tv_sec tv_usec) = unat tv_sec * 1000000 + unat tv_usec"
    using unat_add_lem [THEN iffD1, of "tv_sec * 1000 * 1000" tv_usec] assms kk
    by (simp add: GetCurrentUS_def)
  have "unat (GetCurrentUS tv_sec tv_usec div 1000) = unat (GetCurrentMS tv_sec tv_usec)"
    using 1 2 by (simp add: unat_div_distrib)
  with 1 2 show ?thesis by (metis word_unat_eq_iff)
qed

theorem clock_exact_witness:
  "unat (GetCurrentMS 1700000000 123456) = 1700000000123 \<and> GetCurrentUS 1700000000 123456 div 1000 = GetCurrentMS 1700000000 123456"
  using clock_exact [of 123456 1700000000] by simp

end
