(* ===== verification/UtilBacktrace.thy ===== *)
theory UtilBacktrace imports Prelude begin

text \<open>
  \<open>demangle\<close>, \<open>Backtrace\<close> and \<open>BacktraceToString\<close> of \<open>LioNet/util.cc\<close>. The frames on the stack, the texts of
  \<open>backtrace_symbols\<close> and the name that \<open>abi::__cxa_demangle\<close> finds are arguments; \<open>sscanf\<close> is modelled
  as C defines it for the two formats used, with the buffer it writes to.
\<close>

section \<open>Scanning\<close>

text \<open>
  The directive \<open>%w[...]\<close>: the longest run of characters of the set, at most \<open>w\<close>, and the rest of the
  input; it fails when the run is empty. Without a width the whole input may be taken.
\<close>

definition scan_set :: "nat \<Rightarrow> (char \<Rightarrow> bool) \<Rightarrow> string \<Rightarrow> (string \<times> string) option" where
  "scan_set w P s = (let m = take w (takeWhile P s) in if m = [] then None else Some (m, drop (length m) s))"

text \<open>\<open>"%*[^(]%*[^_]%255[^)+]"\<close>: the text assigned, when the call returns 1.\<close>

definition scan_mangled :: "string \<Rightarrow> string option" where
  "scan_mangled str =
     (case scan_set (length str) (\<lambda>c. c \<noteq> CHR ''('') str of
        None \<Rightarrow> None
      | Some (_, s1) \<Rightarrow>
          (case scan_set (length s1) (\<lambda>c. c \<noteq> CHR ''_'') s1 of
             None \<Rightarrow> None
           | Some (_, s2) \<Rightarrow> map_option fst (scan_set 255 (\<lambda>c. c \<noteq> CHR '')'' \<and> c \<noteq> CHR ''+'') s2)))"

text \<open>\<open>"%255s"\<close>: white space is skipped first.\<close>

definition scan_word :: "string \<Rightarrow> string option" where
  "scan_word str = map_option fst (scan_set 255 (\<lambda>c. \<not> is_space c) (dropWhile is_space str))"

text \<open>\<open>sscanf\<close> stores the characters and a null byte from the start of the buffer.\<close>

definition store_cstr :: "string \<Rightarrow> string \<Rightarrow> string res" where
  "store_cstr m buf =
     (if length m < length buf then Inr (m @ CHR 0x00 # drop (Suc (length m)) buf) else Inl OutOfBounds)"

section \<open>Operations\<close>

text \<open>\<open>cxa\<close> is \<open>abi::__cxa_demangle\<close>: the name, or \<open>None\<close> for the null pointer.\<close>

definition demangle :: "(string \<Rightarrow> string option) \<Rightarrow> string \<Rightarrow> string res" where
  "demangle cxa str =
     (let rt = replicate 256 (CHR 0x00);
          second = (\<lambda>rt. case scan_word str of
              Some m \<Rightarrow> store_cstr m rt
            | None \<Rightarrow> Inr str)
      in case scan_mangled str of
           Some m \<Rightarrow> res_bind (store_cstr m rt) (\<lambda>rt.
             case cxa (c_str rt) of Some v \<Rightarrow> Inr v | None \<Rightarrow> second rt)
         | None \<Rightarrow> second rt)"

text \<open>
  \<open>backtrace\<close> stores at most \<open>size\<close> return addresses in the array; \<open>backtrace_symbols\<close> is given
  \<open>size\<close> entries, whatever was stored, and returns null when it cannot allocate the texts.
\<close>

fun backtrace_loop :: "(string \<Rightarrow> string option) \<Rightarrow> string list \<Rightarrow> string list \<Rightarrow> string list res" where
  "backtrace_loop cxa [] bt = Inr bt"
| "backtrace_loop cxa (str # strs) bt =
     res_bind (demangle cxa str) (\<lambda>d. backtrace_loop cxa strs (bt @ [d]))"

definition Backtrace :: "(string \<Rightarrow> string option) \<Rightarrow> ('addr list \<Rightarrow> string list option) \<Rightarrow> 'addr list \<Rightarrow>
    nat \<Rightarrow> nat \<Rightarrow> string list \<Rightarrow> string list res" where
  "Backtrace cxa symbols frames sz skip bt =
     (let array = take sz frames; s = length array
      in if s < sz then Inl UninitRead
         else (case symbols array of
             None \<Rightarrow> Inr bt
           | Some strings \<Rightarrow> backtrace_loop cxa (drop skip (take s strings)) bt))"

fun backtrace_lines :: "string \<Rightarrow> string list \<Rightarrow> string" where
  "backtrace_lines prefix [] = ''''"
| "backtrace_lines prefix (l # ls) = prefix @ l @ [CHR 0x0A] @ backtrace_lines prefix ls"

definition BacktraceToString :: "(string \<Rightarrow> string option) \<Rightarrow> ('addr list \<Rightarrow> string list option) \<Rightarrow>
    'addr list \<Rightarrow> nat \<Rightarrow> nat \<Rightarrow> string \<Rightarrow> string res" where
  "BacktraceToString cxa symbols frames sz skip prefix =
     res_bind (Backtrace cxa symbols frames sz skip []) (\<lambda>bt. Inr (backtrace_lines prefix bt))"

section \<open>Lemmas\<close>

lemma scan_set_Some:
  assumes "scan_set w P s = Some (m, r)"
  shows "s = m @ r" "m \<noteq> []" "length m \<le> w" "\<forall>c\<in>set m. P c"
proof -
  from assms have m: "m = take w (takeWhile P s)" "r = drop (length m) s" "m \<noteq> []"
    by (auto simp: scan_set_def Let_def split: if_splits)
  have "m = take (length m) s"
    using m(1) by (metis take_take takeWhile_eq_take length_take min.commute take_all_iff nle_le)
  with m(2) show "s = m @ r" by (metis append_take_drop_id)
  show "m \<noteq> []" "length m \<le> w" using m by simp_all
  show "\<forall>c\<in>set m. P c" unfolding m(1) by (auto dest: in_set_takeD set_takeWhileD)
qed

text \<open>A run that ends at a character outside the set.\<close>

lemma scan_set_stop:
  assumes "m \<noteq> []" "length m \<le> w" "\<forall>c\<in>set m. P c" "\<not> P x"
  shows "scan_set w P (m @ x # r) = Some (m, x # r)"
  using assms by (auto simp: scan_set_def Let_def takeWhile_tail)

lemma scan_mangled_length: "scan_mangled str = Some m \<Longrightarrow> length m \<le> 255"
  by (auto simp: scan_mangled_def dest: scan_set_Some(3) split: option.splits prod.splits)

lemma scan_word_length: "scan_word str = Some m \<Longrightarrow> length m \<le> 255"
  by (auto simp: scan_word_def dest: scan_set_Some(3))

lemma scan_word_eq:
  "scan_word str = (let w = take 255 (takeWhile (\<lambda>c. \<not> is_space c) (dropWhile is_space str))
     in if w = [] then None else Some w)"
  by (simp add: scan_word_def scan_set_def Let_def)

lemma store_cstr_ok:
  assumes "length m \<le> 255" "length buf = 256"
  shows "store_cstr m buf = Inr (m @ CHR 0x00 # drop (Suc (length m)) buf)"
    and "length (m @ CHR 0x00 # drop (Suc (length m)) buf) = 256"
  using assms by (simp_all add: store_cstr_def)

lemma c_str_stored: "CHR 0x00 \<notin> set m \<Longrightarrow> c_str (m @ CHR 0x00 # r) = m"
  by (auto simp: c_str_def takeWhile_tail)

text \<open>What \<open>backtrace_symbols\<close> prints for a function with a mangled name.\<close>

definition frame_text :: "string \<Rightarrow> string \<Rightarrow> string \<Rightarrow> string" where
  "frame_text file name rest = file @ ''('' @ name @ ''+'' @ rest"

lemma scan_mangled_frame:
  assumes "file \<noteq> []" "CHR ''('' \<notin> set file" "hd name = CHR ''_''" "length name \<le> 255" "name \<noteq> []"
    "CHR '')'' \<notin> set name" "CHR ''+'' \<notin> set name"
  shows "scan_mangled (frame_text file name rest) = Some name"
proof -
  obtain n where n: "name = CHR ''_'' # n" using assms(3,5) by (cases name) auto
  have 1: "scan_set (length (frame_text file name rest)) (\<lambda>c. c \<noteq> CHR ''('') (frame_text file name rest) =
      Some (file, ''('' @ name @ ''+'' @ rest)"
    using scan_set_stop [OF assms(1), of "length (frame_text file name rest)" "\<lambda>c. c \<noteq> CHR ''(''" "CHR ''(''"]
      assms(2) by (auto simp: frame_text_def)
  have 2: "scan_set (length (''('' @ name @ ''+'' @ rest)) (\<lambda>c. c \<noteq> CHR ''_'') (''('' @ name @ ''+'' @ rest) =
      Some (''('', name @ ''+'' @ rest)"
    using scan_set_stop [of "''(''" _ "\<lambda>c. c \<noteq> CHR ''_''" "CHR ''_''" "n @ ''+'' @ rest"] n by simp
  have 3: "scan_set 255 (\<lambda>c. c \<noteq> CHR '')'' \<and> c \<noteq> CHR ''+'') (name @ ''+'' @ rest) = Some (name, ''+'' @ rest)"
    using scan_set_stop [OF assms(5,4), of "\<lambda>c. c \<noteq> CHR '')'' \<and> c \<noteq> CHR ''+''" "CHR ''+''" rest] assms(6,7)
    by (auto 0 3)
  show ?thesis unfolding scan_mangled_def 1 option.case prod.case 2 3 by simp
qed

lemma demangle_mangled:
  assumes "CHR 0x00 \<notin> set m" "scan_mangled str = Some m" "cxa m = Some v"
  shows "demangle cxa str = Inr v"
  using assms scan_mangled_length [OF assms(2)] by (simp add: demangle_def store_cstr_ok c_str_stored)

text \<open>The second \<open>sscanf\<close>, into the buffer as the first one left it.\<close>

lemma second_scan:
  assumes "CHR 0x00 \<notin> set str" "length rt = 256" "scan_word str = Some w"
  shows "\<exists>r. store_cstr w rt = Inr r \<and> length r = 256 \<and> c_str r = w"
proof -
  have "CHR 0x00 \<notin> set w"
    using assms(1,3) by (auto simp: scan_word_eq Let_def split: if_splits dest!: in_set_takeD set_takeWhileD set_dropWhileD)
  with store_cstr_ok [OF scan_word_length [OF assms(3)] assms(2)] show ?thesis by (simp add: c_str_stored)
qed

lemma scan_mangled_set: "scan_mangled str = Some m \<Longrightarrow> set m \<subseteq> set str"
  by (auto simp: scan_mangled_def split: option.splits prod.splits dest!: scan_set_Some(1))

lemma backtrace_loop_eq:
  assumes "\<forall>str\<in>set strs. demangle cxa str = Inr (d str)"
  shows "backtrace_loop cxa strs bt = Inr (bt @ map d strs)"
  using assms by (induction strs arbitrary: bt) simp_all

lemma backtrace_lines_eq: "backtrace_lines prefix ls = concat (map (\<lambda>l. prefix @ l @ [CHR 0x0A]) ls)"
  by (induction ls) simp_all

section \<open>Properties\<close>

text \<open>
  C40. \<open>demangle\<close> stays within its buffer of 256 bytes for every text of a frame. It returns the demangled
  name when there is one. Otherwise it returns the whole buffer: a string of 256 bytes whose part before
  the first null byte is the first word of the text, cut to 255 characters; a text with no word comes
  back as it is.
\<close>

theorem demangle_fits_buffer:
  assumes "CHR 0x00 \<notin> set str"
  shows "\<exists>r. demangle cxa str = Inr r \<and>
    (case Option.bind (scan_mangled str) cxa of
       Some v \<Rightarrow> r = v
     | None \<Rightarrow> let w = take 255 (takeWhile (\<lambda>c. \<not> is_space c) (dropWhile is_space str))
               in if w = [] then r = str else length r = 256 \<and> c_str r = w)"
proof (cases "Option.bind (scan_mangled str) cxa")
  case (Some v)
  then obtain m where m: "scan_mangled str = Some m" "cxa m = Some v" by (auto simp: bind_eq_Some_conv)
  with assms scan_mangled_set [OF m(1)] have "demangle cxa str = Inr v" by (intro demangle_mangled) auto
  with Some show ?thesis by simp
next
  case None
  define rt where "rt = (case scan_mangled str of None \<Rightarrow> replicate 256 (CHR 0x00)
    | Some m \<Rightarrow> m @ CHR 0x00 # drop (Suc (length m)) (replicate 256 (CHR 0x00)))"
  have rt: "length rt = 256"
    using scan_mangled_length [of str] by (auto simp: rt_def split: option.splits)
  have "demangle cxa str = (case scan_word str of Some w \<Rightarrow> store_cstr w rt | None \<Rightarrow> Inr str)"
  proof (cases "scan_mangled str")
    case (Some m)
    with None assms scan_mangled_set [OF Some] scan_mangled_length [OF Some] have "cxa m = None" "CHR 0x00 \<notin> set m"
      "length m \<le> 255" by auto
    with Some show ?thesis by (simp add: demangle_def rt_def store_cstr_ok c_str_stored split: option.split)
  qed (simp add: demangle_def rt_def split: option.split)
  with None second_scan [OF assms rt] show ?thesis
    by (cases "scan_word str") (auto simp: scan_word_eq Let_def split: if_splits)
qed

theorem demangle_fits_buffer_witness:
  "\<exists>r. demangle (\<lambda>_. None) ''./a(main+0x1d) [0x4005]'' = Inr r \<and> length r = 256 \<and> c_str r = ''./a(main+0x1d)''"
  using demangle_fits_buffer [of "''./a(main+0x1d) [0x4005]''" "\<lambda>_. None"]
  by (simp add: is_space_def char_code_def split: option.splits bind_splits)

text \<open>
  A backtrace that fills the array: when each frame is a function whose name demangles,
  \<open>BacktraceToString\<close> is one line per frame, from the frame \<open>skip\<close> on, with the prefix and the name. A stack
  of fewer frames than \<open>size\<close> makes \<open>backtrace_symbols\<close> read the unwritten entries of the array.
\<close>

definition named_frame :: "(string \<Rightarrow> string option) \<Rightarrow> string \<times> string \<times> string \<Rightarrow> bool" where
  "named_frame cxa = (\<lambda>(file, name, rest). file \<noteq> [] \<and> CHR ''('' \<notin> set file \<and> name \<noteq> [] \<and> hd name = CHR ''_'' \<and>
     length name \<le> 255 \<and> CHR 0x00 \<notin> set name \<and> CHR '')'' \<notin> set name \<and> CHR ''+'' \<notin> set name \<and> cxa name \<noteq> None)"

lemma demangle_frame:
  assumes "named_frame cxa (file, name, rest)"
  shows "demangle cxa (frame_text file name rest) = Inr (the (cxa name))"
  using assms scan_mangled_frame [of "file" "name" "rest"]
  by (auto simp: named_frame_def intro!: demangle_mangled)

theorem BacktraceToString_frames:
  assumes "\<forall>f\<in>set fs. named_frame cxa f" and "sz \<le> length frames" and "length fs = sz"
    and "symbols (take sz frames) = Some (map (\<lambda>(file, name, rest). frame_text file name rest) fs)"
  shows "BacktraceToString cxa symbols frames sz skip prefix =
    Inr (concat (map (\<lambda>(file, name, rest). prefix @ the (cxa name) @ [CHR 0x0A]) (drop skip fs)))"
proof -
  let ?t = "\<lambda>(file, name, rest). frame_text file name rest" and ?d = "\<lambda>(file, name, rest). the (cxa name)"
  have "backtrace_loop cxa (map ?t gs) bt = Inr (bt @ map ?d gs)" if "\<forall>f\<in>set gs. named_frame cxa f" for gs bt
    using that by (induction gs arbitrary: bt) (auto simp: demangle_frame)
  from this [of "drop skip fs" "[]"] assms(1)
  have "backtrace_loop cxa (drop skip (map ?t fs)) [] = Inr (map ?d (drop skip fs))"
    by (auto simp: drop_map dest: in_set_dropD)
  with assms(2-4) show ?thesis
    by (auto simp: BacktraceToString_def Backtrace_def backtrace_lines_eq intro!: arg_cong [of _ _ concat])
qed

theorem Backtrace_short_stack:
  "length frames < sz \<Longrightarrow> BacktraceToString cxa symbols frames sz skip prefix = Inl UninitRead"
  by (simp add: BacktraceToString_def Backtrace_def)

end
