(* ===== verification/UtilDir.thy ===== *)
theory UtilDir imports UtilFS "HOL-Library.Sublist" begin

unbundle bit_operations_syntax

text \<open>
  The functions of \<open>LioNet/util.cc\<close> that walk, make and remove directories. A directory is a tree of
  named entries with the answers the system gives for each file; the system calls of \<open>Mkdir\<close> are
  arguments.
\<close>

section \<open>Files\<close>

text \<open>
  The type of a file that is not a directory. \<open>FFile t r\<close>: \<open>unlink\<close> succeeds if \<open>r\<close>. \<open>FDir o r es\<close>: \<open>access\<close>
  and \<open>opendir\<close> succeed if \<open>o\<close>, \<open>rmdir\<close> of the empty directory if \<open>r\<close>; the entries are in the order of
  \<open>readdir\<close> and include \<open>.\<close> and \<open>..\<close>. The file system is one whose \<open>readdir\<close> reports the types of entries (no \<open>DT_UNKNOWN\<close>).
\<close>

datatype ftype = T_REG | T_LNK | T_FIFO | T_CHR | T_BLK | T_SOCK

datatype fsnode = FFile ftype bool | FDir bool bool "(string \<times> fsnode) list"

fun file_mode :: "ftype \<Rightarrow> 32 word" where
  "file_mode T_FIFO = 0x1000"
| "file_mode T_CHR = 0x2000"
| "file_mode T_BLK = 0x6000"
| "file_mode T_REG = 0x8000"
| "file_mode T_LNK = 0xA000"
| "file_mode T_SOCK = 0xC000"

definition S_IFDIR :: "32 word" where
  "S_IFDIR = 0x4000"

definition is_dot :: "string \<Rightarrow> bool" where
  "is_dot n \<longleftrightarrow> n = ''.'' \<or> n = ''..''"

section \<open>Walking\<close>

text \<open>\<open>ListAllFile\<close>; only regular files are listed.\<close>

fun ListAllFile :: "string \<Rightarrow> string \<Rightarrow> fsnode \<Rightarrow> string list \<Rightarrow> string list"
  and ListAllFile_entries :: "string \<Rightarrow> string \<Rightarrow> (string \<times> fsnode) list \<Rightarrow> string list \<Rightarrow> string list" where
  "ListAllFile subfix path (FFile t r) files = files"
| "ListAllFile subfix path (FDir op r es) files =
     (if op then ListAllFile_entries subfix path es files else files)"
| "ListAllFile_entries subfix path [] files = files"
| "ListAllFile_entries subfix path ((n, FDir op r es') # es) files =
     ListAllFile_entries subfix path es
       (if is_dot n then files else ListAllFile subfix (path @ ''/'' @ n) (FDir op r es') files)"
| "ListAllFile_entries subfix path ((n, FFile t r) # es) files =
     ListAllFile_entries subfix path es
       (if t \<noteq> T_REG then files
        else if subfix = '''' then files @ [path @ ''/'' @ n]
        else if length n < length subfix then files
        else if substr n (length n - length subfix) (length n) = subfix then files @ [path @ ''/'' @ n]
        else files)"

text \<open>The reference: all regular files below a directory.\<close>

fun all_files :: "string \<Rightarrow> fsnode \<Rightarrow> string list"
  and all_files_entries :: "string \<Rightarrow> (string \<times> fsnode) list \<Rightarrow> string list" where
  "all_files path (FFile t r) = []"
| "all_files path (FDir op r es) = (if op then all_files_entries path es else [])"
| "all_files_entries path [] = []"
| "all_files_entries path ((n, FDir op r es') # es) =
     (if is_dot n then [] else all_files (path @ ''/'' @ n) (FDir op r es')) @ all_files_entries path es"
| "all_files_entries path ((n, FFile t r) # es) =
     (if t = T_REG then [path @ ''/'' @ n] else []) @ all_files_entries path es"

fun names_ok :: "fsnode \<Rightarrow> bool"
  and names_ok_entries :: "(string \<times> fsnode) list \<Rightarrow> bool" where
  "names_ok (FFile t r) = True"
| "names_ok (FDir op r es) = names_ok_entries es"
| "names_ok_entries [] = True"
| "names_ok_entries ((n, nd) # es) = (CHR ''/'' \<notin> set n \<and> names_ok nd \<and> names_ok_entries es)"

lemma substr_suffix:
  assumes "length suf \<le> length n"
  shows "substr n (length n - length suf) (length n) = suf \<longleftrightarrow> suffix suf n"
proof
  assume "substr n (length n - length suf) (length n) = suf"
  then show "suffix suf n" unfolding substr_def using suffix_drop [of "length n - length suf" n] by simp
next
  assume "suffix suf n"
  then obtain p where "n = p @ suf" by (auto simp: suffix_def)
  then show "substr n (length n - length suf) (length n) = suf" by (simp add: substr_def)
qed

lemma suffix_of_name:
  assumes "CHR ''/'' \<notin> set suf"
  shows "suffix suf (path @ ''/'' @ n) \<longleftrightarrow> suffix suf n"
proof
  assume s: "suffix suf (path @ ''/'' @ n)"
  show "suffix suf n"
  proof (cases "length suf \<le> length n")
    case True
    have "suffix n (path @ ''/'' @ n)" by (rule suffixI [of _ "path @ ''/''"]) simp
    then show ?thesis using s True suffix_length_suffix by blast
  next
    case False
    have "suffix (''/'' @ n) (path @ ''/'' @ n)" by (rule suffixI) simp
    moreover have "length (''/'' @ n) \<le> length suf" using False by simp
    ultimately have "suffix (''/'' @ n) suf" using s suffix_length_suffix by blast
    then have "CHR ''/'' \<in> set suf" by (auto simp: suffix_def)
    with assms show ?thesis by simp
  qed
next
  assume "suffix suf n"
  then obtain p where "n = p @ suf" by (auto simp: suffix_def)
  then show "suffix suf (path @ ''/'' @ n)" by (intro suffixI [of _ "path @ ''/'' @ p"]) simp
qed

lemma ListAllFile_filter:
  assumes "CHR ''/'' \<notin> set subfix"
  shows "ListAllFile subfix path nd files = files @ filter (suffix subfix) (all_files path nd)"
    and "ListAllFile_entries subfix path es files = files @ filter (suffix subfix) (all_files_entries path es)"
  using assms
proof (induction subfix path nd files and subfix path es files rule: ListAllFile_ListAllFile_entries.induct)
  case (5 subfix path n t r es files)
  have "suffix subfix (path @ ''/'' @ n) \<longleftrightarrow>
      subfix = '''' \<or> length subfix \<le> length n \<and> substr n (length n - length subfix) (length n) = subfix"
    unfolding suffix_of_name [OF 5(2)] using substr_suffix [of subfix n] suffix_length_le [of subfix n] by auto
  with 5 show ?case by simp
qed auto

section \<open>Making directories\<close>

text \<open>
  \<open>__mkdir\<close>: \<open>acc\<close> is \<open>access(p, F_OK) == 0\<close> and \<open>mk\<close> is \<open>mkdir\<close>, on a state \<open>w\<close> of the file system.
\<close>

definition mkdir1 :: "(string \<Rightarrow> 'w \<Rightarrow> bool) \<Rightarrow> (string \<Rightarrow> 'w \<Rightarrow> bool \<times> 'w) \<Rightarrow> string \<Rightarrow> 'w \<Rightarrow> bool \<times> 'w" where
  "mkdir1 acc mk p w = (if acc p w then (True, w) else mk p w)"

text \<open>\<open>strchr(path + i, '/')\<close> as a position.\<close>

function next_slash :: "string \<Rightarrow> nat \<Rightarrow> nat option" where
  "next_slash p i = (if length p \<le> i then None else if p ! i = CHR ''/'' then Some i else next_slash p (Suc i))"
  by pat_completeness auto
termination by (relation "measure (\<lambda>(p, i). length p - i)") auto

declare next_slash.simps [simp del]

lemma next_slash_bound: "next_slash p i = Some j \<Longrightarrow> i \<le> j \<and> j < length p"
proof (induction p i rule: next_slash.induct)
  case (1 p i)
  then show ?case by (cases "length p \<le> i"; cases "p ! i = CHR ''/''") (auto simp: next_slash.simps [of p i])
qed

text \<open>The \<open>for\<close> loop: the position is \<open>ptr\<close>; true if it ended without \<open>break\<close>.\<close>

function mkdir_loop ::
    "(string \<Rightarrow> 'w \<Rightarrow> bool) \<Rightarrow> (string \<Rightarrow> 'w \<Rightarrow> bool \<times> 'w) \<Rightarrow> string \<Rightarrow> nat option \<Rightarrow> 'w \<Rightarrow> bool \<times> 'w" where
  "mkdir_loop acc mk p None w = (True, w)"
| "mkdir_loop acc mk p (Some i) w =
     (case mkdir1 acc mk (take i p) w of
        (False, w') \<Rightarrow> (False, w')
      | (True, w') \<Rightarrow> mkdir_loop acc mk p (next_slash p (Suc i)) w')"
  by pat_completeness auto
termination
  by (relation "measure (\<lambda>(acc, mk, p, i, w). case i of None \<Rightarrow> 0 | Some j \<Rightarrow> Suc (length p - j))")
    (auto split: option.splits dest!: next_slash_bound)

text \<open>\<open>Mkdir\<close>: \<open>ex\<close> is \<open>__lstat(p) == 0\<close>. For the empty name \<open>path + 1\<close> is outside the text.\<close>

definition Mkdir ::
    "(string \<Rightarrow> 'w \<Rightarrow> bool) \<Rightarrow> (string \<Rightarrow> 'w \<Rightarrow> bool) \<Rightarrow> (string \<Rightarrow> 'w \<Rightarrow> bool \<times> 'w) \<Rightarrow> string \<Rightarrow> 'w \<Rightarrow> (bool \<times> 'w) res" where
  "Mkdir ex acc mk dirname w =
     (let p = c_str dirname
      in if ex p w then Inr (True, w)
         else if p = [] then Inl OutOfBounds
         else (case mkdir_loop acc mk p (next_slash p 1) w of
                 (False, w') \<Rightarrow> Inr (False, w')
               | (True, w') \<Rightarrow> Inr (mkdir1 acc mk p w')))"

text \<open>The reference: the directories above a path, from the root down, and the path itself.\<close>

definition parents :: "string \<Rightarrow> nat \<Rightarrow> string list" where
  "parents p i = map (\<lambda>j. take j p) (filter (\<lambda>j. p ! j = CHR ''/'') [i..<length p])"

fun mk_all :: "(string \<Rightarrow> 'w \<Rightarrow> bool) \<Rightarrow> (string \<Rightarrow> 'w \<Rightarrow> bool \<times> 'w) \<Rightarrow> string list \<Rightarrow> 'w \<Rightarrow> bool \<times> 'w" where
  "mk_all acc mk [] w = (True, w)"
| "mk_all acc mk (p # ps) w =
     (case mkdir1 acc mk p w of (False, w') \<Rightarrow> (False, w') | (True, w') \<Rightarrow> mk_all acc mk ps w')"

lemma mk_all_append:
  "mk_all acc mk (ps @ qs) w =
     (case mk_all acc mk ps w of (False, w') \<Rightarrow> (False, w') | (True, w') \<Rightarrow> mk_all acc mk qs w')"
  by (induction ps arbitrary: w) (auto split: prod.splits bool.splits)

lemma parents_next:
  "parents p i = (case next_slash p i of None \<Rightarrow> [] | Some j \<Rightarrow> take j p # parents p (Suc j))"
proof (induction p i rule: next_slash.induct)
  case (1 p i)
  show ?case
  proof (cases "length p \<le> i")
    case True
    then show ?thesis by (simp add: next_slash.simps [of p i] parents_def)
  next
    case False
    then have "[i..<length p] = i # [Suc i..<length p]" by (simp add: upt_conv_Cons)
    with 1 False show ?thesis by (simp add: next_slash.simps [of p i] parents_def)
  qed
qed

lemma mkdir_loop_parents:
  assumes "pos = next_slash p i"
  shows "mkdir_loop acc mk p pos w = mk_all acc mk (parents p i) w"
  using assms
proof (induction acc mk p pos w arbitrary: i rule: mkdir_loop.induct)
  case (1 acc mk p w)
  then show ?case by (simp add: parents_next [of p i])
next
  case (2 acc mk p j w)
  then have p: "parents p i = take j p # parents p (Suc j)" by (simp add: parents_next [of p i] flip: 2(2))
  obtain b w' where m: "mkdir1 acc mk (take j p) w = (b, w')" by (cases "mkdir1 acc mk (take j p) w")
  from 2(1) [of b w' "Suc j"] m p show ?case by (cases b) auto
qed

text \<open>What the system promises: a directory that was made exists, and so do those that existed.\<close>

definition mk_lawful :: "(string \<Rightarrow> 'w \<Rightarrow> bool) \<Rightarrow> (string \<Rightarrow> 'w \<Rightarrow> bool \<times> 'w) \<Rightarrow> bool" where
  "mk_lawful acc mk \<longleftrightarrow> (\<forall>p w. (fst (mk p w) \<longrightarrow> acc p (snd (mk p w))) \<and>
     (\<forall>q. acc q w \<longrightarrow> acc q (snd (mk p w))))"

lemma mk_all_exists:
  assumes "mk_lawful acc mk"
  shows "(fst (mk_all acc mk ps w) \<longrightarrow> (\<forall>p\<in>set ps. acc p (snd (mk_all acc mk ps w)))) \<and>
    (\<forall>q. acc q w \<longrightarrow> acc q (snd (mk_all acc mk ps w)))"
proof (induction ps arbitrary: w)
  case (Cons p ps)
  obtain b w' where m: "mkdir1 acc mk p w = (b, w')" by (cases "mkdir1 acc mk p w")
  then have "(b \<longrightarrow> acc p w') \<and> (\<forall>q. acc q w \<longrightarrow> acc q w')"
    using assms by (auto simp: mkdir1_def mk_lawful_def split: if_splits) (metis fst_conv snd_conv)+
  with m Cons.IH [of w'] show ?case by (cases b) auto
qed simp

section \<open>Removing\<close>

text \<open>
  \<open>Unlink\<close> and \<open>Rm\<close>, with the node that is left (\<open>None\<close>: nothing). \<open>Rm\<close> takes every file whose mode has
  the bit of \<open>S_IFDIR\<close> for a directory. \<open>rmdir\<close> needs an empty directory. In the loop over the entries
  \<open>ret\<close> is overwritten by each entry.
\<close>

definition Unlink :: "bool \<Rightarrow> fsnode option \<Rightarrow> bool \<times> fsnode option" where
  "Unlink exist nd =
     (if \<not> exist \<and> nd = None then (True, None)
      else (case nd of
              Some (FFile t r) \<Rightarrow> if r then (True, None) else (False, nd)
            | _ \<Rightarrow> (False, nd)))"

fun Rm :: "fsnode \<Rightarrow> bool \<times> fsnode option"
  and Rm_entries :: "(string \<times> fsnode) list \<Rightarrow> bool \<Rightarrow> bool \<times> (string \<times> fsnode) list" where
  "Rm (FFile t r) =
     (if file_mode t AND S_IFDIR = 0 then Unlink False (Some (FFile t r)) else (False, Some (FFile t r)))"
| "Rm (FDir op r es) =
     (if \<not> op then (False, Some (FDir op r es))
      else (let (ret, es') = Rm_entries es True
            in if r \<and> (\<forall>e\<in>set es'. is_dot (fst e)) then (ret, None)
               else (False, Some (FDir op r es'))))"
| "Rm_entries [] ret = (ret, [])"
| "Rm_entries ((n, nd) # es) ret =
     (if is_dot n then (let (ret', es') = Rm_entries es ret in (ret', (n, nd) # es'))
      else (let (ret1, left) = Rm nd; (ret', es') = Rm_entries es ret1
            in (ret', (case left of None \<Rightarrow> [] | Some nd' \<Rightarrow> [(n, nd')]) @ es')))"

text \<open>\<open>lstat\<close> fails on a path with nothing there.\<close>

definition Rm_path :: "string \<Rightarrow> (string \<Rightarrow> fsnode option) \<Rightarrow> bool \<times> (string \<Rightarrow> fsnode option)" where
  "Rm_path p fs = (case fs p of
       None \<Rightarrow> (True, fs)
     | Some nd \<Rightarrow> (let (ret, left) = Rm nd in (ret, fs(p := left))))"

text \<open>
  \<open>Mv\<close>, \<open>Symlink\<close> and \<open>Realpath\<close> on the entries of one directory; \<open>allowed\<close> is the system's answer to
  \<open>rename\<close> and \<open>symlink\<close> where nothing else speaks against them, \<open>real\<close> that to \<open>realpath\<close>.
\<close>

definition Mv :: "bool \<Rightarrow> string \<Rightarrow> string \<Rightarrow> (string \<Rightarrow> fsnode option) \<Rightarrow> bool \<times> (string \<Rightarrow> fsnode option)" where
  "Mv allowed from to fs =
     (let (ok, fs1) = Rm_path to fs
      in if \<not> ok then (False, fs1)
         else (case fs1 from of
                 Some nd \<Rightarrow> if allowed then (True, (fs1(from := None))(to \<mapsto> nd)) else (False, fs1)
               | None \<Rightarrow> (False, fs1)))"

definition Symlink :: "bool \<Rightarrow> string \<Rightarrow> string \<Rightarrow> (string \<Rightarrow> fsnode option) \<Rightarrow> bool \<times> (string \<Rightarrow> fsnode option)" where
  "Symlink allowed from to fs =
     (let (ok, fs1) = Rm_path to fs
      in if \<not> ok then (False, fs1)
         else if allowed then (True, fs1(to \<mapsto> FFile T_LNK True)) else (False, fs1))"

definition Realpath :: "(string \<Rightarrow> bool) \<Rightarrow> (string \<Rightarrow> string option) \<Rightarrow> string \<Rightarrow> string \<Rightarrow> bool \<times> string" where
  "Realpath ex real path rpath =
     (if \<not> ex (c_str path) then (False, rpath)
      else (case real (c_str path) of None \<Rightarrow> (False, rpath) | Some r \<Rightarrow> (True, r)))"

text \<open>
  \<open>IsRunningPidfile\<close>: \<open>line\<close> is the first line of the file, if it can be read; \<open>atoi\<close> reads an optional
  sign and digits after white space, which has to fit an \<open>int\<close>; \<open>alive\<close> is \<open>kill(pid, 0) == 0\<close>.
\<close>

definition digit_value :: "char \<Rightarrow> int" where
  "digit_value c = int (char_code c) - 48"

definition is_digit :: "char \<Rightarrow> bool" where
  "is_digit c \<longleftrightarrow> 48 \<le> char_code c \<and> char_code c \<le> 57"

definition atoi_digits :: "string \<Rightarrow> int" where
  "atoi_digits s = foldl (\<lambda>v c. 10 * v + digit_value c) 0 (takeWhile is_digit s)"

definition atoi :: "string \<Rightarrow> int res" where
  "atoi s =
     (let t = dropWhile is_space s;
          v = (case t of
                 c # t' \<Rightarrow> if c = CHR ''-'' then - atoi_digits t' else if c = CHR ''+'' then atoi_digits t' else atoi_digits t
               | [] \<Rightarrow> 0)
      in if - 2147483648 \<le> v \<and> v \<le> 2147483647 then Inr v else Inl OutOfBounds)"

definition IsRunningPidfile :: "bool \<Rightarrow> string option \<Rightarrow> (int \<Rightarrow> bool) \<Rightarrow> bool res" where
  "IsRunningPidfile ex line alive =
     (if \<not> ex then Inr False
      else (case line of
              None \<Rightarrow> Inr False
            | Some l \<Rightarrow> if l = '''' then Inr False
                else res_bind (atoi (c_str l)) (\<lambda>pid. Inr (if pid \<le> 1 then False else alive pid))))"

text \<open>What \<open>Rm\<close> can remove.\<close>

fun removable :: "fsnode \<Rightarrow> bool"
  and removable_entries :: "(string \<times> fsnode) list \<Rightarrow> bool" where
  "removable (FFile t r) = (r \<and> t \<noteq> T_BLK \<and> t \<noteq> T_SOCK)"
| "removable (FDir op r es) = (op \<and> r \<and> removable_entries es)"
| "removable_entries [] = True"
| "removable_entries ((n, nd) # es) = ((is_dot n \<or> removable nd) \<and> removable_entries es)"

lemma file_mode_dir: "file_mode t AND S_IFDIR = 0 \<longleftrightarrow> t \<noteq> T_BLK \<and> t \<noteq> T_SOCK"
  by (cases t) (simp_all add: S_IFDIR_def)

lemma Rm_removable:
  "fst (Rm nd) = removable nd \<and> (snd (Rm nd) = None) = removable nd"
  "(\<forall>e\<in>set (snd (Rm_entries es ret)). is_dot (fst e)) = removable_entries es \<and>
    (removable_entries es \<longrightarrow> ret \<longrightarrow> fst (Rm_entries es ret))"
proof (induction nd and es ret rule: Rm_Rm_entries.induct)
  case (1 t r)
  then show ?case by (auto simp: file_mode_dir Unlink_def)
next
  case (2 op r es)
  then show ?case by (cases "Rm_entries es True") auto
next
  case (4 n nd es ret)
  show ?case
  proof (cases "is_dot n")
    case True
    with 4 show ?thesis by (cases "Rm_entries es ret") auto
  next
    case False
    obtain r1 lft where r: "Rm nd = (r1, lft)" by (cases "Rm nd")
    from 4(2) [OF False] r have "r1 = removable nd" "(lft = None) = removable nd" by simp_all
    with 4(3) [OF False r [symmetric] refl] r False show ?thesis
      by (cases "Rm_entries es r1") (auto split: option.splits)
  qed
qed simp

section \<open>Properties\<close>

definition demo_dir :: fsnode where
  "demo_dir = FDir True True [(''.'', FDir True True []), (''a.yml'', FFile T_REG True), (''b.txt'', FFile T_REG True),
     (''sub'', FDir True True [(''c.yml'', FFile T_REG True), (''s.yml'', FFile T_SOCK True)])]"

text \<open>
  C39. \<open>ListAllFile\<close> finds, at every depth, exactly the regular files whose path ends in the given text,
  each once and in the order of the directories, after the files found before.
\<close>

theorem ListAllFile_complete:
  assumes "CHR ''/'' \<notin> set subfix"
  shows "ListAllFile subfix path nd files = files @ filter (suffix subfix) (all_files path nd)"
  by (rule ListAllFile_filter(1) [OF assms])

theorem ListAllFile_complete_witness:
  "ListAllFile ''.yml'' ''conf'' demo_dir [] = [''conf/a.yml'', ''conf/sub/c.yml'']"
  using ListAllFile_complete [of "''.yml''" "''conf''" demo_dir "[]"]
  by (simp add: demo_dir_def is_dot_def suffix_def)

text \<open>
  \<open>Mkdir\<close> of a path that does not exist makes the directories above it, from the first one down, and
  then the path, stopping at the first that cannot be made; when it returns true, all of them exist
  afterwards, and nothing that existed is gone.
\<close>

theorem Mkdir_makes_parents:
  assumes "mk_lawful acc mk" and "CHR 0x00 \<notin> set dirname" and "dirname \<noteq> ''''" and "\<not> ex dirname w"
  shows "Mkdir ex acc mk dirname w = Inr (mk_all acc mk (parents dirname 1 @ [dirname]) w) \<and>
    (case mk_all acc mk (parents dirname 1 @ [dirname]) w of (ok, w') \<Rightarrow>
       (ok \<longrightarrow> acc dirname w' \<and> (\<forall>p\<in>set (parents dirname 1). acc p w')) \<and>
       (\<forall>q. acc q w \<longrightarrow> acc q w'))"
proof -
  have c: "c_str dirname = dirname" using assms(2) by (auto simp: c_str_def takeWhile_eq_all_conv)
  have "mk_all acc mk [p] v = mkdir1 acc mk p v" for p v by (auto split: prod.splits bool.splits)
  then have "Mkdir ex acc mk dirname w = Inr (mk_all acc mk (parents dirname 1 @ [dirname]) w)"
    unfolding Mkdir_def c Let_def mk_all_append mkdir_loop_parents [OF refl]
    using assms(3,4) by (auto split: prod.splits bool.splits)
  with mk_all_exists [OF assms(1), of "parents dirname 1 @ [dirname]" w] show ?thesis
    by (auto simp: split_beta)
qed

theorem Mkdir_makes_parents_witness:
  "Mkdir (\<lambda>p w. p \<in> w) (\<lambda>p w. p \<in> w) (\<lambda>p w. (True, insert p w)) ''log/a/b'' {''log''} =
    Inr (True, {''log'', ''log/a'', ''log/a/b''})"
proof -
  let ?acc = "\<lambda>p w. p \<in> w" and ?mk = "\<lambda>p w. (True, insert p w)"
  have ps: "parents ''log/a/b'' 1 = [''log'', ''log/a'']" by (simp add: parents_def upt_rec)
  have l: "mk_lawful ?acc ?mk" by (simp add: mk_lawful_def)
  from Mkdir_makes_parents [OF l, of "''log/a/b''" ?acc "{''log''}"] show ?thesis
    unfolding ps by (simp add: mkdir1_def insert_commute)
qed

text \<open>
  \<open>Rm\<close> returns true exactly when nothing is left, although its result is overwritten by each entry;
  and it removes exactly what the system lets it remove, except that sockets and block devices, whose
  mode shares a bit with that of directories, are taken for directories and stay, with all directories
  above them.
\<close>

theorem Rm_true_iff_gone:
  "(fst (Rm nd) \<longleftrightarrow> snd (Rm nd) = None) \<and> (fst (Rm nd) \<longleftrightarrow> removable nd)"
  using Rm_removable(1) [of nd] by blast

text \<open>
  \<open>Mv\<close> removes its target first: moving a file onto itself, or a rename that the system refuses, loses
  the target.
\<close>

lemma Mv_loses_target:
  assumes "fs p = Some nd" and "removable nd"
  shows "Mv allowed p p fs = (False, fs(p := None))"
    and "q \<noteq> p \<Longrightarrow> Mv False q p fs = (False, fs(p := None))"
  using assms Rm_removable(1) [of nd]
  by (auto simp: Mv_def Rm_path_def split: prod.splits option.splits)

end
