(* ===== verification/LogCore.thy ===== *)
theory LogCore imports LogFormat UtilFS "HOL-Library.Char_ord" "HOL-Library.List_Lexorder" begin

text \<open>
  Loggers, appenders and the logger manager of \<open>LioNet/log.h\<close> and \<open>log.cc\<close>. Appenders and
  loggers are objects on a heap, since a logger's appenders and the manager's loggers are shared
  pointers; the console and the files collect what is written. The locks of these objects
  are taken and released within each operation and are left out (theory MutexModel).
\<close>

section \<open>Objects\<close>

datatype appender_kind = StdoutLogAppender | FileLogAppender

text \<open>\<open>LogAppender\<close> with the members of \<open>FileLogAppender\<close> (unused by the other class).\<close>

record appender =
  a_kind :: appender_kind
  a_level :: log_level
  a_formatter :: "formatter option"
  a_hasFormatter :: bool
  a_filename :: string
  a_filestream :: stream
  a_lastTime :: "64 word"

record logger =
  l_name :: string
  l_level :: log_level
  l_appenders :: "nat list"
  l_formatter :: "formatter option"
  l_root :: "nat option"

text \<open>
  The heap, the manager's \<open>m_loggers\<close> and \<open>m_root\<close>, and the outputs. \<open>files\<close> is what each file has
  received; \<open>sys_opens\<close> and \<open>sys_opens_dir\<close> tell if a file can be opened without and with making its
  directory, \<open>sys_writes\<close> if the system takes what is written to it.
\<close>

record log_sys =
  appenders :: "nat \<Rightarrow> appender option"
  loggers :: "nat \<Rightarrow> logger option"
  next_obj :: nat
  m_loggers :: "(string \<times> nat) list"
  mgr_root :: "nat option"
  console :: string
  files :: "string \<Rightarrow> string"
  sys_opens :: "string \<Rightarrow> bool"
  sys_opens_dir :: "string \<Rightarrow> bool"
  sys_writes :: "string \<Rightarrow> bool"

definition get_appender :: "nat \<Rightarrow> log_sys \<Rightarrow> appender res" where
  "get_appender a s = (case appenders s a of None \<Rightarrow> Inl NullDeref | Some x \<Rightarrow> Inr x)"

definition get_logger :: "nat \<Rightarrow> log_sys \<Rightarrow> logger res" where
  "get_logger l s = (case loggers s l of None \<Rightarrow> Inl NullDeref | Some x \<Rightarrow> Inr x)"

definition put_appender :: "nat \<Rightarrow> appender \<Rightarrow> log_sys \<Rightarrow> log_sys" where
  "put_appender a x s = s\<lparr>appenders := (appenders s)(a \<mapsto> x)\<rparr>"

definition put_logger :: "nat \<Rightarrow> logger \<Rightarrow> log_sys \<Rightarrow> log_sys" where
  "put_logger l x s = s\<lparr>loggers := (loggers s)(l \<mapsto> x)\<rparr>"

section \<open>Appenders\<close>

definition LogAppender_setFormatter :: "formatter option \<Rightarrow> appender \<Rightarrow> appender" where
  "LogAppender_setFormatter f x = x\<lparr>a_formatter := f, a_hasFormatter := (f \<noteq> None)\<rparr>"

definition LogAppender_setLevel :: "log_level \<Rightarrow> appender \<Rightarrow> appender" where
  "LogAppender_setLevel lv x = x\<lparr>a_level := lv\<rparr>"

definition StdoutLogAppender_new :: appender where
  "StdoutLogAppender_new =
     \<lparr>a_kind = StdoutLogAppender, a_level = DEBUG, a_formatter = None, a_hasFormatter = False,
      a_filename = '''', a_filestream = stream_new, a_lastTime = 0\<rparr>"

text \<open>\<open>FileLogAppender::reopen\<close>\<close>

definition FileLogAppender_reopen ::
    "(string \<Rightarrow> bool) \<Rightarrow> (string \<Rightarrow> bool) \<Rightarrow> appender \<Rightarrow> bool \<times> appender" where
  "FileLogAppender_reopen opens opens_dir x =
     (let st = (if \<not> failed (a_filestream x) then stream_close (a_filestream x) else a_filestream x);
          (ok, _, st') = OpenForWrite opens opens_dir (a_filename x) st
      in (ok, x\<lparr>a_filestream := st'\<rparr>))"

definition FileLogAppender_new ::
    "(string \<Rightarrow> bool) \<Rightarrow> (string \<Rightarrow> bool) \<Rightarrow> string \<Rightarrow> appender" where
  "FileLogAppender_new opens opens_dir filename =
     snd (FileLogAppender_reopen opens opens_dir
       \<lparr>a_kind = FileLogAppender, a_level = DEBUG, a_formatter = None, a_hasFormatter = False,
        a_filename = filename, a_filestream = stream_new, a_lastTime = 0\<rparr>)"

text \<open>
  \<open>log\<close> of the two classes, for the logger called \<open>name\<close>. Text written to a stream that is not open or
  has failed, or that the system does not take, is lost, and the stream is failed afterwards. The
  result of the file appender is the text for the file, the lines it prints on the console, and the
  appender.
\<close>

definition StdoutLogAppender_log ::
    "time_str \<Rightarrow> string \<Rightarrow> log_level \<Rightarrow> log_event \<Rightarrow> appender \<Rightarrow> string \<Rightarrow> string res" where
  "StdoutLogAppender_log tstr name level e x out =
     (if level \<ge> a_level x then
        (case a_formatter x of
           None \<Rightarrow> Inl NullDeref
         | Some f \<Rightarrow> res_bind (LogFormatter_format tstr name level e (m_items f)) (\<lambda>t. Inr (out @ t)))
      else Inr out)"

definition not_open_line :: string where
  "not_open_line = ''File stream is not open.'' @ [CHR 0x0A]"

definition file_error_line :: string where
  "file_error_line = ''log to file error '' @ [CHR 0x0A]"

definition FileLogAppender_log ::
    "time_str \<Rightarrow> (string \<Rightarrow> bool) \<Rightarrow> (string \<Rightarrow> bool) \<Rightarrow> (string \<Rightarrow> bool) \<Rightarrow> string \<Rightarrow> log_level \<Rightarrow>
     log_event \<Rightarrow> appender \<Rightarrow> (string \<times> string \<times> appender) res" where
  "FileLogAppender_log tstr opens opens_dir writes name level e x =
     (if level \<ge> a_level x then
        (let now = e_time e;
             x1 = (if now \<ge> a_lastTime x + 3
                   then (snd (FileLogAppender_reopen opens opens_dir x))\<lparr>a_lastTime := now\<rparr> else x);
             out = (if \<not> is_open (a_filestream x1) then not_open_line else '''')
         in case a_formatter x1 of
              None \<Rightarrow> Inl NullDeref
            | Some f \<Rightarrow> res_bind (LogFormatter_format tstr name level e (m_items f)) (\<lambda>t.
                if \<not> failed (a_filestream x1) \<and> (t = '''' \<or> is_open (a_filestream x1) \<and> writes (a_filename x1))
                then Inr (t, out, x1)
                else Inr ('''', out @ file_error_line,
                       x1\<lparr>a_filestream := (a_filestream x1)\<lparr>failed := True\<rparr>\<rparr>)))
      else Inr ('''', '''', x))"

definition LogAppender_log :: "time_str \<Rightarrow> string \<Rightarrow> log_level \<Rightarrow> log_event \<Rightarrow> nat \<Rightarrow> log_sys \<Rightarrow> log_sys res" where
  "LogAppender_log tstr name level e a s =
     res_bind (get_appender a s) (\<lambda>x. case a_kind x of
        StdoutLogAppender \<Rightarrow>
          res_bind (StdoutLogAppender_log tstr name level e x (console s)) (\<lambda>out.
            Inr (s\<lparr>console := out\<rparr>))
      | FileLogAppender \<Rightarrow>
          res_bind (FileLogAppender_log tstr (sys_opens s) (sys_opens_dir s) (sys_writes s) name level e x) (\<lambda>(t, out, x').
            Inr ((put_appender a x' s)
                   \<lparr>console := console s @ out,
                    files := (files s)(a_filename x := files s (a_filename x) @ t)\<rparr>)))"

section \<open>Loggers\<close>

definition default_pattern :: string where
  "default_pattern = ''%d{%Y-%m-%d %H:%M:%S}%T%t%T%N%T%F%T[%p]%T[%c]%T%f:%l%T%m%n''"

definition Logger_new :: "string \<Rightarrow> logger" where
  "Logger_new name =
     \<lparr>l_name = name, l_level = DEBUG, l_appenders = [],
      l_formatter = Some (LogFormatter_new default_pattern), l_root = None\<rparr>"

text \<open>\<open>setFormatter(ptr)\<close>: the appenders without a formatter of their own take it over.\<close>

fun inherit_formatter :: "formatter option \<Rightarrow> nat list \<Rightarrow> log_sys \<Rightarrow> log_sys res" where
  "inherit_formatter f [] s = Inr s"
| "inherit_formatter f (a # as) s =
     res_bind (get_appender a s) (\<lambda>x.
       inherit_formatter f as
         (if \<not> a_hasFormatter x then put_appender a (x\<lparr>a_formatter := f\<rparr>) s else s))"

definition Logger_setFormatter :: "nat \<Rightarrow> formatter option \<Rightarrow> log_sys \<Rightarrow> log_sys res" where
  "Logger_setFormatter l f s =
     res_bind (get_logger l s) (\<lambda>x.
       inherit_formatter f (l_appenders x) (put_logger l (x\<lparr>l_formatter := f\<rparr>) s))"

text \<open>
  \<open>setFormatter(string)\<close> ignores a pattern that is an error. The lines that it and the constructor of the
  formatter print go to the console.
\<close>

definition Logger_setFormatter_string :: "nat \<Rightarrow> string \<Rightarrow> log_sys \<Rightarrow> log_sys res" where
  "Logger_setFormatter_string l val s =
     (let s1 = s\<lparr>console := console s @ ''---'' @ val @ [CHR 0x0A] @ init_output val 0\<rparr>;
          new_val = LogFormatter_new val
      in res_bind (get_logger l s1) (\<lambda>x.
           if isError new_val then
             Inr (s1\<lparr>console := console s1 @ ''Logger name = '' @ l_name x @ '' set Formatter, value = '' @
                     val @ '' is invalid formatter'' @ [CHR 0x0A]\<rparr>)
           else Logger_setFormatter l (Some new_val) s1))"

definition Logger_addAppender :: "nat \<Rightarrow> nat \<Rightarrow> log_sys \<Rightarrow> log_sys res" where
  "Logger_addAppender l a s =
     res_bind (get_logger l s) (\<lambda>x.
       res_bind (get_appender a s) (\<lambda>y.
         let y' = (if a_formatter y = None then LogAppender_setFormatter (l_formatter x) y else y)
         in Inr (put_logger l (x\<lparr>l_appenders := l_appenders x @ [a]\<rparr>) (put_appender a y' s))))"

definition Logger_delAppender :: "nat \<Rightarrow> nat \<Rightarrow> log_sys \<Rightarrow> log_sys res" where
  "Logger_delAppender l a s =
     res_bind (get_logger l s) (\<lambda>x. Inr (put_logger l (x\<lparr>l_appenders := remove1 a (l_appenders x)\<rparr>) s))"

definition Logger_clearAppenders :: "nat \<Rightarrow> log_sys \<Rightarrow> log_sys res" where
  "Logger_clearAppenders l s =
     res_bind (get_logger l s) (\<lambda>x. Inr (put_logger l (x\<lparr>l_appenders := []\<rparr>) s))"

definition Logger_setLevel :: "nat \<Rightarrow> log_level \<Rightarrow> log_sys \<Rightarrow> log_sys res" where
  "Logger_setLevel l lv s = res_bind (get_logger l s) (\<lambda>x. Inr (put_logger l (x\<lparr>l_level := lv\<rparr>) s))"

text \<open>
  \<open>Logger::log\<close>: to its appenders, or to the root logger when it has none. The chain of roots has
  length one; \<open>fuel\<close> bounds the recursion.
\<close>

fun appenders_log :: "time_str \<Rightarrow> string \<Rightarrow> log_level \<Rightarrow> log_event \<Rightarrow> nat list \<Rightarrow> log_sys \<Rightarrow> log_sys res" where
  "appenders_log tstr name level e [] s = Inr s"
| "appenders_log tstr name level e (a # as) s =
     res_bind (LogAppender_log tstr name level e a s) (appenders_log tstr name level e as)"

fun Logger_log :: "nat \<Rightarrow> time_str \<Rightarrow> log_level \<Rightarrow> log_event \<Rightarrow> nat \<Rightarrow> log_sys \<Rightarrow> log_sys res option" where
  "Logger_log fuel tstr level e l s =
     (case get_logger l s of
        Inl err \<Rightarrow> Some (Inl err)
      | Inr x \<Rightarrow>
          if level \<ge> l_level x then
            if l_appenders x \<noteq> [] then Some (appenders_log tstr (l_name x) level e (l_appenders x) s)
            else (case l_root x of
                None \<Rightarrow> Some (Inr s)
              | Some r \<Rightarrow> (case fuel of 0 \<Rightarrow> None | Suc n \<Rightarrow> Logger_log n tstr level e r s))
          else Some (Inr s))"

text \<open>\<open>debug\<close> to \<open>fatal\<close>, and the destructor of \<open>LogEventWrap\<close>, which the macros use.\<close>

definition Logger_debug :: "nat \<Rightarrow> time_str \<Rightarrow> log_event \<Rightarrow> nat \<Rightarrow> log_sys \<Rightarrow> log_sys res option" where
  "Logger_debug fuel tstr e l s = Logger_log fuel tstr DEBUG e l s"

definition Logger_info :: "nat \<Rightarrow> time_str \<Rightarrow> log_event \<Rightarrow> nat \<Rightarrow> log_sys \<Rightarrow> log_sys res option" where
  "Logger_info fuel tstr e l s = Logger_log fuel tstr INFO e l s"

definition Logger_warn :: "nat \<Rightarrow> time_str \<Rightarrow> log_event \<Rightarrow> nat \<Rightarrow> log_sys \<Rightarrow> log_sys res option" where
  "Logger_warn fuel tstr e l s = Logger_log fuel tstr WARN e l s"

definition Logger_error :: "nat \<Rightarrow> time_str \<Rightarrow> log_event \<Rightarrow> nat \<Rightarrow> log_sys \<Rightarrow> log_sys res option" where
  "Logger_error fuel tstr e l s = Logger_log fuel tstr ERROR e l s"

definition Logger_fatal :: "nat \<Rightarrow> time_str \<Rightarrow> log_event \<Rightarrow> nat \<Rightarrow> log_sys \<Rightarrow> log_sys res option" where
  "Logger_fatal fuel tstr e l s = Logger_log fuel tstr FATAL e l s"

definition LogEventWrap_delete :: "nat \<Rightarrow> time_str \<Rightarrow> log_event \<Rightarrow> log_sys \<Rightarrow> log_sys res option" where
  "LogEventWrap_delete fuel tstr e s = Logger_log fuel tstr (e_level e) e (e_logger e) s"

text \<open>\<open>LIONET_LOG_LEVEL\<close>: the event is made and logged only at the logger's level or above.\<close>

definition LIONET_LOG_LEVEL :: "nat \<Rightarrow> time_str \<Rightarrow> log_event \<Rightarrow> log_sys \<Rightarrow> log_sys res option" where
  "LIONET_LOG_LEVEL fuel tstr e s = (case get_logger (e_logger e) s of
       Inl err \<Rightarrow> Some (Inl err)
     | Inr x \<Rightarrow> if l_level x \<le> e_level e then LogEventWrap_delete fuel tstr e s else Some (Inr s))"

section \<open>The manager\<close>

text \<open>A new appender object, added to a logger.\<close>

definition add_new_appender :: "nat \<Rightarrow> appender \<Rightarrow> log_sys \<Rightarrow> log_sys res" where
  "add_new_appender l x s =
     (let a = next_obj s
      in Logger_addAppender l a ((put_appender a x s)\<lparr>next_obj := Suc a\<rparr>))"

definition applyDefaultConfig :: "nat \<Rightarrow> log_sys \<Rightarrow> log_sys res" where
  "applyDefaultConfig l s =
     res_bind (add_new_appender l StdoutLogAppender_new s) (\<lambda>s1.
       res_bind (get_logger l s1) (\<lambda>x.
         add_new_appender l
           (FileLogAppender_new (sys_opens s1) (sys_opens_dir s1) (''log/'' @ l_name x @ ''.txt'')) s1))"

text \<open>The constructor: \<open>applyDefaultConfig\<close> is called before and after the root is registered.\<close>

definition LoggerManager_new ::
    "(string \<Rightarrow> bool) \<Rightarrow> (string \<Rightarrow> bool) \<Rightarrow> (string \<Rightarrow> bool) \<Rightarrow> log_sys res" where
  "LoggerManager_new opens0 opens_dir0 writes0 =
     (let s0 = \<lparr>appenders = (\<lambda>_. None), loggers = [0 \<mapsto> Logger_new ''root''], next_obj = 1,
                m_loggers = [], mgr_root = Some 0, console = '''', files = (\<lambda>_. ''''),
                sys_opens = opens0, sys_opens_dir = opens_dir0, sys_writes = writes0\<rparr>
      in res_bind (applyDefaultConfig 0 s0) (\<lambda>s1.
           applyDefaultConfig 0 (s1\<lparr>m_loggers := omap_put ''root'' 0 (m_loggers s1)\<rparr>)))"

definition getLogger :: "string \<Rightarrow> log_sys \<Rightarrow> (nat \<times> log_sys) res" where
  "getLogger name s = (case map_of (m_loggers s) name of
       Some l \<Rightarrow> Inr (l, s)
     | None \<Rightarrow>
         (let l = next_obj s
          in res_bind (applyDefaultConfig l
                 ((put_logger l (Logger_new name) s)\<lparr>next_obj := Suc l\<rparr>)) (\<lambda>s1.
               res_bind (get_logger l s1) (\<lambda>x.
                 Inr (l, (put_logger l (x\<lparr>l_root := mgr_root s1\<rparr>) s1)
                           \<lparr>m_loggers := omap_put name l (m_loggers s1)\<rparr>)))))"

definition getRoot :: "log_sys \<Rightarrow> nat option" where
  "getRoot s = mgr_root s"

section \<open>What a log call writes\<close>

text \<open>
  The reference for one appender: the text it makes of an event, if its level lets the event through, and
  what reaches the console and the file. A file appender writes when its stream, reopened if it is due, takes
  the text; otherwise it complains on the console.
\<close>

definition shown :: "time_str \<Rightarrow> string \<Rightarrow> log_level \<Rightarrow> log_event \<Rightarrow> appender \<Rightarrow> string" where
  "shown tstr name level e x =
     (if level \<ge> a_level x then
        (case LogFormatter_format tstr name level e (m_items (the (a_formatter x))) of Inr t \<Rightarrow> t | Inl _ \<Rightarrow> '''')
      else '''')"

definition stream_at :: "log_event \<Rightarrow> log_sys \<Rightarrow> appender \<Rightarrow> stream" where
  "stream_at e s x = a_filestream
     (if e_time e \<ge> a_lastTime x + 3 then snd (FileLogAppender_reopen (sys_opens s) (sys_opens_dir s) x) else x)"

definition takes_text :: "log_event \<Rightarrow> log_sys \<Rightarrow> string \<Rightarrow> appender \<Rightarrow> bool" where
  "takes_text e s t x \<longleftrightarrow> \<not> failed (stream_at e s x) \<and> (t = '''' \<or> is_open (stream_at e s x) \<and> sys_writes s (a_filename x))"

definition complaint :: "log_level \<Rightarrow> log_event \<Rightarrow> log_sys \<Rightarrow> string \<Rightarrow> appender \<Rightarrow> string" where
  "complaint level e s t x =
     (if level < a_level x then ''''
      else (if is_open (stream_at e s x) then '''' else not_open_line) @
        (if takes_text e s t x then '''' else file_error_line))"

text \<open>What one appender, and a list of them, write to the console and to the file \<open>f\<close>.\<close>

definition to_console :: "time_str \<Rightarrow> string \<Rightarrow> log_level \<Rightarrow> log_event \<Rightarrow> log_sys \<Rightarrow> nat \<Rightarrow> string" where
  "to_console tstr name level e s a = (case appenders s a of
       None \<Rightarrow> ''''
     | Some x \<Rightarrow> (case a_kind x of
           StdoutLogAppender \<Rightarrow> shown tstr name level e x
         | FileLogAppender \<Rightarrow> complaint level e s (shown tstr name level e x) x))"

definition to_file :: "string \<Rightarrow> time_str \<Rightarrow> string \<Rightarrow> log_level \<Rightarrow> log_event \<Rightarrow> log_sys \<Rightarrow> nat \<Rightarrow> string" where
  "to_file f tstr name level e s a = (case appenders s a of
       None \<Rightarrow> ''''
     | Some x \<Rightarrow> if a_kind x = FileLogAppender \<and> a_filename x = f \<and> takes_text e s (shown tstr name level e x) x
         then shown tstr name level e x else '''')"

definition console_text :: "time_str \<Rightarrow> string \<Rightarrow> log_level \<Rightarrow> log_event \<Rightarrow> nat list \<Rightarrow> log_sys \<Rightarrow> string" where
  "console_text tstr name level e as s = concat (map (to_console tstr name level e s) as)"

definition file_text :: "string \<Rightarrow> time_str \<Rightarrow> string \<Rightarrow> log_level \<Rightarrow> log_event \<Rightarrow> nat list \<Rightarrow> log_sys \<Rightarrow> string" where
  "file_text f tstr name level e as s = concat (map (to_file f tstr name level e s) as)"

text \<open>
  The dates of a formatter fit the 64 bytes of \<open>DateTimeFormatItem::format\<close> at the time \<open>t\<close>; those of all
  appenders of a list.
\<close>

definition dates_fit :: "time_str \<Rightarrow> 64 word \<Rightarrow> formatter \<Rightarrow> bool" where
  "dates_fit tstr t f \<longleftrightarrow> list_all (\<lambda>it. case it of DateTimeItem fmt \<Rightarrow> tstr fmt t \<noteq> None | _ \<Rightarrow> True) (m_items f)"

definition dates_ok :: "time_str \<Rightarrow> 64 word \<Rightarrow> nat list \<Rightarrow> log_sys \<Rightarrow> bool" where
  "dates_ok tstr t as s \<longleftrightarrow> (\<forall>a\<in>set as. case appenders s a of None \<Rightarrow> True
     | Some y \<Rightarrow> (case a_formatter y of None \<Rightarrow> True | Some f \<Rightarrow> dates_fit tstr t f))"

lemma item_format_total: "\<forall>fmt t. tstr fmt t \<noteq> None \<Longrightarrow> \<exists>s. item_format tstr name level e it = Inr s"
  by (cases it) (auto split: option.splits)

lemma dates_fit_total: "\<forall>fmt t. tstr fmt t \<noteq> None \<Longrightarrow> dates_fit tstr t f"
  by (auto simp: dates_fit_def list_all_iff split: format_item.splits)

lemma dates_ok_total: "\<forall>fmt t. tstr fmt t \<noteq> None \<Longrightarrow> dates_ok tstr t as s"
  by (auto simp: dates_ok_def dates_fit_total split: option.splits)

lemma format_fits:
  assumes "dates_fit tstr (e_time e) f"
  shows "\<exists>s. LogFormatter_format tstr name level e (m_items f) = Inr s"
proof -
  have "list_all (\<lambda>it. case it of DateTimeItem fmt \<Rightarrow> tstr fmt (e_time e) \<noteq> None | _ \<Rightarrow> True) its \<Longrightarrow>
      \<exists>s. LogFormatter_format tstr name level e its = Inr s" for its
  proof (induction its)
    case (Cons it its)
    then have "\<exists>s. item_format tstr name level e it = Inr s" by (cases it) (auto split: option.splits)
    with Cons show ?case by fastforce
  qed simp
  with assms show ?thesis by (simp add: dates_fit_def)
qed

lemma format_total:
  assumes "\<forall>fmt t. tstr fmt t \<noteq> None"
  shows "\<exists>s. LogFormatter_format tstr name level e its = Inr s"
  using format_fits [OF dates_fit_total [OF assms], where f = "\<lparr>m_pattern = '''', m_items = its, m_error = False\<rparr>"] by simp

definition same_config :: "appender \<Rightarrow> appender \<Rightarrow> bool" where
  "same_config x y \<longleftrightarrow> a_kind x = a_kind y \<and> a_level x = a_level y \<and> a_formatter x = a_formatter y \<and>
     a_hasFormatter x = a_hasFormatter y \<and> a_filename x = a_filename y"

lemma reopen_sel [simp]:
  "a_kind (snd (FileLogAppender_reopen o1 o2 x)) = a_kind x"
  "a_level (snd (FileLogAppender_reopen o1 o2 x)) = a_level x"
  "a_formatter (snd (FileLogAppender_reopen o1 o2 x)) = a_formatter x"
  "a_hasFormatter (snd (FileLogAppender_reopen o1 o2 x)) = a_hasFormatter x"
  "a_filename (snd (FileLogAppender_reopen o1 o2 x)) = a_filename x"
  by (simp_all add: FileLogAppender_reopen_def Let_def split: prod.splits)

lemma file_log_config:
  "FileLogAppender_log tstr o1 o2 wr name level e x = Inr (t, out, x') \<Longrightarrow> same_config x x'"
  by (auto simp: FileLogAppender_log_def same_config_def Let_def res_bind_Inr_iff split: if_splits option.splits)

text \<open>A log call on well-formed appenders: it returns, and keeps all but streams and outputs.\<close>

definition log_frame :: "log_sys \<Rightarrow> log_sys \<Rightarrow> bool" where
  "log_frame s s' \<longleftrightarrow> loggers s' = loggers s \<and> next_obj s' = next_obj s \<and> m_loggers s' = m_loggers s \<and>
     mgr_root s' = mgr_root s \<and> (\<forall>a. rel_option same_config (appenders s a) (appenders s' a))"

lemma same_config_refl: "same_config x x"
  by (simp add: same_config_def)

lemma log_frame_refl: "log_frame s s"
  by (simp add: log_frame_def option.rel_refl same_config_refl)

lemma log_frame_appender:
  "log_frame s s' \<Longrightarrow> appenders s a = Some x \<Longrightarrow> \<exists>y. appenders s' a = Some y \<and> same_config x y"
  unfolding log_frame_def by (metis option_rel_Some1)

lemma log_frame_None: "log_frame s s' \<Longrightarrow> appenders s a = None \<Longrightarrow> appenders s' a = None"
  unfolding log_frame_def by (metis rel_option_None1)

lemma log_frame_trans: "log_frame s s1 \<Longrightarrow> log_frame s1 s2 \<Longrightarrow> log_frame s s2"
proof -
  assume 1: "log_frame s s1" and 2: "log_frame s1 s2"
  have "rel_option same_config (appenders s a) (appenders s2 a)" for a
  proof (cases "appenders s a")
    case None
    with log_frame_None [OF 1 None] log_frame_None [OF 2] show ?thesis by simp
  next
    case (Some x)
    with log_frame_appender [OF 1 Some] log_frame_appender [OF 2] show ?thesis
      by (fastforce simp: same_config_def)
  qed
  with 1 2 show ?thesis by (simp add: log_frame_def)
qed

text \<open>What an appender writes depends on that appender and on the system only.\<close>

definition same_system :: "log_sys \<Rightarrow> log_sys \<Rightarrow> bool" where
  "same_system s s' \<longleftrightarrow> sys_opens s' = sys_opens s \<and> sys_opens_dir s' = sys_opens_dir s \<and> sys_writes s' = sys_writes s"

lemma system_local:
  assumes "same_system s s'"
  shows "takes_text e s' = takes_text e s" and "complaint level e s' = complaint level e s"
proof -
  have sys: "sys_opens s' = sys_opens s" "sys_opens_dir s' = sys_opens_dir s" "sys_writes s' = sys_writes s"
    using assms by (simp_all add: same_system_def)
  have st: "stream_at e s' = stream_at e s" by (rule ext) (simp add: stream_at_def sys)
  then show tk: "takes_text e s' = takes_text e s" by (intro ext) (simp add: takes_text_def sys)
  with st show "complaint level e s' = complaint level e s" by (intro ext) (simp add: complaint_def)
qed

lemma outputs_local:
  assumes "same_system s s'" and "appenders s' a = appenders s a"
  shows "to_console tstr name level e s' a = to_console tstr name level e s a"
    and "to_file f tstr name level e s' a = to_file f tstr name level e s a"
  using assms system_local [OF assms(1)]
  by (simp_all add: to_console_def to_file_def cong: option.case_cong appender_kind.case_cong)

lemma file_log_result:
  assumes f: "a_formatter x = Some f" and t: "LogFormatter_format tstr name level e (m_items f) = Inr t"
  shows "\<exists>x'. FileLogAppender_log tstr (sys_opens s) (sys_opens_dir s) (sys_writes s) name level e x =
    Inr (if takes_text e s (shown tstr name level e x) x then shown tstr name level e x else '''',
      complaint level e s (shown tstr name level e x) x, x')"
proof (cases "a_level x \<le> level")
  case True
  define x1 where "x1 = (if e_time e \<ge> a_lastTime x + 3
      then (snd (FileLogAppender_reopen (sys_opens s) (sys_opens_dir s) x))\<lparr>a_lastTime := e_time e\<rparr> else x)"
  have x1: "a_formatter x1 = Some f" "a_filename x1 = a_filename x" "a_filestream x1 = stream_at e s x"
    using f by (simp_all add: x1_def stream_at_def)
  have sh: "shown tstr name level e x = t" using True f t by (simp add: shown_def)
  show ?thesis
    unfolding FileLogAppender_log_def Let_def x1_def [symmetric] sh takes_text_def
    using True x1 t by (simp add: complaint_def takes_text_def not_le [symmetric])
next
  case False
  then have "(a_level x \<le> level) = False" "level < a_level x" by auto
  then show ?thesis by (simp add: FileLogAppender_log_def complaint_def shown_def)
qed

text \<open>
  An appender that has logged an event writes the same for it again: its stream is reopened at most once for
  one time, and a failed one stays failed. (The time must be 3 below the end of its range, where the test for reopening wraps around.)
\<close>

lemma file_log_again:
  assumes "FileLogAppender_log tstr (sys_opens s) (sys_opens_dir s) (sys_writes s) name level e x = Inr (t, out, x')"
    and "e_time e < e_time e + 3" and f: "a_formatter x = Some f"
  shows "takes_text e s (shown tstr name level e x) x' = takes_text e s (shown tstr name level e x) x"
    and "complaint level e s (shown tstr name level e x) x' = complaint level e s (shown tstr name level e x) x"
proof -
  define x1 where "x1 = (if e_time e \<ge> a_lastTime x + 3
      then (snd (FileLogAppender_reopen (sys_opens s) (sys_opens_dir s) x))\<lparr>a_lastTime := e_time e\<rparr> else x)"
  have "\<not> e_time e \<ge> a_lastTime x1 + 3" using assms(2) by (auto simp: x1_def not_le)
  then have same: "stream_at e s (x1\<lparr>a_filestream := st\<rparr>) = st" "stream_at e s x1 = a_filestream x1" for st
    by (simp_all add: stream_at_def)
  have x1: "a_formatter x1 = Some f" "a_filename x1 = a_filename x" "a_filestream x1 = stream_at e s x" "a_level x1 = a_level x"
    using f by (simp_all add: x1_def stream_at_def)
  note log = assms(1) [unfolded FileLogAppender_log_def Let_def, folded x1_def]
  have "takes_text e s (shown tstr name level e x) x' = takes_text e s (shown tstr name level e x) x \<and>
      complaint level e s (shown tstr name level e x) x' = complaint level e s (shown tstr name level e x) x"
  proof (cases "level \<ge> a_level x")
    case True
    with log x1(1) obtain t0 where t0: "LogFormatter_format tstr name level e (m_items f) = Inr t0"
      by (auto simp: res_bind_Inr_iff)
    with True f have sh: "shown tstr name level e x = t0" by (simp add: shown_def)
    have "x' = (if takes_text e s t0 x then x1 else x1\<lparr>a_filestream := (a_filestream x1)\<lparr>failed := True\<rparr>\<rparr>)"
      using log True x1 t0 by (auto simp: takes_text_def split: if_splits)
    then show ?thesis
      by (auto simp: sh takes_text_def complaint_def same x1)
  qed (use log in auto)
  then show "takes_text e s (shown tstr name level e x) x' = takes_text e s (shown tstr name level e x) x"
    and "complaint level e s (shown tstr name level e x) x' = complaint level e s (shown tstr name level e x) x" by simp_all
qed

lemma shown_config: "same_config x y \<Longrightarrow> shown tstr name level e y = shown tstr name level e x"
  by (simp add: shown_def same_config_def)

lemma appender_log_returns:
  assumes x: "appenders s a = Some x" and f: "a_formatter x = Some f" and ok: "dates_fit tstr (e_time e) f"
  shows "\<exists>s'. LogAppender_log tstr name level e a s = Inr s' \<and> log_frame s s' \<and> same_system s s' \<and>
    (\<forall>b. b \<noteq> a \<longrightarrow> appenders s' b = appenders s b) \<and>
    console s' = console s @ to_console tstr name level e s a \<and>
    (\<forall>g. files s' g = files s g @ to_file g tstr name level e s a) \<and>
    (e_time e < e_time e + 3 \<longrightarrow> to_console tstr name level e s' a = to_console tstr name level e s a \<and>
      (\<forall>g. to_file g tstr name level e s' a = to_file g tstr name level e s a))"
proof -
  obtain t where t: "LogFormatter_format tstr name level e (m_items f) = Inr t" using format_fits [OF ok] by blast
  show ?thesis
  proof (cases "a_kind x")
    case StdoutLogAppender
    with x f t show ?thesis
      by (auto simp: LogAppender_log_def get_appender_def StdoutLogAppender_log_def shown_def log_frame_def
          to_console_def to_file_def same_system_def same_config_refl intro: option.rel_refl)
  next
    case FileLogAppender
    let ?log = "FileLogAppender_log tstr (sys_opens s) (sys_opens_dir s) (sys_writes s) name level e x"
    obtain x' where fl: "?log = Inr (if takes_text e s (shown tstr name level e x) x then shown tstr name level e x
        else '''', complaint level e s (shown tstr name level e x) x, x')" using file_log_result [OF f t] by blast
    note c = file_log_config [OF fl]
    define s' where "s' = (put_appender a x' s)\<lparr>console := console s @ complaint level e s (shown tstr name level e x) x,
      files := (files s)(a_filename x := files s (a_filename x) @
        (if takes_text e s (shown tstr name level e x) x then shown tstr name level e x else ''''))\<rparr>"
    have sys: "same_system s s'" by (simp add: s'_def same_system_def put_appender_def)
    have app: "appenders s' = (appenders s)(a \<mapsto> x')" by (simp add: s'_def put_appender_def)
    have again: "to_console tstr name level e s' a = to_console tstr name level e s a \<and>
      (\<forall>g. to_file g tstr name level e s' a = to_file g tstr name level e s a)" if "e_time e < e_time e + 3"
      unfolding to_console_def to_file_def system_local [OF sys] app
      using file_log_again [OF fl that f] c shown_config [OF c] x
      by (simp add: same_config_def FileLogAppender)
    have "LogAppender_log tstr name level e a s = Inr s'"
      using fl x FileLogAppender by (simp add: LogAppender_log_def get_appender_def s'_def)
    moreover have "log_frame s s'"
      using c x by (auto simp: s'_def log_frame_def put_appender_def same_config_refl intro: option.rel_refl)
    moreover have "console s' = console s @ to_console tstr name level e s a"
      "\<forall>g. files s' g = files s g @ to_file g tstr name level e s a"
      using x FileLogAppender by (simp_all add: s'_def to_console_def to_file_def)
    moreover have "\<forall>b. b \<noteq> a \<longrightarrow> appenders s' b = appenders s b" by (simp add: app)
    ultimately show ?thesis using sys again by blast
  qed
qed

lemma appenders_log_returns:
  assumes "\<forall>a\<in>set as. \<exists>x f. appenders s a = Some x \<and> a_formatter x = Some f \<and> dates_fit tstr (e_time e) f"
  shows "\<exists>s'. appenders_log tstr name level e as s = Inr s' \<and> log_frame s s' \<and> same_system s s' \<and>
    (distinct as \<or> e_time e < e_time e + 3 \<longrightarrow> console s' = console s @ console_text tstr name level e as s \<and>
       (\<forall>f. files s' f = files s f @ file_text f tstr name level e as s))"
  using assms
proof (induction as arbitrary: s)
  case Nil
  then show ?case by (simp add: log_frame_refl console_text_def file_text_def same_system_def)
next
  case (Cons a as)
  then obtain x f where x: "appenders s a = Some x" "a_formatter x = Some f" "dates_fit tstr (e_time e) f" by auto
  from appender_log_returns [OF x] obtain s1 where s1: "LogAppender_log tstr name level e a s = Inr s1"
    "log_frame s s1" "same_system s s1" "\<forall>b. b \<noteq> a \<longrightarrow> appenders s1 b = appenders s b"
    "console s1 = console s @ to_console tstr name level e s a"
    "\<forall>g. files s1 g = files s g @ to_file g tstr name level e s a"
    "e_time e < e_time e + 3 \<longrightarrow> to_console tstr name level e s1 a = to_console tstr name level e s a \<and>
      (\<forall>g. to_file g tstr name level e s1 a = to_file g tstr name level e s a)"
    by blast
  have "\<forall>a\<in>set as. \<exists>x f. appenders s1 a = Some x \<and> a_formatter x = Some f \<and> dates_fit tstr (e_time e) f"
  proof
    fix b
    assume "b \<in> set as"
    with Cons.prems obtain y g where y: "appenders s b = Some y" "a_formatter y = Some g" "dates_fit tstr (e_time e) g"
      by auto
    with log_frame_appender [OF s1(2) y(1)]
    show "\<exists>x f. appenders s1 b = Some x \<and> a_formatter x = Some f \<and> dates_fit tstr (e_time e) f"
      unfolding same_config_def by metis
  qed
  from Cons.IH [OF this] obtain s2 where s2: "appenders_log tstr name level e as s1 = Inr s2" "log_frame s1 s2"
    "same_system s1 s2" "distinct as \<or> e_time e < e_time e + 3 \<Longrightarrow>
       console s2 = console s1 @ console_text tstr name level e as s1 \<and>
       (\<forall>f. files s2 f = files s1 f @ file_text f tstr name level e as s1)" by blast
  have "console_text tstr name level e as s1 = console_text tstr name level e as s \<and>
      (\<forall>f. file_text f tstr name level e as s1 = file_text f tstr name level e as s)" if d: "distinct (a # as) \<or> e_time e < e_time e + 3"
  proof -
    have "to_console tstr name level e s1 b = to_console tstr name level e s b \<and>
        (\<forall>g. to_file g tstr name level e s1 b = to_file g tstr name level e s b)" if "b \<in> set as" for b
    proof (cases "b = a")
      case True
      with d that s1(7) show ?thesis by auto
    next
      case False
      with s1(4) outputs_local [OF s1(3)] show ?thesis by blast
    qed
    then show ?thesis by (auto simp: console_text_def file_text_def intro!: arg_cong [of _ _ concat] map_cong)
  qed
  with s1 s2 log_frame_trans [OF s1(2) s2(2)] show ?case
    by (auto simp: console_text_def file_text_def same_system_def)
qed

section \<open>The invariant of the manager\<close>

text \<open>
  Every appender of a logger exists and has a formatter, every logger has one; a logger other than
  the root leads to the root; the manager knows each logger by its name; addresses are fresh.
\<close>

definition logger_ok :: "log_sys \<Rightarrow> logger \<Rightarrow> bool" where
  "logger_ok s x \<longleftrightarrow> l_formatter x \<noteq> None \<and> (l_root x = None \<or> l_root x = mgr_root s) \<and>
     (\<forall>a\<in>set (l_appenders x). \<exists>y. appenders s a = Some y \<and> a_formatter y \<noteq> None)"

definition log_inv :: "log_sys \<Rightarrow> bool" where
  "log_inv s \<longleftrightarrow>
     (\<forall>l x. loggers s l = Some x \<longrightarrow> logger_ok s x) \<and>
     (\<exists>r x. mgr_root s = Some r \<and> loggers s r = Some x \<and> l_root x = None) \<and>
     omap_ok (m_loggers s) \<and>
     (\<forall>name l. map_of (m_loggers s) name = Some l \<longrightarrow> (\<exists>x. loggers s l = Some x \<and> l_name x = name)) \<and>
     (\<forall>i\<ge>next_obj s. loggers s i = None \<and> appenders s i = None)"

lemma log_invD:
  assumes "log_inv s" and "loggers s l = Some x"
  shows "logger_ok s x"
  using assms by (simp add: log_inv_def)

lemma logger_ok_mono:
  assumes "logger_ok s x" and "mgr_root s' = mgr_root s"
    and "\<And>a y. appenders s a = Some y \<Longrightarrow> a_formatter y \<noteq> None \<Longrightarrow>
      \<exists>y'. appenders s' a = Some y' \<and> a_formatter y' \<noteq> None"
  shows "logger_ok s' x"
  using assms unfolding logger_ok_def by metis

lemma log_inv_frame:
  assumes "log_inv s" and "log_frame s s'"
  shows "log_inv s'"
proof -
  have "\<exists>y'. appenders s' a = Some y' \<and> a_formatter y' \<noteq> None"
    if "appenders s a = Some y" "a_formatter y \<noteq> None" for a y
    using log_frame_appender [OF assms(2) that(1)] that(2) by (auto simp: same_config_def)
  then have "logger_ok s' x" if "logger_ok s x" for x
    using logger_ok_mono [OF that, of s'] assms(2) by (simp add: log_frame_def)
  moreover have "appenders s' i = None" if "next_obj s \<le> i" for i
    using assms(1) that log_frame_None [OF assms(2), of i] by (simp add: log_inv_def)
  ultimately show ?thesis using assms unfolding log_inv_def log_frame_def by metis
qed

text \<open>A logger changes, its appenders may be new: what an operation on one logger has to show.\<close>

lemma log_inv_put_logger:
  assumes "log_inv s" and "loggers s l = Some x" and "logger_ok s x'" and "l_name x' = l_name x"
    and "l_root x' = l_root x"
  shows "log_inv (put_logger l x' s)"
proof -
  have "l_name x = name" if "map_of (m_loggers s) name = Some l" for name
    using assms(1,2) that unfolding log_inv_def by (metis option.inject)
  with assms show ?thesis
    unfolding log_inv_def put_logger_def logger_ok_def by (auto simp: not_le [symmetric])
qed

lemma log_inv_put_appender:
  assumes "log_inv s" and "appenders s a = Some y" and "a_formatter y' \<noteq> None \<or> a_formatter y = None"
  shows "log_inv (put_appender a y' s)"
proof -
  have "logger_ok (put_appender a y' s) x" if "logger_ok s x" for x
    using assms(2,3) by (intro logger_ok_mono [OF that]) (auto simp: put_appender_def)
  with assms show ?thesis unfolding log_inv_def put_appender_def by auto
qed

lemma log_inv_new_appender:
  assumes "log_inv s"
  shows "log_inv ((put_appender (next_obj s) y s)\<lparr>next_obj := Suc (next_obj s)\<rparr>)"
proof -
  have "logger_ok ((put_appender (next_obj s) y s)\<lparr>next_obj := Suc (next_obj s)\<rparr>) x" if "logger_ok s x" for x
    using assms by (intro logger_ok_mono [OF that]) (auto simp: put_appender_def log_inv_def)
  with assms show ?thesis unfolding log_inv_def put_appender_def by auto
qed

lemma log_inv_addAppender:
  assumes "log_inv s" and "loggers s l = Some x" and "appenders s a = Some y"
  shows "\<exists>s'. Logger_addAppender l a s = Inr s' \<and> log_inv s' \<and> mgr_root s' = mgr_root s \<and>
    m_loggers s' = m_loggers s \<and> next_obj s' = next_obj s \<and>
    loggers s' = (loggers s)(l \<mapsto> x\<lparr>l_appenders := l_appenders x @ [a]\<rparr>) \<and>
    appenders s' = (appenders s)(a \<mapsto>
      (if a_formatter y = None then LogAppender_setFormatter (l_formatter x) y else y)) \<and> console s' = console s \<and>
    same_system s s'"
proof -
  let ?y = "if a_formatter y = None then LogAppender_setFormatter (l_formatter x) y else y"
  let ?s = "put_appender a ?y s"
  have x: "logger_ok s x" by (rule log_invD [OF assms(1,2)])
  have y: "a_formatter ?y \<noteq> None"
    using x by (auto simp: LogAppender_setFormatter_def logger_ok_def)
  have s: "log_inv ?s" by (rule log_inv_put_appender [OF assms(1,3)]) (use y in simp)
  have "logger_ok ?s x" by (rule log_invD [OF s]) (use assms(2) in \<open>simp add: put_appender_def\<close>)
  then have "logger_ok ?s (x\<lparr>l_appenders := l_appenders x @ [a]\<rparr>)"
    using y by (auto simp: logger_ok_def put_appender_def)
  then have "log_inv (put_logger l (x\<lparr>l_appenders := l_appenders x @ [a]\<rparr>) ?s)"
    using assms(2) by (intro log_inv_put_logger [OF s]) (auto simp: put_appender_def)
  with assms show ?thesis
    by (simp add: Logger_addAppender_def get_logger_def get_appender_def Let_def)
      (auto simp: put_logger_def put_appender_def same_system_def)
qed

lemma log_inv_add_new:
  assumes "log_inv s" and "loggers s l = Some x"
  shows "\<exists>s'. add_new_appender l y s = Inr s' \<and> log_inv s' \<and> mgr_root s' = mgr_root s \<and>
    m_loggers s' = m_loggers s \<and> next_obj s' = Suc (next_obj s) \<and>
    loggers s' = (loggers s)(l \<mapsto> x\<lparr>l_appenders := l_appenders x @ [next_obj s]\<rparr>) \<and>
    appenders s' = (appenders s)(next_obj s \<mapsto>
      (if a_formatter y = None then LogAppender_setFormatter (l_formatter x) y else y)) \<and> console s' = console s \<and>
    same_system s s'"
  using log_inv_addAppender [OF log_inv_new_appender [OF assms(1), of y], of l x "next_obj s" y] assms(2)
  by (auto simp: add_new_appender_def put_appender_def same_system_def)

definition default_stdout :: "formatter option \<Rightarrow> appender" where
  "default_stdout f = StdoutLogAppender_new\<lparr>a_formatter := f, a_hasFormatter := (f \<noteq> None)\<rparr>"

definition default_file :: "formatter option \<Rightarrow> string \<Rightarrow> log_sys \<Rightarrow> appender" where
  "default_file f name s =
     (FileLogAppender_new (sys_opens s) (sys_opens_dir s) (''log/'' @ name @ ''.txt''))
       \<lparr>a_formatter := f, a_hasFormatter := (f \<noteq> None)\<rparr>"

lemma default_file_system: "same_system s s' \<Longrightarrow> default_file f name s' = default_file f name s"
  by (simp add: default_file_def same_system_def)

lemma FileLogAppender_new_sel [simp]:
  "a_kind (FileLogAppender_new o1 o2 n) = FileLogAppender" "a_formatter (FileLogAppender_new o1 o2 n) = None"
  "a_level (FileLogAppender_new o1 o2 n) = DEBUG" "a_filename (FileLogAppender_new o1 o2 n) = n"
  by (simp_all add: FileLogAppender_new_def)

text \<open>The default configuration: a console and a file appender, both with the logger's formatter.\<close>

lemma log_inv_default:
  assumes "log_inv s" and "loggers s l = Some x"
  shows "\<exists>s'. applyDefaultConfig l s = Inr s' \<and> log_inv s' \<and> mgr_root s' = mgr_root s \<and>
    m_loggers s' = m_loggers s \<and> next_obj s' = Suc (Suc (next_obj s)) \<and> console s' = console s \<and>
    loggers s' = (loggers s)(l \<mapsto> x\<lparr>l_appenders := l_appenders x @ [next_obj s, Suc (next_obj s)]\<rparr>) \<and>
    appenders s' = (appenders s)(next_obj s \<mapsto> default_stdout (l_formatter x),
      Suc (next_obj s) \<mapsto> default_file (l_formatter x) (l_name x) s) \<and>
    same_system s s'"
proof -
  let ?n = "next_obj s"
  obtain s1 where s1: "add_new_appender l StdoutLogAppender_new s = Inr s1" "log_inv s1"
    "mgr_root s1 = mgr_root s" "m_loggers s1 = m_loggers s" "next_obj s1 = Suc ?n"
    "loggers s1 = (loggers s)(l \<mapsto> x\<lparr>l_appenders := l_appenders x @ [?n]\<rparr>)"
    "appenders s1 = (appenders s)(?n \<mapsto> default_stdout (l_formatter x))" "console s1 = console s" "same_system s s1"
    using log_inv_add_new [OF assms, of StdoutLogAppender_new]
    by (auto simp: default_stdout_def StdoutLogAppender_new_def LogAppender_setFormatter_def)
  let ?f = "FileLogAppender_new (sys_opens s1) (sys_opens_dir s1) (''log/'' @ l_name x @ ''.txt'')"
  have y: "LogAppender_setFormatter (l_formatter x) ?f = default_file (l_formatter x) (l_name x) s"
    using default_file_system [OF s1(9)] by (simp add: default_file_def LogAppender_setFormatter_def)
  have "loggers s1 l = Some (x\<lparr>l_appenders := l_appenders x @ [?n]\<rparr>)" using s1(6) by simp
  note l1 = this
  from log_inv_add_new [OF s1(2) l1, of ?f] s1(5) y obtain s2 where s2: "add_new_appender l ?f s1 = Inr s2"
    "log_inv s2" "mgr_root s2 = mgr_root s1" "m_loggers s2 = m_loggers s1" "next_obj s2 = Suc (Suc ?n)"
    "loggers s2 = (loggers s1)(l \<mapsto> x\<lparr>l_appenders := l_appenders x @ [?n, Suc ?n]\<rparr>)"
    "appenders s2 = (appenders s1)(Suc ?n \<mapsto> default_file (l_formatter x) (l_name x) s)" "console s2 = console s1"
    "same_system s1 s2"
    by auto
  have "applyDefaultConfig l s = Inr s2"
    using s1(1) s2(1) l1 by (simp add: applyDefaultConfig_def get_logger_def)
  then show ?thesis
    using s1 s2 by (intro exI [of _ s2]) (simp add: same_system_def)
qed

lemma log_inv_new_logger:
  assumes inv: "log_inv s" and x: "l_formatter x \<noteq> None" "l_appenders x = []" "l_root x = None"
  shows "log_inv ((put_logger (next_obj s) x s)\<lparr>next_obj := Suc (next_obj s)\<rparr>)" (is "log_inv ?s")
proof -
  have fresh: "loggers s (next_obj s) = None" using inv by (simp add: log_inv_def)
  have other: "loggers ?s l = loggers s l" if "loggers s l = Some y" for l y
    using that fresh by (auto simp: put_logger_def)
  have "logger_ok ?s y" if y: "loggers ?s l = Some y" for l y
  proof (cases "l = next_obj s")
    case True
    with y x show ?thesis by (simp add: put_logger_def logger_ok_def)
  next
    case False
    with y have "logger_ok s y" by (intro log_invD [OF inv]) (simp add: put_logger_def)
    then show ?thesis by (simp add: logger_ok_def put_logger_def)
  qed
  moreover from inv obtain r z where "mgr_root s = Some r" "loggers s r = Some z" "l_root z = None"
    by (auto simp: log_inv_def)
  then have "mgr_root ?s = Some r \<and> loggers ?s r = Some z \<and> l_root z = None"
    using other [of r z] by (simp add: put_logger_def)
  moreover have "\<exists>z. loggers ?s l = Some z \<and> l_name z = name" if "map_of (m_loggers ?s) name = Some l" for name l
    using inv that other [of l] by (fastforce simp: log_inv_def put_logger_def)
  moreover have "omap_ok (m_loggers ?s)" using inv by (simp add: log_inv_def put_logger_def)
  moreover have "loggers ?s i = None \<and> appenders ?s i = None" if "next_obj ?s \<le> i" for i
    using inv that by (simp add: log_inv_def put_logger_def)
  ultimately show ?thesis unfolding log_inv_def by blast
qed

lemma log_inv_set_root:
  assumes "log_inv s" and "loggers s l = Some x" and "mgr_root s \<noteq> Some l"
  shows "log_inv (put_logger l (x\<lparr>l_root := mgr_root s\<rparr>) s)"
proof -
  have "l_name x = name" if "map_of (m_loggers s) name = Some l" for name
    using assms(1,2) that unfolding log_inv_def by (metis option.inject)
  with assms show ?thesis
    unfolding log_inv_def put_logger_def logger_ok_def by auto
qed

lemma log_inv_register:
  assumes "log_inv s" and "loggers s l = Some x" and "l_name x = name"
  shows "log_inv (s\<lparr>m_loggers := omap_put name l (m_loggers s)\<rparr>)"
  using assms unfolding log_inv_def logger_ok_def
  by (auto simp: omap_put_ok map_of_omap_put split: if_splits)

lemma log_inv_getLogger:
  assumes "log_inv s"
  shows "\<exists>l s'. getLogger name s = Inr (l, s') \<and> log_inv s' \<and> map_of (m_loggers s') name = Some l \<and>
    (\<forall>n l'. map_of (m_loggers s) n = Some l' \<longrightarrow> map_of (m_loggers s') n = Some l' \<and>
       loggers s' l' = loggers s l') \<and> console s' = console s"
proof (cases "map_of (m_loggers s) name")
  case (Some l)
  with assms show ?thesis by (simp add: getLogger_def)
next
  case None
  let ?l = "next_obj s"
  let ?s0 = "(put_logger ?l (Logger_new name) s)\<lparr>next_obj := Suc ?l\<rparr>"
  have i0: "log_inv ?s0" by (rule log_inv_new_logger [OF assms]) (simp_all add: Logger_new_def)
  have old: "l' \<noteq> ?l" if "map_of (m_loggers s) n = Some l'" for n l'
    using assms that unfolding log_inv_def by (metis le_refl option.distinct(1))
  have root: "mgr_root s \<noteq> Some ?l" using assms unfolding log_inv_def by (metis le_refl option.distinct(1) option.inject)
  have l0: "loggers ?s0 ?l = Some (Logger_new name)" by (simp add: put_logger_def)
  from log_inv_default [OF i0 l0] obtain s1 where s1: "applyDefaultConfig ?l ?s0 = Inr s1" "log_inv s1"
    "mgr_root s1 = mgr_root s" "m_loggers s1 = m_loggers s" "console s1 = console s"
    "loggers s1 = (loggers s)(?l \<mapsto> (Logger_new name)\<lparr>l_appenders := [Suc ?l, Suc (Suc ?l)]\<rparr>)"
    by (auto simp: put_logger_def Logger_new_def)
  let ?x = "(Logger_new name)\<lparr>l_appenders := [Suc ?l, Suc (Suc ?l)]\<rparr>"
  let ?s2 = "put_logger ?l (?x\<lparr>l_root := mgr_root s1\<rparr>) s1"
  have l1: "loggers s1 ?l = Some ?x" using s1(6) by simp
  have i2: "log_inv ?s2" by (rule log_inv_set_root [OF s1(2) l1]) (use root s1(3) in simp)
  have "log_inv (?s2\<lparr>m_loggers := omap_put name ?l (m_loggers ?s2)\<rparr>)"
    by (rule log_inv_register [OF i2, where x = "?x\<lparr>l_root := mgr_root s1\<rparr>"])
      (simp_all add: put_logger_def Logger_new_def)
  moreover have "omap_ok (m_loggers s)" using assms by (simp add: log_inv_def)
  ultimately show ?thesis
    using None s1 l1 old by (auto simp: getLogger_def get_logger_def put_logger_def map_of_omap_put Let_def)
qed

lemma log_inv_manager:
  "\<exists>s. LoggerManager_new o1 o2 wr = Inr s \<and> log_inv s \<and> mgr_root s = Some 0 \<and> console s = '''' \<and>
     map_of (m_loggers s) ''root'' = Some 0 \<and>
     loggers s = [0 \<mapsto> (Logger_new ''root'')\<lparr>l_appenders := [1, 2, 3, 4]\<rparr>] \<and>
     (let f = l_formatter (Logger_new ''root'')
      in appenders s = [1 \<mapsto> default_stdout f, 2 \<mapsto> default_file f ''root'' s, 3 \<mapsto> default_stdout f,
           4 \<mapsto> default_file f ''root'' s]) \<and>
     sys_opens s = o1 \<and> sys_opens_dir s = o2 \<and> sys_writes s = wr"
proof -
  let ?s0 = "\<lparr>appenders = (\<lambda>_. None), loggers = [0 \<mapsto> Logger_new ''root''], next_obj = 1,
                m_loggers = [], mgr_root = Some 0, console = '''', files = (\<lambda>_. ''''),
                sys_opens = o1, sys_opens_dir = o2, sys_writes = wr\<rparr>"
  have i0: "log_inv ?s0"
    by (simp add: log_inv_def logger_ok_def Logger_new_def omap_ok_def)
  have l0: "loggers ?s0 0 = Some (Logger_new ''root'')" by simp
  let ?f = "l_formatter (Logger_new ''root'')" and ?y = "default_file (l_formatter (Logger_new ''root'')) ''root'' ?s0"
  have name: "l_name (Logger_new ''root'') = ''root''" by (simp add: Logger_new_def)
  from log_inv_default [OF i0 l0] obtain s1 where s1: "applyDefaultConfig 0 ?s0 = Inr s1" "log_inv s1"
    "mgr_root s1 = Some 0" "m_loggers s1 = []" "next_obj s1 = 3" "console s1 = ''''"
    "loggers s1 = [0 \<mapsto> (Logger_new ''root'')\<lparr>l_appenders := [1, 2]\<rparr>]"
    "appenders s1 = [1 \<mapsto> default_stdout ?f, 2 \<mapsto> ?y]" "same_system ?s0 s1"
    unfolding name by (auto simp: Logger_new_def numeral_2_eq_2 numeral_3_eq_3)
  let ?s1 = "s1\<lparr>m_loggers := omap_put ''root'' 0 (m_loggers s1)\<rparr>"
  have l1: "loggers s1 0 = Some ((Logger_new ''root'')\<lparr>l_appenders := [1, 2]\<rparr>)" using s1 by simp
  have i1: "log_inv ?s1" by (rule log_inv_register [OF s1(2) l1]) (simp add: Logger_new_def)
  have l2: "loggers ?s1 0 = Some ((Logger_new ''root'')\<lparr>l_appenders := [1, 2]\<rparr>)" using l1 by simp
  have y: "default_file ?f ''root'' ?s1 = ?y"
    by (rule default_file_system) (use s1(9) in \<open>simp add: same_system_def\<close>)
  from log_inv_default [OF i1 l2] s1(3-) y obtain s2 where s2: "applyDefaultConfig 0 ?s1 = Inr s2" "log_inv s2"
    "mgr_root s2 = Some 0" "m_loggers s2 = omap_put ''root'' 0 []" "console s2 = ''''"
    "loggers s2 = [0 \<mapsto> (Logger_new ''root'')\<lparr>l_appenders := [1, 2, 3, 4]\<rparr>]"
    "appenders s2 = [1 \<mapsto> default_stdout ?f, 2 \<mapsto> ?y, 3 \<mapsto> default_stdout ?f, 4 \<mapsto> ?y]" "same_system ?s1 s2"
    by (auto simp: Logger_new_def)
  have new: "LoggerManager_new o1 o2 wr = Inr s2"
    using s1(1) s2(1) by (simp add: LoggerManager_new_def Let_def)
  have sys: "same_system ?s0 s2" using s1(9) s2(8) by (simp add: same_system_def)
  with default_file_system [OF sys, of ?f "''root''"] s2 new show ?thesis
    by (intro exI [of _ s2]) (auto simp: same_system_def Let_def)
qed

lemma manager_sel:
  assumes "LoggerManager_new o1 o2 wr = Inr s"
  shows "log_inv s" "mgr_root s = Some 0" "console s = ''''" "map_of (m_loggers s) ''root'' = Some 0"
    "loggers s = [0 \<mapsto> (Logger_new ''root'')\<lparr>l_appenders := [1, 2, 3, 4]\<rparr>]"
    "appenders s = [1 \<mapsto> default_stdout (l_formatter (Logger_new ''root'')),
       2 \<mapsto> default_file (l_formatter (Logger_new ''root'')) ''root'' s,
       3 \<mapsto> default_stdout (l_formatter (Logger_new ''root'')),
       4 \<mapsto> default_file (l_formatter (Logger_new ''root'')) ''root'' s]"
    "sys_opens s = o1" "sys_opens_dir s = o2" "sys_writes s = wr"
  using log_inv_manager [of o1 o2 wr] assms by (auto simp: Let_def)

lemma manager_starts:
  obtains s where "LoggerManager_new o1 o2 wr = Inr s"
  using log_inv_manager [of o1 o2 wr] by auto

lemma log_inv_inherit:
  assumes "log_inv s" and "f \<noteq> None" and "\<forall>a\<in>set as. appenders s a \<noteq> None"
  shows "\<exists>s'. inherit_formatter f as s = Inr s' \<and> log_inv s' \<and> loggers s' = loggers s"
  using assms(1,3)
proof (induction as arbitrary: s)
  case (Cons a as)
  then obtain y where y: "appenders s a = Some y" by auto
  let ?s = "if \<not> a_hasFormatter y then put_appender a (y\<lparr>a_formatter := f\<rparr>) s else s"
  have "log_inv ?s" using Cons.prems(1) log_inv_put_appender [OF Cons.prems(1) y, of "y\<lparr>a_formatter := f\<rparr>"] assms(2)
    by simp
  moreover have "\<forall>a\<in>set as. appenders ?s a \<noteq> None" "loggers ?s = loggers s"
    using Cons.prems(2) by (auto simp: put_appender_def)
  ultimately show ?case using Cons.IH [of ?s] y by (simp add: get_appender_def)
qed simp

lemma log_inv_setFormatter:
  assumes "log_inv s" and "loggers s l = Some x" and "f \<noteq> None"
  shows "\<exists>s'. Logger_setFormatter l f s = Inr s' \<and> log_inv s'"
proof -
  have x: "logger_ok s x" by (rule log_invD [OF assms(1,2)])
  then have "logger_ok s (x\<lparr>l_formatter := f\<rparr>)" using assms(3) by (simp add: logger_ok_def)
  then have inv: "log_inv (put_logger l (x\<lparr>l_formatter := f\<rparr>) s)"
    by (rule log_inv_put_logger [OF assms(1,2)]) simp_all
  have "\<forall>a\<in>set (l_appenders x). appenders (put_logger l (x\<lparr>l_formatter := f\<rparr>) s) a \<noteq> None"
    using x by (auto simp: logger_ok_def put_logger_def)
  from log_inv_inherit [OF inv assms(3) this] assms(2) show ?thesis
    by (auto simp: Logger_setFormatter_def get_logger_def)
qed

lemma log_inv_console: "log_inv (s\<lparr>console := c\<rparr>) = log_inv s"
  by (simp add: log_inv_def logger_ok_def)

lemma log_inv_update_logger:
  assumes "log_inv s" and "loggers s l = Some x" and "l_formatter x' = l_formatter x" and "l_root x' = l_root x"
    and "l_name x' = l_name x" and "set (l_appenders x') \<subseteq> set (l_appenders x)"
  shows "log_inv (put_logger l x' s)"
proof (rule log_inv_put_logger [OF assms(1,2) _ assms(5,4)])
  show "logger_ok s x'" using log_invD [OF assms(1,2)] assms(3-6) unfolding logger_ok_def by auto
qed

text \<open>No logger has an appender twice.\<close>

definition log_distinct :: "log_sys \<Rightarrow> bool" where
  "log_distinct s \<longleftrightarrow> (\<forall>l x. loggers s l = Some x \<longrightarrow> distinct (l_appenders x))"

text \<open>
  A log call in a state of the invariant: one level of roots is enough, the call returns, and the
  console and the files get the texts of the appenders in order.
\<close>

definition target :: "log_sys \<Rightarrow> log_level \<Rightarrow> logger \<Rightarrow> logger option" where
  "target s level x =
     (if level < l_level x then None
      else if l_appenders x \<noteq> [] then Some x
      else (case l_root x of None \<Rightarrow> None
        | Some r \<Rightarrow> (case loggers s r of None \<Rightarrow> None
            | Some z \<Rightarrow> if level < l_level z \<or> l_appenders z = [] then None else Some z)))"

text \<open>The dates that a call has to print fit.\<close>

definition call_dates :: "time_str \<Rightarrow> log_level \<Rightarrow> log_event \<Rightarrow> nat \<Rightarrow> log_sys \<Rightarrow> bool" where
  "call_dates tstr level e l s \<longleftrightarrow> (case loggers s l of None \<Rightarrow> True
     | Some x \<Rightarrow> (case target s level x of None \<Rightarrow> True | Some z \<Rightarrow> dates_ok tstr (e_time e) (l_appenders z) s))"

lemma call_dates_total: "\<forall>fmt t. tstr fmt t \<noteq> None \<Longrightarrow> call_dates tstr level e l s"
  by (simp add: call_dates_def dates_ok_total split: option.splits)

lemma log_call_writes:
  assumes inv: "log_inv s" and ok: "call_dates tstr level e l s" and x: "loggers s l = Some x"
  shows "\<exists>s'. Logger_log (Suc n) tstr level e l s = Some (Inr s') \<and> log_frame s s' \<and>
    (log_distinct s \<or> e_time e < e_time e + 3 \<longrightarrow> console s' = console s @ (case target s level x of None \<Rightarrow> ''''
         | Some z \<Rightarrow> console_text tstr (l_name z) level e (l_appenders z) s) \<and>
       (\<forall>f. files s' f = files s f @ (case target s level x of None \<Rightarrow> ''''
         | Some z \<Rightarrow> file_text f tstr (l_name z) level e (l_appenders z) s)))"
proof -
  have app: "\<exists>s'. appenders_log tstr (l_name z) level e (l_appenders z) s = Inr s' \<and> log_frame s s' \<and>
      (log_distinct s \<or> e_time e < e_time e + 3 \<longrightarrow>
        console s' = console s @ console_text tstr (l_name z) level e (l_appenders z) s \<and>
        (\<forall>f. files s' f = files s f @ file_text f tstr (l_name z) level e (l_appenders z) s))"
    if z: "loggers s i = Some z" and t: "target s level x = Some z" for i z
  proof -
    have "\<forall>a\<in>set (l_appenders z). \<exists>x. appenders s a = Some x \<and> a_formatter x \<noteq> None"
      using log_invD [OF inv z] by (simp add: logger_ok_def)
    moreover have "dates_ok tstr (e_time e) (l_appenders z) s" using ok x t by (simp add: call_dates_def)
    ultimately have "\<forall>a\<in>set (l_appenders z). \<exists>x f. appenders s a = Some x \<and> a_formatter x = Some f \<and> dates_fit tstr (e_time e) f"
      by (fastforce simp: dates_ok_def)
    from appenders_log_returns [OF this] show ?thesis using z unfolding log_distinct_def by meson
  qed
  obtain r z where r: "mgr_root s = Some r" "loggers s r = Some z" "l_root z = None"
    using inv by (auto simp: log_inv_def)
  have root: "l_root x = None \<or> l_root x = Some r" using log_invD [OF inv x] r by (auto simp: logger_ok_def)
  show ?thesis
  proof (cases "level < l_level x \<or> l_appenders x \<noteq> [] \<or> l_root x = None")
    case True
    with app [OF x] x show ?thesis
      by (auto simp: target_def get_logger_def log_frame_refl not_less)
  next
    case False
    then have "l_root x = Some r" using root by auto
    with False app [OF r(2)] x r show ?thesis
      by (auto simp: target_def get_logger_def log_frame_refl not_less Logger_log.simps [of n])
  qed
qed

lemma log_inv_log:
  assumes "log_inv s" and "\<forall>fmt t. tstr fmt t \<noteq> None" and "loggers s l = Some x"
  shows "\<exists>s'. Logger_log (Suc n) tstr level e l s = Some (Inr s') \<and> log_frame s s'"
  using log_call_writes [OF assms(1) call_dates_total [OF assms(2)] assms(3)] by blast

section \<open>Reachable states\<close>

text \<open>
  The operations of a program on the manager, its loggers and the appenders: appender objects are made, added to any
  number of loggers and any number of times, and changed and used on their own. A formatter that is set is not null.
\<close>

inductive log_op :: "time_str \<Rightarrow> log_sys \<Rightarrow> log_sys \<Rightarrow> bool" for tstr where
  op_get: "getLogger name s = Inr (l, s') \<Longrightarrow> log_op tstr s s'"
| op_make: "log_op tstr s ((put_appender (next_obj s) y s)\<lparr>next_obj := Suc (next_obj s)\<rparr>)"
| op_add: "Logger_addAppender l a s = Inr s' \<Longrightarrow> log_op tstr s s'"
| op_del: "Logger_delAppender l a s = Inr s' \<Longrightarrow> log_op tstr s s'"
| op_clear: "Logger_clearAppenders l s = Inr s' \<Longrightarrow> log_op tstr s s'"
| op_level: "Logger_setLevel l lv s = Inr s' \<Longrightarrow> log_op tstr s s'"
| op_format: "Logger_setFormatter l (Some f) s = Inr s' \<Longrightarrow> log_op tstr s s'"
| op_format_string: "Logger_setFormatter_string l p s = Inr s' \<Longrightarrow> log_op tstr s s'"
| op_log: "Logger_log n tstr level e l s = Some (Inr s') \<Longrightarrow> log_op tstr s s'"
| op_appender_level: "get_appender a s = Inr x \<Longrightarrow> log_op tstr s (put_appender a (LogAppender_setLevel lv x) s)"
| op_appender_format: "get_appender a s = Inr x \<Longrightarrow>
    log_op tstr s (put_appender a (LogAppender_setFormatter (Some f) x) s)"
| op_appender_log: "LogAppender_log tstr name level e a s = Inr s' \<Longrightarrow> log_op tstr s s'"
| op_reopen: "get_appender a s = Inr x \<Longrightarrow>
    log_op tstr s (put_appender a (snd (FileLogAppender_reopen (sys_opens s) (sys_opens_dir s) x)) s)"

inductive log_reachable :: "time_str \<Rightarrow> log_sys \<Rightarrow> bool" for tstr where
  lr_new: "LoggerManager_new o1 o2 wr = Inr s \<Longrightarrow> log_reachable tstr s"
| lr_op: "log_reachable tstr s \<Longrightarrow> log_op tstr s s' \<Longrightarrow> log_reachable tstr s'"

lemma get_logger_Inr [simp]: "get_logger l s = Inr x \<longleftrightarrow> loggers s l = Some x"
  by (auto simp: get_logger_def split: option.splits)

lemma get_appender_Inr: "get_appender a s = Inr x \<longleftrightarrow> appenders s a = Some x"
  by (auto simp: get_appender_def split: option.splits)

lemma log_frame_append:
  assumes "LogAppender_log tstr name level e a s = Inr s'"
  shows "log_frame s s'"
proof -
  have same: "rel_option same_config y y" for y by (cases y) (simp_all add: same_config_refl)
  from assms obtain x where x: "appenders s a = Some x" by (auto simp: LogAppender_log_def res_bind_Inr_iff get_appender_Inr)
  show ?thesis
  proof (cases "a_kind x")
    case StdoutLogAppender
    with assms x show ?thesis
      by (auto simp: LogAppender_log_def get_appender_def res_bind_Inr_iff log_frame_def same)
  next
    case FileLogAppender
    with assms x show ?thesis
      by (auto simp: LogAppender_log_def get_appender_def res_bind_Inr_iff log_frame_def put_appender_def same
          dest!: file_log_config)
  qed
qed

lemma log_frame_appends: "appenders_log tstr name level e as s = Inr s' \<Longrightarrow> log_frame s s'"
proof (induction as arbitrary: s)
  case (Cons a as)
  then show ?case by (auto simp: res_bind_Inr_iff dest!: log_frame_append intro: log_frame_trans)
qed (simp add: log_frame_refl)

lemma log_frame_log_Inr: "Logger_log n tstr level e l s = Some (Inr s') \<Longrightarrow> log_frame s s'"
proof (induction n tstr level e l s rule: Logger_log.induct)
  case (1 n tstr level e l s)
  then show ?case
    by (auto simp: get_logger_def log_frame_refl dest: log_frame_appends split: if_splits option.splits nat.splits)
qed

lemma log_inv_op:
  assumes "log_op tstr s s'" and "log_inv s"
  shows "log_inv s'"
  using assms
proof (induction rule: log_op.induct)
  case (op_get name s l s')
  with log_inv_getLogger [of s name] show ?case by auto
next
  case (op_make s y)
  then show ?case by (rule log_inv_new_appender)
next
  case (op_add l a s s')
  then obtain x y where "loggers s l = Some x" "appenders s a = Some y"
    by (auto simp: Logger_addAppender_def res_bind_Inr_iff get_appender_Inr)
  with op_add log_inv_addAppender [of s l x a y] show ?case by auto
next
  case (op_del l a s s')
  then show ?case
    by (auto simp: Logger_delAppender_def res_bind_Inr_iff intro!: log_inv_update_logger dest: in_set_remove1 set_remove1_subset [THEN subsetD])
next
  case (op_format_string l p s s')
  then obtain x where x: "loggers s l = Some x"
    by (auto simp: Logger_setFormatter_string_def Let_def get_logger_def split: option.splits)
  let ?s = "s\<lparr>console := console s @ ''---'' @ p @ [CHR 0x0A] @ init_output p 0\<rparr>"
  have "log_inv ?s" using op_format_string by (simp add: log_inv_console)
  from log_inv_setFormatter [OF this, of l x "Some (LogFormatter_new p)"] op_format_string x show ?case
    by (auto simp: Logger_setFormatter_string_def Let_def get_logger_def log_inv_console split: if_splits)
next
  case (op_format l f s s')
  then obtain x where "loggers s l = Some x" by (auto simp: Logger_setFormatter_def res_bind_Inr_iff)
  with op_format log_inv_setFormatter [of s l x "Some f"] show ?case by auto
next
  case (op_log n level e l s s')
  then show ?case by (blast intro: log_inv_frame log_frame_log_Inr)
next
  case (op_appender_level a s x lv)
  then show ?case by (intro log_inv_put_appender) (auto simp: LogAppender_setLevel_def get_appender_Inr)
next
  case (op_appender_format a s x f)
  then show ?case by (intro log_inv_put_appender) (auto simp: LogAppender_setFormatter_def get_appender_Inr)
next
  case (op_appender_log name level e a s s')
  then show ?case by (blast intro: log_inv_frame log_frame_append)
next
  case (op_reopen a s x)
  then show ?case by (intro log_inv_put_appender) (auto simp: get_appender_Inr)
qed (auto simp: Logger_clearAppenders_def Logger_setLevel_def res_bind_Inr_iff intro!: log_inv_update_logger)

lemma log_reachable_inv: "log_reachable tstr s \<Longrightarrow> log_inv s"
proof (induction rule: log_reachable.induct)
  case (lr_new o1 o2 wr s)
  show ?case by (rule manager_sel [OF lr_new])
qed (blast intro: log_inv_op)

section \<open>Properties\<close>

text \<open>A clock that prints every date as the same text, for the witnesses.\<close>

definition demo_time :: time_str where
  "demo_time fmt t = Some ''now''"

definition demo_event :: log_event where
  "demo_event = \<lparr>e_file = ''f'', e_line = 1, e_elapse = 0, e_threadId = 2, e_fiberId = 0, e_time = 9,
     e_content = ''hello'', e_threadName = ''main'', e_logger = 0, e_level = INFO\<rparr>"


text \<open>A file appender, and a console appender with the name and a date; the second is added to the root logger twice.\<close>

definition demo_file :: appender where
  "demo_file = \<lparr>a_kind = FileLogAppender, a_level = DEBUG,
     a_formatter = Some \<lparr>m_pattern = ''%m'', m_items = [MessageItem], m_error = False\<rparr>, a_hasFormatter = True,
     a_filename = ''log/a.txt'', a_filestream = \<lparr>is_open = True, failed = False\<rparr>, a_lastTime = 8\<rparr>"




text \<open>
  The constructor of the manager applies the default configuration to the root logger twice: every
  message at \<open>DEBUG\<close> or above is written to the console twice (here with a file that can be written).
\<close>

theorem root_logs_twice:
  assumes "LoggerManager_new o1 o2 wr = Inr s" and "\<forall>fmt t. tstr fmt t \<noteq> None" and "level \<noteq> UNKNOW"
    and "o1 ''log/root.txt''" and "wr ''log/root.txt''"
  shows "\<exists>s' t. LogFormatter_format tstr ''root'' level e (m_items (LogFormatter_new default_pattern)) = Inr t \<and>
    Logger_log 1 tstr level e 0 s = Some (Inr s') \<and> console s' = t @ t \<and>
    files s' ''log/root.txt'' = files s ''log/root.txt'' @ t @ t"
proof -
  let ?f = "l_formatter (Logger_new ''root'')"
  from manager_sel [OF assms(1)] have s: "log_inv s" "console s = ''''"
    "loggers s 0 = Some ((Logger_new ''root'')\<lparr>l_appenders := [1, 2, 3, 4]\<rparr>)"
    "appenders s = [1 \<mapsto> default_stdout ?f, 2 \<mapsto> default_file ?f ''root'' s,
       3 \<mapsto> default_stdout ?f, 4 \<mapsto> default_file ?f ''root'' s]"
    "sys_opens s = o1" "sys_writes s = wr" by simp_all
  obtain t where t: "LogFormatter_format tstr ''root'' level e (m_items (LogFormatter_new default_pattern)) = Inr t"
    using format_total [OF assms(2)] by blast
  have lv: "DEBUG \<le> level" using assms(3) by (cases level) (simp_all add: less_eq_log_level_def)
  have st: "stream_at e s (default_file ?f ''root'' s) = \<lparr>is_open = True, failed = False\<rparr>"
    using assms(4) s(5) by (simp add: stream_at_def default_file_def FileLogAppender_new_def FileLogAppender_reopen_def
        OpenForWrite_def stream_open_def stream_close_def stream_new_def Let_def)
  have "shown tstr ''root'' level e (default_stdout ?f) = t" "shown tstr ''root'' level e (default_file ?f ''root'' s) = t"
    using t lv by (simp_all add: shown_def default_stdout_def default_file_def StdoutLogAppender_new_def Logger_new_def)
  then have out: "to_console tstr ''root'' level e s 1 = t" "to_console tstr ''root'' level e s 2 = ''''"
    "to_console tstr ''root'' level e s 3 = t" "to_console tstr ''root'' level e s 4 = ''''"
    "to_file ''log/root.txt'' tstr ''root'' level e s 1 = ''''" "to_file ''log/root.txt'' tstr ''root'' level e s 2 = t"
    "to_file ''log/root.txt'' tstr ''root'' level e s 3 = ''''" "to_file ''log/root.txt'' tstr ''root'' level e s 4 = t"
    using s st assms(5)
    by (simp_all add: to_console_def to_file_def complaint_def takes_text_def default_stdout_def default_file_def
        StdoutLogAppender_new_def)
  have "log_distinct s"
    using manager_sel(5) [OF assms(1)] by (simp add: log_distinct_def)
  with log_call_writes [OF s(1) call_dates_total [OF assms(2)] s(3), where level = level and e = e and n = 0] s(2) t lv out
  show ?thesis by (auto simp: target_def Logger_new_def not_less [symmetric] console_text_def file_text_def)
qed

theorem root_logs_twice_witness:
  "\<exists>s s' t. LoggerManager_new (\<lambda>_. True) (\<lambda>_. True) (\<lambda>_. True) = Inr s \<and>
    Logger_log 1 demo_time INFO demo_event 0 s = Some (Inr s') \<and> console s' = t @ t"
proof -
  obtain s where s: "LoggerManager_new (\<lambda>_. True) (\<lambda>_. True) (\<lambda>_. True) = Inr s"
    by (rule manager_starts)
  with root_logs_twice [OF s, of demo_time INFO demo_event] show ?thesis by (auto simp: demo_time_def)
qed

text \<open>
  \<open>getLogger\<close> is a registry: in every reachable state it returns a logger of the name asked for,
  the same one at each later call, which then changes nothing, and the loggers handed out before stay
  as they are.
\<close>

theorem getLogger_stable:
  assumes "log_reachable tstr s"
  shows "\<exists>l s' x. getLogger name s = Inr (l, s') \<and> loggers s' l = Some x \<and> l_name x = name \<and>
    getLogger name s' = Inr (l, s') \<and>
    (\<forall>n m. map_of (m_loggers s) n = Some m \<longrightarrow> map_of (m_loggers s') n = Some m \<and> loggers s' m = loggers s m)"
proof -
  from log_inv_getLogger [OF log_reachable_inv [OF assms], of name] obtain l s' where
    l: "getLogger name s = Inr (l, s')" "log_inv s'" "map_of (m_loggers s') name = Some l"
    "\<forall>n m. map_of (m_loggers s) n = Some m \<longrightarrow> map_of (m_loggers s') n = Some m \<and> loggers s' m = loggers s m"
    by blast
  moreover from l(2,3) obtain x where "loggers s' l = Some x" "l_name x = name" unfolding log_inv_def by blast
  moreover have "getLogger name s' = Inr (l, s')" using l(3) by (simp add: getLogger_def)
  ultimately show ?thesis by blast
qed

theorem getLogger_stable_witness:
  "\<exists>s l s'. LoggerManager_new (\<lambda>_. True) (\<lambda>_. True) (\<lambda>_. True) = Inr s \<and>
    getLogger ''system'' s = Inr (l, s') \<and> getLogger ''system'' s' = Inr (l, s')"
proof -
  obtain s where s: "LoggerManager_new (\<lambda>_. True) (\<lambda>_. True) (\<lambda>_. True) = Inr s"
    by (rule manager_starts)
  with getLogger_stable [OF lr_new [OF s], of "''system''"] show ?thesis by auto
qed

text \<open>
  A logger's formatter never reaches its appenders: \<open>addAppender\<close> gives an appender without a
  formatter the logger's one through \<open>LogAppender::setFormatter\<close>, which marks it as the appender's own, so that a
  later \<open>Logger::setFormatter\<close> leaves it as it is.
\<close>

theorem setFormatter_skips_appenders:
  assumes "log_reachable tstr s" and "loggers s l = Some x"
    and "add_new_appender l y s = Inr s1" and "a_formatter y = None"
    and "Logger_setFormatter l (Some f) s1 = Inr s2"
  shows "\<exists>z. appenders s2 (next_obj s) = Some z \<and> a_formatter z = l_formatter x"
proof -
  have inv: "log_inv s" by (rule log_reachable_inv [OF assms(1)])
  from log_inv_add_new [OF inv assms(2), of y] assms(3,4)
  have s1: "appenders s1 (next_obj s) = Some (LogAppender_setFormatter (l_formatter x) y)" by auto
  have "l_formatter x \<noteq> None" using log_invD [OF inv assms(2)] by (simp add: logger_ok_def)
  then have has: "a_hasFormatter (LogAppender_setFormatter (l_formatter x) y)"
    by (auto simp: LogAppender_setFormatter_def)
  have keep: "appenders s' a = appenders s0 a"
    if "inherit_formatter g as s0 = Inr s'" "appenders s0 a = Some z" "a_hasFormatter z" for g as s0 s' a z
    using that
  proof (induction as arbitrary: s0)
    case (Cons b as)
    then obtain u where u: "appenders s0 b = Some u" by (auto simp: get_appender_def split: option.splits)
    let ?s = "if \<not> a_hasFormatter u then put_appender b (u\<lparr>a_formatter := g\<rparr>) s0 else s0"
    have "appenders ?s a = Some z" using Cons.prems u by (auto simp: put_appender_def)
    with Cons.IH [of ?s] Cons.prems u show ?case by (simp add: get_appender_def)
  qed simp
  from assms(5) obtain x1 where
    "inherit_formatter (Some f) (l_appenders x1) (put_logger l (x1\<lparr>l_formatter := Some f\<rparr>) s1) = Inr s2"
    by (auto simp: Logger_setFormatter_def res_bind_Inr_iff)
  from keep [OF this, of "next_obj s"] s1 has show ?thesis
    by (simp add: put_logger_def LogAppender_setFormatter_def)
qed

theorem setFormatter_skips_appenders_witness:
  "\<exists>s s1 s2 z. LoggerManager_new (\<lambda>_. True) (\<lambda>_. True) (\<lambda>_. True) = Inr s \<and>
    add_new_appender 0 StdoutLogAppender_new s = Inr s1 \<and>
    Logger_setFormatter 0 (Some (LogFormatter_new ''%m'')) s1 = Inr s2 \<and>
    appenders s2 (next_obj s) = Some z \<and> a_formatter z = Some (LogFormatter_new default_pattern)"
proof -
  obtain s where s: "LoggerManager_new (\<lambda>_. True) (\<lambda>_. True) (\<lambda>_. True) = Inr s" "log_inv s"
    "loggers s 0 = Some ((Logger_new ''root'')\<lparr>l_appenders := [1, 2, 3, 4]\<rparr>)"
    by (rule manager_starts) (use manager_sel in simp)
  from log_inv_add_new [OF s(2,3), of StdoutLogAppender_new] obtain s1 x1 where
    s1: "add_new_appender 0 StdoutLogAppender_new s = Inr s1" "log_inv s1" "loggers s1 0 = Some x1" by auto
  from log_inv_setFormatter [OF s1(2,3), of "Some (LogFormatter_new ''%m'')"] obtain s2 where
    s2: "Logger_setFormatter 0 (Some (LogFormatter_new ''%m'')) s1 = Inr s2" by auto
  have "\<exists>z. appenders s2 (next_obj s) = Some z \<and> a_formatter z = Some (LogFormatter_new default_pattern)"
    using setFormatter_skips_appenders [OF lr_new [OF s(1)] s(3) s1(1) _ s2]
    by (simp add: StdoutLogAppender_new_def Logger_new_def)
  with s(1) s1(1) s2 show ?thesis by blast
qed

text \<open>A sequence of messages to one file appender, on a system that takes all writes.\<close>

fun file_logs :: "time_str \<Rightarrow> (string \<Rightarrow> bool) \<Rightarrow> (string \<Rightarrow> bool) \<Rightarrow> string \<Rightarrow> (log_level \<times> log_event) list \<Rightarrow>
    appender \<Rightarrow> (string \<times> appender) res" where
  "file_logs tstr o1 o2 name [] x = Inr ('''', x)"
| "file_logs tstr o1 o2 name ((level, e) # es) x =
     res_bind (FileLogAppender_log tstr o1 o2 (\<lambda>_. True) name level e x) (\<lambda>(t, out, x1).
       res_bind (file_logs tstr o1 o2 name es x1) (\<lambda>(ts, x2). Inr (t @ ts, x2)))"

lemma reopen_stuck:
  assumes "is_open (a_filestream x)" and "failed (a_filestream x)"
  shows "a_filestream (snd (FileLogAppender_reopen o1 o2 x)) = a_filestream x"
  using assms
  by (simp add: FileLogAppender_reopen_def OpenForWrite_def stream_open_def Let_def)

lemma file_log_stuck:
  assumes "is_open (a_filestream x)" and "failed (a_filestream x)"
    and "FileLogAppender_log tstr o1 o2 wr name level e x = Inr (t, out, x')"
  shows "t = '''' \<and> is_open (a_filestream x') \<and> failed (a_filestream x')"
  using assms reopen_stuck [OF assms(1,2), of o1 o2]
  by (auto simp: FileLogAppender_log_def Let_def res_bind_Inr_iff split: if_splits option.splits)

text \<open>
  A write that the system refuses stops a file appender for good: it complains, the stream is open and failed,
  \<open>reopen\<close> does not close a failed stream and cannot open an open one, so no later message is
  written, however often it is reopened.
\<close>

theorem failed_write_stops_appender:
  assumes "a_filestream x = \<lparr>is_open = True, failed = False\<rparr>" and "level \<ge> a_level x"
    and "e_time e < a_lastTime x + 3"
    and "shown tstr name level e x \<noteq> ''''"
    and "FileLogAppender_log tstr o1 o2 (\<lambda>_. False) name level e x = Inr (t, lines, x1)"
    and "file_logs tstr o1 o2 name es x1 = Inr (out, x2)"
  shows "t = '''' \<and> lines = file_error_line \<and> out = '''' \<and> failed (a_filestream x2)"
proof -
  have x1: "t = ''''" "lines = file_error_line" "is_open (a_filestream x1)" "failed (a_filestream x1)"
    using assms(1-5)
    by (auto simp: FileLogAppender_log_def Let_def res_bind_Inr_iff not_le shown_def split: option.splits if_splits)
  have "out = '''' \<and> failed (a_filestream x2)"
    using assms(6) x1(3,4)
  proof (induction es arbitrary: x1 out)
    case (Cons p es)
    obtain lv ev where p: "p = (lv, ev)" by (cases p)
    with Cons.prems obtain t1 o1' y ts where y: "FileLogAppender_log tstr o1 o2 (\<lambda>_. True) name lv ev x1 = Inr (t1, o1', y)"
      "file_logs tstr o1 o2 name es y = Inr (ts, x2)" "out = t1 @ ts"
      by (auto simp: res_bind_Inr_iff)
    from file_log_stuck [OF Cons.prems(2,3) y(1)] have "t1 = ''''" "is_open (a_filestream y)" "failed (a_filestream y)"
      by auto
    with Cons.IH [OF y(2)] y(3) show ?case by simp
  qed simp
  with x1(1,2) show ?thesis by simp
qed

theorem failed_write_stops_appender_witness:
  "\<exists>x1 x2 out. FileLogAppender_log demo_time (\<lambda>_. True) (\<lambda>_. True) (\<lambda>_. False) ''a'' INFO demo_event demo_file =
      Inr ('''', file_error_line, x1) \<and>
    file_logs demo_time (\<lambda>_. True) (\<lambda>_. True) ''a'' [(INFO, demo_event\<lparr>e_time := 100\<rparr>)] x1 = Inr (out, x2) \<and> out = ''''"
proof -
  obtain x1 where x1: "FileLogAppender_log demo_time (\<lambda>_. True) (\<lambda>_. True) (\<lambda>_. False) ''a'' INFO demo_event demo_file =
      Inr ('''', file_error_line, x1)" "a_formatter x1 = a_formatter demo_file"
    by (simp add: FileLogAppender_log_def demo_file_def demo_event_def less_eq_log_level_def)
  have "\<exists>t o3 x2. FileLogAppender_log demo_time (\<lambda>_. True) (\<lambda>_. True) (\<lambda>_. True) ''a'' INFO (demo_event\<lparr>e_time := 100\<rparr>) x1 =
      Inr (t, o3, x2)"
    using x1(2) by (auto simp: FileLogAppender_log_def Let_def demo_file_def)
  then obtain out x2 where x2: "file_logs demo_time (\<lambda>_. True) (\<lambda>_. True) ''a'' [(INFO, demo_event\<lparr>e_time := 100\<rparr>)] x1 = Inr (out, x2)"
    by auto
  have "out = ''''"
    using failed_write_stops_appender [OF _ _ _ _ x1(1) x2]
    by (simp add: demo_file_def demo_event_def less_eq_log_level_def shown_def)
  with x1 x2 show ?thesis by blast
qed

end
