(* ===== verification/ConfigModel.thy ===== *)
theory ConfigModel imports Prelude begin

text \<open>
  \<open>LioNet/config.h\<close> and \<open>config.cc\<close>: configuration variables with listeners, their registry, and
  loading them from YAML documents and from a directory of files. The variables of all types are one
  record with the name of their C++ type, on which \<open>dynamic_pointer_cast\<close> decides. The conversions
  from and to text and the \<open>operator==\<close> of the type are arguments (their templates are in theory
  ConfigCast), as is what yaml-cpp prints for a node.
\<close>

section \<open>Variables\<close>

text \<open>
  The listeners \<open>'cb\<close> of a variable are functions that are told the old and the new value; an empty
  \<open>std::function\<close> throws. \<open>m_cbs\<close> is a \<open>std::map\<close>, called in the order of the keys. In this theory an \<open>on_change_cb\<close>
  is whether the function returns or throws; theory ConfigRun has the same operations with listeners that change
  the state of the process.
\<close>

type_synonym 'v on_change_cb = "'v \<Rightarrow> 'v \<Rightarrow> bool"

record ('v, 'cb) config_var =
  cv_name :: string
  cv_description :: string
  cv_type :: string
  cv_val :: 'v
  cv_cbs :: "(64 word \<times> 'cb option) list"

text \<open>A call of a listener: its key, the old and the new value.\<close>

type_synonym 'v notification = "64 word \<times> 'v \<times> 'v"

definition ConfigVar_new :: "string \<Rightarrow> string \<Rightarrow> 'v \<Rightarrow> string \<Rightarrow> ('v, 'cb) config_var" where
  "ConfigVar_new type name default_value desc =
     \<lparr>cv_name = map to_lower name, cv_description = desc, cv_type = type, cv_val = default_value,
      cv_cbs = []\<rparr>"

definition getValue :: "('v, 'cb) config_var \<Rightarrow> 'v" where
  "getValue x = cv_val x"

definition getTypeName :: "('v, 'cb) config_var \<Rightarrow> string" where
  "getTypeName x = cv_type x"

text \<open>The calls made, and whether all returned.\<close>

fun notify :: "'v \<Rightarrow> 'v \<Rightarrow> (64 word \<times> 'v on_change_cb option) list \<Rightarrow> 'v notification list \<times> bool" where
  "notify old new [] = ([], True)"
| "notify old new ((k, cb) # cbs) =
     (case cb of
        None \<Rightarrow> ([], False)
      | Some f \<Rightarrow>
          if f old new then (let (ns, ok) = notify old new cbs in ((k, old, new) # ns, ok))
          else ([(k, old, new)], False))"

text \<open>\<open>setValue\<close>: the exception of a listener leaves the value as it was. \<open>eqv\<close> is \<open>operator==\<close>.\<close>

definition setValue ::
    "('v \<Rightarrow> 'v \<Rightarrow> bool) \<Rightarrow> 'v \<Rightarrow> ('v, 'v on_change_cb) config_var \<Rightarrow> 'v notification list \<times> ('v, 'v on_change_cb) config_var res" where
  "setValue eqv v x =
     (if eqv v (cv_val x) then ([], Inr x)
      else (let (ns, ok) = notify (cv_val x) v (cv_cbs x)
            in (ns, if ok then Inr (x\<lparr>cv_val := v\<rparr>) else Inl (Thrown ''listener''))))"

text \<open>
  \<open>toString\<close> and \<open>fromString\<close>: an exception is logged, with the result \<open>""\<close> and \<open>false\<close>. The code catches
  \<open>std::exception\<close>, from which those of the conversions derive; an exception of a listener is one here, and
  \<open>fromString_run\<close> of theory ConfigRun has the others.
\<close>

definition ConfigVar_toString :: "('v \<Rightarrow> string res) \<Rightarrow> ('v, 'cb) config_var \<Rightarrow> string" where
  "ConfigVar_toString to_str x = (case to_str (cv_val x) of Inl _ \<Rightarrow> '''' | Inr s \<Rightarrow> s)"

definition ConfigVar_fromString ::
    "(string \<Rightarrow> 'v res) \<Rightarrow> ('v \<Rightarrow> 'v \<Rightarrow> bool) \<Rightarrow> string \<Rightarrow> ('v, 'v on_change_cb) config_var \<Rightarrow>
     bool \<times> 'v notification list \<times> ('v, 'v on_change_cb) config_var" where
  "ConfigVar_fromString from_str eqv val x = (case from_str val of
       Inl _ \<Rightarrow> (False, [], x)
     | Inr v \<Rightarrow> (case setValue eqv v x of
           (ns, Inl _) \<Rightarrow> (False, ns, x)
         | (ns, Inr x') \<Rightarrow> (True, ns, x')))"

text \<open>\<open>s_fun_id\<close> is one counter for all variables of a type.\<close>

definition addListener ::
    "'cb option \<Rightarrow> 64 word \<Rightarrow> ('v, 'cb) config_var \<Rightarrow> 64 word \<times> 64 word \<times> ('v, 'cb) config_var" where
  "addListener cb s_fun_id x =
     (let k = s_fun_id + 1 in (k, k, x\<lparr>cv_cbs := omap_put k cb (cv_cbs x)\<rparr>))"

definition delListener :: "64 word \<Rightarrow> ('v, 'cb) config_var \<Rightarrow> ('v, 'cb) config_var" where
  "delListener key x = x\<lparr>cv_cbs := omap_erase key (cv_cbs x)\<rparr>"

definition getListener :: "64 word \<Rightarrow> ('v, 'cb) config_var \<Rightarrow> 'cb option" where
  "getListener key x = (case map_of (cv_cbs x) key of None \<Rightarrow> None | Some cb \<Rightarrow> cb)"

definition clearListener :: "('v, 'cb) config_var \<Rightarrow> ('v, 'cb) config_var" where
  "clearListener x = x\<lparr>cv_cbs := []\<rparr>"

section \<open>The registry\<close>

definition valid_name_chars :: string where
  "valid_name_chars = ''abcdefghikjlmnopqrstuvwxyz._012345678''"

text \<open>\<open>GetDatas()\<close>: the variables by name; the list has the order of iteration of the hash map.\<close>

type_synonym ('v, 'cb) datas = "(string \<times> ('v, 'cb) config_var) list"

fun put_data :: "string \<Rightarrow> ('v, 'cb) config_var \<Rightarrow> ('v, 'cb) datas \<Rightarrow> ('v, 'cb) datas" where
  "put_data name x [] = [(name, x)]"
| "put_data name x ((n, y) # ds) =
     (if n = name then (n, x) # ds else (n, y) # put_data name x ds)"

text \<open>
  \<open>Lookup(name, default, desc)\<close> for the type \<open>type\<close>: the variable (\<open>None\<close> for a null pointer), found or
  made.
\<close>

definition Config_Lookup ::
    "string \<Rightarrow> string \<Rightarrow> 'v \<Rightarrow> string \<Rightarrow> ('v, 'cb) datas \<Rightarrow> (('v, 'cb) config_var option \<times> ('v, 'cb) datas) res" where
  "Config_Lookup type name default_value desc ds = (case map_of ds name of
       Some x \<Rightarrow> Inr (if cv_type x = type then Some x else None, ds)
     | None \<Rightarrow>
         if has_char_not_in valid_name_chars name then Inl (Thrown name)
         else (let x = ConfigVar_new type name default_value desc
               in Inr (Some x, put_data name x ds)))"

definition Config_Lookup_name :: "string \<Rightarrow> string \<Rightarrow> ('v, 'cb) datas \<Rightarrow> ('v, 'cb) config_var option" where
  "Config_Lookup_name type name ds = (case map_of ds name of
       None \<Rightarrow> None | Some x \<Rightarrow> if cv_type x = type then Some x else None)"

definition LookupBase :: "string \<Rightarrow> ('v, 'cb) datas \<Rightarrow> ('v, 'cb) config_var option" where
  "LookupBase name ds = map_of ds name"

definition Config_Visit :: "(('v, 'cb) config_var \<Rightarrow> 's \<Rightarrow> 's) \<Rightarrow> ('v, 'cb) datas \<Rightarrow> 's \<Rightarrow> 's" where
  "Config_Visit cb ds s = fold (\<lambda>(n, x). cb x) ds s"

section \<open>Loading\<close>

text \<open>A YAML document.\<close>

datatype ynode = YNull | YScalar string | YSeq "ynode list" | YMap "(string \<times> ynode) list"

text \<open>\<open>ListAllMember\<close>: a node and, below a map, its members with their dotted names.\<close>

fun ListAllMember :: "string \<Rightarrow> ynode \<Rightarrow> (string \<times> ynode) list"
  and ListAllMember_map :: "string \<Rightarrow> (string \<times> ynode) list \<Rightarrow> (string \<times> ynode) list" where
  "ListAllMember prefix nd =
     (if has_char_not_in valid_name_chars prefix then []
      else (prefix, nd) # (case nd of YMap ms \<Rightarrow> ListAllMember_map prefix ms | _ \<Rightarrow> []))"
| "ListAllMember_map prefix [] = []"
| "ListAllMember_map prefix ((k, n) # ms) =
     ListAllMember (if prefix = '''' then k else prefix @ ''.'' @ k) n @ ListAllMember_map prefix ms"

text \<open>
  \<open>LoadFromYaml\<close>. \<open>emit\<close> is what yaml-cpp writes for a node that is no scalar; \<open>from_str\<close> and \<open>eqv\<close> are
  given per type. Each notification carries the variable's name.
\<close>

definition load_entry ::
    "(ynode \<Rightarrow> string) \<Rightarrow> (string \<Rightarrow> string \<Rightarrow> 'v res) \<Rightarrow> (string \<Rightarrow> 'v \<Rightarrow> 'v \<Rightarrow> bool) \<Rightarrow> string \<times> ynode \<Rightarrow>
     (string \<times> 'v notification) list \<times> ('v, 'v on_change_cb) datas \<Rightarrow> (string \<times> 'v notification) list \<times> ('v, 'v on_change_cb) datas" where
  "load_entry emit from_str eqv i s =
     (let (key0, nd) = i; (log, ds) = s
      in if key0 = '''' then s
         else (let key = map to_lower key0
               in case LookupBase key ds of
                    None \<Rightarrow> s
                  | Some x \<Rightarrow>
                      (let text = (case nd of YScalar t \<Rightarrow> t | _ \<Rightarrow> emit nd);
                           (ok, ns, x') = ConfigVar_fromString (from_str (cv_type x)) (eqv (cv_type x)) text x
                       in (log @ map (Pair key) ns, put_data key x' ds))))"

definition LoadFromYaml ::
    "(ynode \<Rightarrow> string) \<Rightarrow> (string \<Rightarrow> string \<Rightarrow> 'v res) \<Rightarrow> (string \<Rightarrow> 'v \<Rightarrow> 'v \<Rightarrow> bool) \<Rightarrow> ynode \<Rightarrow>
     (string \<times> 'v notification) list \<times> ('v, 'v on_change_cb) datas \<Rightarrow> (string \<times> 'v notification) list \<times> ('v, 'v on_change_cb) datas" where
  "LoadFromYaml emit from_str eqv root s = fold (load_entry emit from_str eqv) (ListAllMember '''' root) s"

text \<open>
  The loop of \<open>LoadFromConfDir\<close> over the files: \<open>mtime\<close> is the answer of \<open>lstat\<close> (\<open>None\<close> when it fails, and \<open>st\<close> stays
  uninitialised), \<open>load_file\<close> is \<open>YAML::LoadFile\<close> (\<open>None\<close> when it throws). The times of the files are kept across calls.
\<close>

fun conf_files_loop ::
    "(ynode \<Rightarrow> string) \<Rightarrow> (string \<Rightarrow> string \<Rightarrow> 'v res) \<Rightarrow> (string \<Rightarrow> 'v \<Rightarrow> 'v \<Rightarrow> bool) \<Rightarrow>
     (string \<Rightarrow> 64 word option) \<Rightarrow> (string \<Rightarrow> ynode option) \<Rightarrow> bool \<Rightarrow> string list \<Rightarrow>
     (string \<Rightarrow> 64 word) \<Rightarrow> (string \<times> 'v notification) list \<times> ('v, 'v on_change_cb) datas \<Rightarrow>
     ((string \<Rightarrow> 64 word) \<times> (string \<times> 'v notification) list \<times> ('v, 'v on_change_cb) datas) res" where
  "conf_files_loop emit from_str eqv mtime load_file force [] seen s = Inr (seen, s)"
| "conf_files_loop emit from_str eqv mtime load_file force (i # fs) seen s =
     (case mtime i of
        None \<Rightarrow> Inl UninitRead
      | Some t \<Rightarrow>
          if \<not> force \<and> seen i = t
          then conf_files_loop emit from_str eqv mtime load_file force fs seen s
          else conf_files_loop emit from_str eqv mtime load_file force fs (seen(i := t))
                 (case load_file i of None \<Rightarrow> s | Some root \<Rightarrow> LoadFromYaml emit from_str eqv root s))"

section \<open>Listeners\<close>

text \<open>
  The registry of listeners as a finite map from keys: the contract that \<open>addListener\<close>,
  \<open>delListener\<close>, \<open>getListener\<close> and \<open>clearListener\<close> keep, and what a client may conclude.
\<close>

locale listener_map =
  fixes add :: "'cb \<Rightarrow> 'k \<Rightarrow> 's \<Rightarrow> 'k \<times> 's" and del :: "'k \<Rightarrow> 's \<Rightarrow> 's" and clear :: "'s \<Rightarrow> 's"
    and find :: "'s \<Rightarrow> 'k \<Rightarrow> 'cb option" and ok :: "'s \<Rightarrow> bool" and next_key :: "'k \<Rightarrow> 'k"
  assumes add_key: "fst (add cb c s) = next_key c"
    and find_add: "ok s \<Longrightarrow> find (snd (add cb c s)) k = (if k = next_key c then Some cb else find s k)"
    and find_del: "ok s \<Longrightarrow> find (del k' s) k = (if k = k' then None else find s k)"
    and find_clear: "find (clear s) k = None"
    and ok_add: "ok s \<Longrightarrow> ok (snd (add cb c s))"
    and ok_del: "ok s \<Longrightarrow> ok (del k s)"
    and ok_clear: "ok (clear s)"
begin

lemma add_then_find: "ok s \<Longrightarrow> find (snd (add cb c s)) (fst (add cb c s)) = Some cb"
  by (simp add: add_key find_add)

lemma add_del_restores:
  assumes "ok s" and "find s (next_key c) = None"
  shows "find (del (fst (add cb c s)) (snd (add cb c s))) k = find s k"
  using assms by (simp add: add_key find_add find_del ok_add)

lemma adds_distinct:
  assumes "ok s" and "next_key c \<noteq> next_key c'"
  shows "find (snd (add cb' c' (snd (add cb c s)))) (next_key c) = Some cb"
  using assms by (simp add: find_add ok_add)

end

definition cv_ok :: "('v, 'cb) config_var \<Rightarrow> bool" where
  "cv_ok x \<longleftrightarrow> omap_ok (cv_cbs x)"

lemma omap_ok_Nil: "omap_ok []"
  by (simp add: omap_ok_def)

interpretation cbs: listener_map
    "\<lambda>cb c x. (fst (addListener cb c x), snd (snd (addListener cb c x)))"
    delListener clearListener "\<lambda>x k. map_of (cv_cbs x) k" cv_ok "\<lambda>c. c + 1"
  by unfold_locales
    (auto simp: addListener_def delListener_def clearListener_def cv_ok_def map_of_omap_put
      map_of_omap_erase omap_put_ok omap_erase_ok omap_ok_Nil Let_def)

lemma notify_all:
  assumes "\<forall>(k, cb)\<in>set cbs. \<exists>f. cb = Some f \<and> f old new"
  shows "notify old new cbs = (map (\<lambda>(k, cb). (k, old, new)) cbs, True)"
  using assms by (induction cbs) auto

lemma notify_keys: "set (fst (notify old new cbs)) \<subseteq> (\<lambda>(k, cb). (k, old, new)) ` set cbs"
  by (induction cbs) (auto split: option.splits prod.splits)

text \<open>A sequence of assignments, with all the calls they make.\<close>

fun setValues :: "('v \<Rightarrow> 'v \<Rightarrow> bool) \<Rightarrow> 'v list \<Rightarrow> ('v, 'v on_change_cb) config_var \<Rightarrow> ('v notification list \<times> ('v, 'v on_change_cb) config_var) res" where
  "setValues eqv [] x = Inr ([], x)"
| "setValues eqv (v # vs) x = (case setValue eqv v x of
       (ns, Inl err) \<Rightarrow> Inl err
     | (ns, Inr x') \<Rightarrow> res_bind (setValues eqv vs x') (\<lambda>(ms, x''). Inr (ns @ ms, x'')))"

fun chain :: "'v \<Rightarrow> 'v \<Rightarrow> ('v \<times> 'v) list \<Rightarrow> bool" where
  "chain a b [] \<longleftrightarrow> a = b"
| "chain a b ((old, new) # ps) \<longleftrightarrow> old = a \<and> chain new b ps"

text \<open>The calls of one listener.\<close>

definition calls_of :: "64 word \<Rightarrow> 'v notification list \<Rightarrow> ('v \<times> 'v) list" where
  "calls_of k ns = map snd (filter (\<lambda>n. fst n = k) ns)"

lemma calls_of_simps [simp]:
  "calls_of k [] = []" "calls_of k (ns @ ms) = calls_of k ns @ calls_of k ms"
  by (simp_all add: calls_of_def)

lemma calls_of_notify:
  assumes "sorted_wrt (<) (map fst cbs)" and "\<forall>(j, cb)\<in>set cbs. \<exists>f. cb = Some f \<and> (\<forall>a b. f a b)"
    and "k \<in> fst ` set cbs"
  shows "calls_of k (fst (notify old new cbs)) = [(old, new)]"
proof -
  have eq: "notify old new cbs = (map (\<lambda>(k, cb). (k, old, new)) cbs, True)"
    by (rule notify_all) (use assms(2) in fastforce)
  have "filter (\<lambda>p. fst p = k) cbs = [p]" if "sorted_wrt (<) (map fst cbs)" "p \<in> set cbs" "fst p = k"
    for p and cbs :: "(64 word \<times> 'a on_change_cb option) list"
    using that
  proof (induction cbs)
    case (Cons c cbs)
    then show ?case by (cases "c = p") (auto simp: filter_empty_conv)
  qed simp
  moreover obtain p where "p \<in> set cbs" "fst p = k" using assms(3) by auto
  ultimately have "filter (\<lambda>p. fst p = k) cbs = [p]" using assms(1) by blast
  then show ?thesis unfolding eq calls_of_def by (simp add: filter_map comp_def split_beta)
qed

lemma setValue_returns:
  assumes "\<forall>(j, cb)\<in>set (cv_cbs x). \<exists>f. cb = Some f \<and> (\<forall>a b. f a b)"
  shows "setValue eqv v x =
    (if eqv v (cv_val x) then ([], Inr x)
     else (map (\<lambda>(k, cb). (k, cv_val x, v)) (cv_cbs x), Inr (x\<lparr>cv_val := v\<rparr>)))"
proof -
  have "notify (cv_val x) v (cv_cbs x) = (map (\<lambda>(k, cb). (k, cv_val x, v)) (cv_cbs x), True)"
    by (rule notify_all) (use assms in fastforce)
  then show ?thesis by (simp add: setValue_def)
qed

lemma setValues_chain:
  assumes "cv_ok x" and "\<forall>(j, cb)\<in>set (cv_cbs x). \<exists>f. cb = Some f \<and> (\<forall>a b. f a b)"
    and "k \<in> fst ` set (cv_cbs x)"
  shows "\<exists>ns x'. setValues eqv vs x = Inr (ns, x') \<and> cv_cbs x' = cv_cbs x \<and>
    chain (cv_val x) (cv_val x') (calls_of k ns)"
  using assms
proof (induction vs arbitrary: x)
  case (Cons v vs)
  show ?case
  proof (cases "eqv v (cv_val x)")
    case True
    then have "setValue eqv v x = ([], Inr x)" using setValue_returns [OF Cons.prems(2)] by simp
    moreover from Cons.IH [OF Cons.prems] obtain ms x' where
      "setValues eqv vs x = Inr (ms, x')" "cv_cbs x' = cv_cbs x" "chain (cv_val x) (cv_val x') (calls_of k ms)"
      by blast
    ultimately show ?thesis by simp
  next
    case False
    let ?x = "x\<lparr>cv_val := v\<rparr>" and ?ns = "map (\<lambda>(k, cb). (k, cv_val x, v)) (cv_cbs x)"
    have sv: "setValue eqv v x = (?ns, Inr ?x)" using False setValue_returns [OF Cons.prems(2)] by simp
    have "notify (cv_val x) v (cv_cbs x) = (?ns, True)"
      by (rule notify_all) (use Cons.prems(2) in fastforce)
    then have "?ns = fst (notify (cv_val x) v (cv_cbs x))" by simp
    moreover have "sorted_wrt (<) (map fst (cv_cbs x))" using Cons.prems(1) by (simp add: cv_ok_def omap_ok_def)
    ultimately have "calls_of k ?ns = [(cv_val x, v)]"
      using calls_of_notify [OF _ Cons.prems(2,3), of "cv_val x" v] by metis
    moreover from Cons.IH [of ?x] Cons.prems obtain ms x' where
      "setValues eqv vs ?x = Inr (ms, x')" "cv_cbs x' = cv_cbs x" "chain v (cv_val x') (calls_of k ms)"
      by (auto simp: cv_ok_def)
    ultimately show ?thesis using sv by simp
  qed
qed simp

text \<open>
  \<open>setValue\<close> as other threads see it: the comparison and the calls under the read lock, then the
  assignment under the write lock. \<open>None\<close> when there is nothing to assign.
\<close>

definition setValue_read ::
    "('v \<Rightarrow> 'v \<Rightarrow> bool) \<Rightarrow> 'v \<Rightarrow> ('v, 'v on_change_cb) config_var \<Rightarrow> 'v notification list \<times> 'v option res" where
  "setValue_read eqv v x =
     (if eqv v (cv_val x) then ([], Inr None)
      else (let (ns, ok) = notify (cv_val x) v (cv_cbs x)
            in (ns, if ok then Inr (Some v) else Inl (Thrown ''listener''))))"

definition setValue_write :: "'v option \<Rightarrow> ('v, 'cb) config_var \<Rightarrow> ('v, 'cb) config_var" where
  "setValue_write p x = (case p of None \<Rightarrow> x | Some v \<Rightarrow> x\<lparr>cv_val := v\<rparr>)"

lemma setValue_sections:
  "setValue eqv v x = (case setValue_read eqv v x of (ns, Inl err) \<Rightarrow> (ns, Inl err)
     | (ns, Inr p) \<Rightarrow> (ns, Inr (setValue_write p x)))"
  by (auto simp: setValue_def setValue_read_def setValue_write_def split: prod.splits)

section \<open>Names and documents\<close>

lemma put_data_map_of: "map_of (put_data name x ds) = (map_of ds)(name \<mapsto> x)"
  by (induction name x ds rule: put_data.induct) (auto simp: fun_eq_iff)

lemma put_data_order: "name \<in> fst ` set ds \<Longrightarrow> map fst (put_data name x ds) = map fst ds"
  by (induction name x ds rule: put_data.induct) auto

definition name_ok :: "string \<Rightarrow> bool" where
  "name_ok s \<longleftrightarrow> set s \<subseteq> set valid_name_chars"

lemma name_ok_iff: "has_char_not_in valid_name_chars s \<longleftrightarrow> \<not> name_ok s"
  by (simp add: has_char_not_in_iff name_ok_def)

lemma valid_chars_lower: "list_all (\<lambda>c. to_lower c = c) valid_name_chars"
  by code_simp

lemma name_ok_lower: "name_ok s \<Longrightarrow> map to_lower s = s"
proof (intro map_idI)
  fix c
  assume "name_ok s" "c \<in> set s"
  then have "c \<in> set valid_name_chars" by (auto simp: name_ok_def)
  then show "to_lower c = c" using valid_chars_lower by (simp add: list_all_iff)
qed

text \<open>All members of a document with their dotted names, valid or not.\<close>

fun all_members :: "string \<Rightarrow> ynode \<Rightarrow> (string \<times> ynode) list"
  and all_members_map :: "string \<Rightarrow> (string \<times> ynode) list \<Rightarrow> (string \<times> ynode) list" where
  "all_members prefix nd =
     (prefix, nd) # (case nd of YMap ms \<Rightarrow> all_members_map prefix ms | _ \<Rightarrow> [])"
| "all_members_map prefix [] = []"
| "all_members_map prefix ((k, n) # ms) =
     all_members (if prefix = '''' then k else prefix @ ''.'' @ k) n @ all_members_map prefix ms"

lemma all_members_prefix:
  "(p, n) \<in> set (all_members prefix nd) \<Longrightarrow> set prefix \<subseteq> set p"
  "(p, n) \<in> set (all_members_map prefix ms) \<Longrightarrow> set prefix \<subseteq> set p"
proof (induction prefix nd and prefix ms arbitrary: p n and p n rule: all_members_all_members_map.induct)
  case (1 prefix nd)
  then show ?case by (auto split: ynode.splits)
next
  case (3 prefix k n ms)
  then show ?case by (fastforce split: if_splits)
qed auto

lemma ListAllMember_filter:
  "ListAllMember prefix nd = filter (\<lambda>(k, n). name_ok k) (all_members prefix nd)"
  "ListAllMember_map prefix ms = filter (\<lambda>(k, n). name_ok k) (all_members_map prefix ms)"
proof (induction prefix nd and prefix ms rule: ListAllMember_ListAllMember_map.induct)
  case (1 prefix nd)
  show ?case
  proof (cases "name_ok prefix")
    case True
    with 1 show ?thesis by (auto simp: name_ok_iff split: ynode.splits)
  next
    case False
    then have "\<forall>p n. (p, n) \<in> set (all_members prefix nd) \<longrightarrow> \<not> name_ok p"
      using all_members_prefix(1) unfolding name_ok_def by blast
    then have "filter (\<lambda>(k, n). name_ok k) (all_members prefix nd) = []" by (auto simp: filter_empty_conv)
    with False show ?thesis by (simp add: name_ok_iff del: all_members.simps)
  qed
next
  case (3 prefix k n ms)
  then show ?case by simp
qed simp

section \<open>Loading a document\<close>

definition entry_text :: "(ynode \<Rightarrow> string) \<Rightarrow> ynode \<Rightarrow> string" where
  "entry_text emit nd = (case nd of YScalar t \<Rightarrow> t | _ \<Rightarrow> emit nd)"

lemma load_entry_ds:
  "snd (load_entry emit from_str eqv (key, nd) (log, ds)) =
     (if key = '''' then ds else (case map_of ds (map to_lower key) of None \<Rightarrow> ds
        | Some x \<Rightarrow> put_data (map to_lower key)
            (snd (snd (ConfigVar_fromString (from_str (cv_type x)) (eqv (cv_type x)) (entry_text emit nd) x))) ds))"
  by (auto simp: load_entry_def LookupBase_def entry_text_def Let_def split: option.splits prod.splits ynode.splits)

lemma ListAllMember_ok: "(k, n) \<in> set (ListAllMember p root) \<Longrightarrow> name_ok k"
  unfolding ListAllMember_filter by (simp del: all_members.simps)

declare ListAllMember.simps [simp del] all_members.simps [simp del]

lemma load_other:
  assumes "\<forall>(k, n)\<in>set es. name_ok k \<and> k \<noteq> key"
  shows "map_of (snd (fold (load_entry emit from_str eqv) es s)) key = map_of (snd s) key"
  using assms
proof (induction es arbitrary: s)
  case (Cons e es)
  obtain k n where e: "e = (k, n)" by (cases e)
  obtain log ds where s: "s = (log, ds)" by (cases s)
  have k: "map to_lower k = k" "k \<noteq> key" using Cons.prems e by (auto simp: name_ok_lower)
  have "map_of (snd (load_entry emit from_str eqv e s)) key = map_of (snd s) key"
    unfolding e s load_entry_ds using k by (auto simp: put_data_map_of split: option.splits)
  with Cons.IH [of "load_entry emit from_str eqv e s"] Cons.prems e show ?case by simp
qed simp

lemma load_one:
  assumes "ListAllMember '''' root = es1 @ (key, nd) # es2" and "key \<noteq> ''''"
    and "key \<notin> fst ` set es1" and "key \<notin> fst ` set es2" and "map_of ds key = Some x"
  shows "map_of (snd (LoadFromYaml emit from_str eqv root (log, ds))) key =
    Some (snd (snd (ConfigVar_fromString (from_str (cv_type x)) (eqv (cv_type x)) (entry_text emit nd) x)))"
proof -
  have ok: "name_ok k" if "(k, n) \<in> set (es1 @ (key, nd) # es2)" for k n
    by (rule ListAllMember_ok [of k n "''''" root]) (use that assms(1) in simp)
  let ?s1 = "fold (load_entry emit from_str eqv) es1 (log, ds)"
  obtain log1 ds1 where s1: "?s1 = (log1, ds1)" by (cases ?s1)
  have "\<forall>(k, n)\<in>set es1. name_ok k \<and> k \<noteq> key" using ok assms(3) by (force simp: image_iff)
  from load_other [OF this, of emit from_str eqv "(log, ds)"] s1 assms(5) have x: "map_of ds1 key = Some x" by simp
  have lower: "map to_lower key = key" by (rule name_ok_lower) (use ok in auto)
  have "\<forall>(k, n)\<in>set es2. name_ok k \<and> k \<noteq> key" using ok assms(4) by (force simp: image_iff)
  from load_other [OF this, of emit from_str eqv "load_entry emit from_str eqv (key, nd) (log1, ds1)"]
  show ?thesis
    using x assms(2) by (simp add: LoadFromYaml_def assms(1) s1 load_entry_ds lower put_data_map_of del: map_map)
qed

section \<open>Properties\<close>

definition demo_var :: "(nat, nat on_change_cb) config_var" where
  "demo_var = \<lparr>cv_name = ''a.b'', cv_description = '''', cv_type = ''int'', cv_val = 0,
     cv_cbs = [(1, Some (\<lambda>_ _. True)), (2, Some (\<lambda>old new. new \<noteq> 9))]\<rparr>"

text \<open>
  C28. Assignments to a variable reach each listener as a chain: for every sequence of \<open>setValue\<close> calls
  of one thread, with listeners that return, a listener is told each change once, the new value of one
  call is the old value of the next, the first old value is the value before and the last new value the
  value after.
\<close>

theorem setValue_notifies_in_chain:
  assumes "cv_ok x" and "\<forall>(j, cb)\<in>set (cv_cbs x). \<exists>f. cb = Some f \<and> (\<forall>a b. f a b)"
    and "k \<in> fst ` set (cv_cbs x)"
  shows "\<exists>ns x'. setValues eqv vs x = Inr (ns, x') \<and> chain (cv_val x) (cv_val x') (calls_of k ns)"
  using setValues_chain [OF assms] by blast

theorem setValue_notifies_in_chain_witness:
  "\<exists>ns x'. setValues (=) [3, 3, 5] (demo_var\<lparr>cv_cbs := [(1, Some (\<lambda>_ _. True))]\<rparr>) = Inr (ns, x') \<and>
    chain 0 (cv_val x') (calls_of 1 ns)"
  using setValue_notifies_in_chain [of "demo_var\<lparr>cv_cbs := [(1, Some (\<lambda>_ _. True))]\<rparr>" 1 "(=)" "[3, 3, 5]"]
  by (auto simp: demo_var_def cv_ok_def omap_ok_def)

text \<open>
  Two threads that assign at the same time break the chain: \<open>setValue\<close> compares and notifies under
  the read lock and assigns later under the write lock, so both listeners' calls may start from the same
  old value, and the first assignment is overwritten without notice.
\<close>

theorem concurrent_setValue_breaks_chain:
  assumes "cv_cbs x = [(k, Some f)]" and "\<forall>a b. f a b" and "cv_val x \<noteq> v1" and "cv_val x \<noteq> v2" and "v1 \<noteq> v2"
  shows "\<exists>ns1 ns2 p1 p2. setValue_read (=) v1 x = (ns1, Inr p1) \<and> setValue_read (=) v2 x = (ns2, Inr p2) \<and>
    cv_val (setValue_write p2 (setValue_write p1 x)) = v2 \<and>
    calls_of k (ns1 @ ns2) = [(cv_val x, v1), (cv_val x, v2)] \<and>
    \<not> chain (cv_val x) v2 (calls_of k (ns1 @ ns2))"
  using assms by (auto simp: setValue_read_def setValue_write_def calls_of_def)

theorem concurrent_setValue_breaks_chain_witness:
  "\<exists>ns1 ns2 p1 p2. setValue_read (=) 3 (demo_var\<lparr>cv_cbs := [(1, Some (\<lambda>_ _. True))]\<rparr>) = (ns1, Inr p1) \<and>
    setValue_read (=) 4 (demo_var\<lparr>cv_cbs := [(1, Some (\<lambda>_ _. True))]\<rparr>) = (ns2, Inr p2) \<and>
    \<not> chain 0 4 (calls_of 1 (ns1 @ ns2))"
  using concurrent_setValue_breaks_chain [of "demo_var\<lparr>cv_cbs := [(1, Some (\<lambda>_ _. True))]\<rparr>" 1 "\<lambda>_ _. True" 3 4]
  by (auto simp: demo_var_def)

text \<open>
  C29. A listener that throws vetoes the change: the value stays, \<open>fromString\<close> returns false, and the
  listeners with greater keys are not told, while those with smaller keys have been told of a change that
  does not happen.
\<close>

theorem throwing_listener_vetoes:
  assumes "cv_cbs x = before @ (k, Some f) # after" and "\<forall>(j, cb)\<in>set before. \<exists>g. cb = Some g \<and> g (cv_val x) v"
    and "\<not> f (cv_val x) v" and "from_str text = Inr v" and "\<not> eqv v (cv_val x)"
  shows "ConfigVar_fromString from_str eqv text x =
    (False, map (\<lambda>(j, cb). (j, cv_val x, v)) before @ [(k, cv_val x, v)], x)"
proof -
  have "notify (cv_val x) v (before @ (k, Some f) # after) =
      (map (\<lambda>(j, cb). (j, cv_val x, v)) before @ [(k, cv_val x, v)], False)"
    using assms(2,3) by (induction before) auto
  with assms(1,4,5) show ?thesis by (simp add: ConfigVar_fromString_def setValue_def)
qed

theorem throwing_listener_vetoes_witness:
  "ConfigVar_fromString (\<lambda>_. Inr 9) (=) ''9'' demo_var = (False, [(1, 0, 9), (2, 0, 9)], demo_var)"
  using throwing_listener_vetoes [of demo_var "[(1, Some (\<lambda>_ _. True))]" 2 "\<lambda>old new. new \<noteq> 9" "[]" 9
      "\<lambda>_. Inr 9" "''9''" "(=)"]
  by (simp add: demo_var_def)

text \<open>
  Listeners are kept by key: a listener added can be found under the key that was returned, keys of
  later additions leave it in place while they are different, and deleting it gives back the
  variable's earlier listeners.
\<close>

lemma listeners_by_key:
  assumes "cv_ok x" and "addListener cb c x = (k, c1, y)" and "addListener cb' c1 y = (k', c2, z)"
    and "map_of (cv_cbs x) k = None" and "k \<noteq> k'"
  shows "getListener k y = cb \<and> getListener k z = cb \<and> getListener k' z = cb' \<and>
    (\<forall>j. map_of (cv_cbs (delListener k y)) j = map_of (cv_cbs x) j)"
proof -
  have k: "c + 1 = k" and k': "c1 + 1 = k'"
    using assms(2,3) by (simp_all add: addListener_def Let_def)
  have ok: "cv_ok y" using cbs.ok_add [OF assms(1), of cb c] assms(2) by simp
  have 1: "map_of (cv_cbs y) k = Some cb"
    using cbs.find_add [OF assms(1), of cb c k] unfolding k assms(2) by simp
  have 2: "map_of (cv_cbs z) j = (if j = k' then Some cb' else map_of (cv_cbs y) j)" for j
    using cbs.find_add [OF ok, of cb' c1 j] unfolding k' assms(3) by simp
  have "map_of (cv_cbs (delListener k y)) j = map_of (cv_cbs x) j" for j
    using cbs.add_del_restores [OF assms(1), of c cb j] assms(4) unfolding k assms(2) by simp
  with 1 2 assms(5) show ?thesis by (simp add: getListener_def)
qed

text \<open>
  \<open>Lookup\<close> makes a variable once: with a name of allowed characters it returns a variable of the
  type asked for or, when the name is registered with another type, a null pointer and changes nothing;
  a second \<open>Lookup\<close> returns the same variable and keeps its value, whatever default it is given; other
  names are not affected.
\<close>

theorem lookup_registers_once:
  assumes "name_ok name"
  shows "\<exists>r ds'. Config_Lookup type name d desc ds = Inr (r, ds') \<and>
    (case r of
       None \<Rightarrow> ds' = ds \<and> (\<exists>x. LookupBase name ds = Some x \<and> cv_type x \<noteq> type)
     | Some x \<Rightarrow> cv_type x = type \<and> LookupBase name ds' = Some x \<and>
         Config_Lookup type name d' desc' ds' = Inr (Some x, ds') \<and>
         Config_Lookup_name type name ds' = Some x \<and>
         (LookupBase name ds = None \<longrightarrow> cv_val x = d \<and> cv_name x = name)) \<and>
    (\<forall>n. n \<noteq> name \<longrightarrow> LookupBase n ds' = LookupBase n ds)"
  using assms
  by (cases "map_of ds name")
    (auto simp: Config_Lookup_def LookupBase_def Config_Lookup_name_def name_ok_iff put_data_map_of ConfigVar_new_def
      name_ok_lower Let_def)

theorem lookup_registers_once_witness:
  "\<exists>r ds'. Config_Lookup ''int'' ''a.b'' (3 :: nat) '''' ([] :: (nat, nat on_change_cb) datas) = Inr (r, ds') \<and> r \<noteq> None"
  using lookup_registers_once [of "''a.b''" "''int''" 3 "''''" "[] :: (nat, nat on_change_cb) datas" 4 "''''"]
  by (auto simp: name_ok_def valid_name_chars_def LookupBase_def split: option.splits)

text \<open>
  The digit 9 is missing from the allowed characters, against the documentation
  (\<open>[0-9a-z_.]\<close>): a new variable whose name contains it is refused with an exception, and \<open>LoadFromYaml\<close>
  drops every part of a document under such a name.
\<close>

theorem nine_is_refused:
  assumes "CHR ''9'' \<in> set name"
  shows "(map_of ds name = None \<longrightarrow> Config_Lookup type name d desc ds = Inl (Thrown name)) \<and>
    ListAllMember name nd = []"
proof -
  have "CHR ''9'' \<notin> set valid_name_chars" by (simp add: valid_name_chars_def)
  with assms have "\<not> name_ok name" by (auto simp: name_ok_def)
  then show ?thesis by (simp add: Config_Lookup_def name_ok_iff ListAllMember.simps)
qed

theorem nine_is_refused_witness:
  "Config_Lookup ''int'' ''port9'' (3 :: nat) '''' ([] :: (nat, nat on_change_cb) datas) = Inl (Thrown ''port9'')"
  using nine_is_refused [of "''port9''" "[] :: (nat, nat on_change_cb) datas" "''int''" "3 :: nat" "''''" YNull] by simp

text \<open>
  C30. \<open>ListAllMember\<close> lists exactly the members of the document whose full dotted name has only allowed
  characters, in document order, each once per occurrence; such names are lower case, so that the
  conversion to lower case in \<open>LoadFromYaml\<close> never changes one, and names with capitals are dropped
  instead.
\<close>

theorem ListAllMember_spec:
  "ListAllMember '''' root = filter (\<lambda>(k, n). name_ok k) (all_members '''' root) \<and>
   (\<forall>(k, n)\<in>set (ListAllMember '''' root). map to_lower k = k)"
  using ListAllMember_filter(1) [of "''''" root] name_ok_lower [OF ListAllMember_ok] by blast

theorem ListAllMember_spec_witness:
  "ListAllMember '''' (YMap [(''a'', YMap [(''b'', YScalar ''1''), (''C'', YNull)])]) =
    [('''', YMap [(''a'', YMap [(''b'', YScalar ''1''), (''C'', YNull)])]),
     (''a'', YMap [(''b'', YScalar ''1''), (''C'', YNull)]), (''a.b'', YScalar ''1'')]"
  using ListAllMember_spec [of "YMap [(''a'', YMap [(''b'', YScalar ''1''), (''C'', YNull)])]"]
  by (simp add: name_ok_def valid_name_chars_def all_members.simps)

text \<open>
  \<open>LoadFromYaml\<close> gives a registered variable the value of the document's member of its name: when the
  name occurs once, the variable is what \<open>fromString\<close> makes of the member's text, whatever else the
  document holds; a variable whose name does not occur stays as it is.
\<close>

theorem LoadFromYaml_sets_variable:
  assumes "ListAllMember '''' root = es1 @ (key, nd) # es2" and "key \<noteq> ''''"
    and "key \<notin> fst ` set es1" and "key \<notin> fst ` set es2" and "LookupBase key ds = Some x"
    and "from_str (cv_type x) (entry_text emit nd) = Inr v"
    and "\<forall>(j, cb)\<in>set (cv_cbs x). \<exists>f. cb = Some f \<and> (\<forall>a b. f a b)"
    and "other \<notin> fst ` set (ListAllMember '''' root)"
  shows "LookupBase key (snd (LoadFromYaml emit from_str eqv root (log, ds))) =
      Some (if eqv (cv_type x) v (cv_val x) then x else x\<lparr>cv_val := v\<rparr>) \<and>
    LookupBase other (snd (LoadFromYaml emit from_str eqv root (log, ds))) = LookupBase other ds"
proof -
  have "snd (snd (ConfigVar_fromString (from_str (cv_type x)) (eqv (cv_type x)) (entry_text emit nd) x)) =
      (if eqv (cv_type x) v (cv_val x) then x else x\<lparr>cv_val := v\<rparr>)"
    using assms(6) setValue_returns [OF assms(7), of "eqv (cv_type x)" v] by (simp add: ConfigVar_fromString_def)
  moreover have "\<forall>(k, n)\<in>set (ListAllMember '''' root). name_ok k \<and> k \<noteq> other"
    using assms(8) ListAllMember_filter(1) [of "''''" root] by force
  from load_other [OF this, of emit from_str eqv "(log, ds)"]
  have "LookupBase other (snd (LoadFromYaml emit from_str eqv root (log, ds))) = LookupBase other ds"
    by (simp add: LoadFromYaml_def LookupBase_def)
  ultimately show ?thesis
    using load_one [OF assms(1-4), of ds x emit from_str eqv log] assms(5) by (simp add: LookupBase_def)
qed

theorem LoadFromYaml_sets_variable_witness:
  "LookupBase ''a'' (snd (LoadFromYaml (\<lambda>_. '''') (\<lambda>_ s. Inr (length s)) (\<lambda>_. (=))
     (YMap [(''a'', YScalar ''xyz'')]) ([], [(''a'', demo_var\<lparr>cv_cbs := []\<rparr>)]))) =
   Some (demo_var\<lparr>cv_cbs := [], cv_val := 3\<rparr>)"
proof -
  let ?root = "YMap [(''a'', YScalar ''xyz'')]"
  have l: "ListAllMember '''' ?root = [('''', ?root)] @ (''a'', YScalar ''xyz'') # []"
    by (simp add: ListAllMember.simps name_ok_iff name_ok_def valid_name_chars_def)
  have "''b'' \<notin> fst ` set (ListAllMember '''' ?root)" by (simp add: l)
  from LoadFromYaml_sets_variable [OF l, of "[(''a'', demo_var\<lparr>cv_cbs := []\<rparr>)]" "demo_var\<lparr>cv_cbs := []\<rparr>"
      "\<lambda>_ s. Inr (length s)" "\<lambda>_. ''''" 3 "''b''" "\<lambda>_. (=)" "[]", OF _ _ _ _ _ _ this]
  show ?thesis by (simp add: LookupBase_def entry_text_def demo_var_def)
qed

text \<open>
  What one pass over the files does to the recorded times: every file gets the time \<open>lstat\<close> reported.
\<close>

lemma conf_files_times:
  assumes "\<forall>f\<in>set fs. mtime f \<noteq> None"
  shows "\<exists>seen' s'. conf_files_loop emit from_str eqv mtime load_file force fs seen s = Inr (seen', s') \<and>
    (\<forall>f. seen' f = (if f \<in> set fs then the (mtime f) else seen f))"
  using assms
proof (induction fs arbitrary: seen s)
  case (Cons i fs)
  then obtain t where t: "mtime i = Some t" by auto
  let ?load = "\<lambda>s. case load_file i of None \<Rightarrow> s | Some root \<Rightarrow> LoadFromYaml emit from_str eqv root s"
  show ?case
  proof (cases "\<not> force \<and> seen i = t")
    case True
    from Cons.IH [of seen s] Cons.prems obtain seen' s' where
      "conf_files_loop emit from_str eqv mtime load_file force fs seen s = Inr (seen', s')"
      "\<forall>f. seen' f = (if f \<in> set fs then the (mtime f) else seen f)" by auto
    with True t show ?thesis by (intro exI [of _ seen'] exI [of _ s']) auto
  next
    case False
    from Cons.IH [of "seen(i := t)" "?load s"] obtain seen' s' where
      "conf_files_loop emit from_str eqv mtime load_file force fs (seen(i := t)) (?load s) = Inr (seen', s')"
      "\<forall>f. seen' f = (if f \<in> set fs then the (mtime f) else (seen(i := t)) f)"
      using Cons.prems by (metis list.set_intros(2))
    with False t show ?thesis by (intro exI [of _ seen'] exI [of _ s']) auto
  qed
qed simp

text \<open>The files that a pass loads: with \<open>force\<close> all of them, otherwise those with a new time.\<close>

lemma conf_files_due:
  assumes "\<forall>f\<in>set fs. mtime f \<noteq> None" and "force \<or> distinct fs"
  shows "\<exists>seen'. conf_files_loop emit from_str eqv mtime load_file force fs seen s =
    Inr (seen', fold (\<lambda>f s. case load_file f of None \<Rightarrow> s | Some root \<Rightarrow> LoadFromYaml emit from_str eqv root s)
      (filter (\<lambda>f. force \<or> seen f \<noteq> the (mtime f)) fs) s)"
  using assms
proof (induction fs arbitrary: seen s)
  case (Cons i fs)
  then obtain t where t: "mtime i = Some t" by auto
  have "filter (\<lambda>f. force \<or> (seen(i := t)) f \<noteq> the (mtime f)) fs = filter (\<lambda>f. force \<or> seen f \<noteq> the (mtime f)) fs"
    using Cons.prems(2) by (intro filter_cong) auto
  note IH = Cons.IH [of "seen(i := t)", unfolded this] Cons.IH [of seen s]
  have p: "\<forall>f\<in>set fs. mtime f \<noteq> None" "force \<or> distinct fs" using Cons.prems by auto
  show ?case
  proof (cases "\<not> force \<and> seen i = t")
    case True
    with IH(2) [OF p] t show ?thesis by simp
  next
    case False
    then have n: "(\<not> force \<and> seen i = t) = False" "(force \<or> seen i \<noteq> the (Some t)) = True" by auto
    show ?thesis using IH(1) [OF p] by (simp only: conf_files_loop.simps t option.case n if_False filter.simps if_True fold_simps)
  qed
qed simp

end

