(* ===== verification/ConfigCast.thy ===== *)
theory ConfigCast imports ConfigModel "HOL-Library.List_Lexorder" "HOL-Library.Char_ord" begin

text \<open>
  The \<open>LexicalCast\<close> templates of \<open>LioNet/config.h\<close>: containers from and to YAML text, given the
  conversions of their elements. yaml-cpp is an argument: \<open>yload\<close> is \<open>YAML::Load\<close>, \<open>yemit\<close> is what
  \<open>operator<<\<close> prints for a node, \<open>idx\<close> what it prints for \<open>node[i]\<close> when the node is a map. The
  conversions of the other types are \<open>boost::lexical_cast\<close>, also arguments.
\<close>

section \<open>Containers\<close>

text \<open>
  The elements of a sequence, the vectors and lists, are lists. A \<open>std::set\<close> is the list of its elements
  in the order of its comparison \<open>lt\<close>; \<open>insert\<close> keeps an equivalent element that is present. An unordered
  container is the list of its elements in the order of iteration, where \<open>place\<close>, the hash table, decides
  the place of a new one. \<open>insert\<close> of the maps keeps the entry that is present.
\<close>

fun oset_insert :: "('a \<Rightarrow> 'a \<Rightarrow> bool) \<Rightarrow> 'a \<Rightarrow> 'a list \<Rightarrow> 'a list" where
  "oset_insert lt x [] = [x]"
| "oset_insert lt x (y # ys) =
     (if lt x y then x # y # ys else if lt y x then y # oset_insert lt x ys else y # ys)"

definition uset_insert :: "('a \<Rightarrow> 'a list \<Rightarrow> 'a list) \<Rightarrow> 'a \<Rightarrow> 'a list \<Rightarrow> 'a list" where
  "uset_insert place x xs = (if x \<in> set xs then xs else place x xs)"

definition map_insert :: "string \<times> 'a \<Rightarrow> (string \<times> 'a) list \<Rightarrow> (string \<times> 'a) list" where
  "map_insert kv m = (if fst kv \<in> fst ` set m then m else omap_put (fst kv) (snd kv) m)"

definition umap_insert ::
    "(string \<times> 'a \<Rightarrow> (string \<times> 'a) list \<Rightarrow> (string \<times> 'a) list) \<Rightarrow> string \<times> 'a \<Rightarrow> (string \<times> 'a) list \<Rightarrow> (string \<times> 'a) list" where
  "umap_insert place kv m = (if fst kv \<in> fst ` set m then m else place kv m)"

section \<open>From text\<close>

text \<open>The texts \<open>ss << node[i]\<close> for \<open>i < node.size()\<close>.\<close>

definition elem_texts :: "(ynode \<Rightarrow> string) \<Rightarrow> ((string \<times> ynode) list \<Rightarrow> nat \<Rightarrow> string) \<Rightarrow> ynode \<Rightarrow> string list" where
  "elem_texts yemit idx nd = (case nd of
       YSeq ns \<Rightarrow> map yemit ns
     | YMap ms \<Rightarrow> map (idx ms) [0..<length ms]
     | _ \<Rightarrow> [])"

text \<open>The loops: each element converted and put into the container by \<open>ins\<close>.\<close>

fun read_elems :: "(string \<Rightarrow> 'a res) \<Rightarrow> ('a \<Rightarrow> 'c \<Rightarrow> 'c) \<Rightarrow> string list \<Rightarrow> 'c \<Rightarrow> 'c res" where
  "read_elems from_str ins [] vec = Inr vec"
| "read_elems from_str ins (t # ts) vec = res_bind (from_str t) (\<lambda>x. read_elems from_str ins ts (ins x vec))"

fun read_entries ::
    "(ynode \<Rightarrow> string) \<Rightarrow> (string \<Rightarrow> 'a res) \<Rightarrow> (string \<times> 'a \<Rightarrow> 'c \<Rightarrow> 'c) \<Rightarrow> (string \<times> ynode) list \<Rightarrow> 'c \<Rightarrow> 'c res" where
  "read_entries yemit from_str ins [] vec = Inr vec"
| "read_entries yemit from_str ins ((k, n) # ms) vec =
     res_bind (from_str (yemit n)) (\<lambda>x. read_entries yemit from_str ins ms (ins (k, x) vec))"

definition vector_from_str where
  "vector_from_str yload yemit idx from_str v =
     res_bind (yload v) (\<lambda>node. read_elems from_str (\<lambda>x vec. vec @ [x]) (elem_texts yemit idx node) [])"

definition list_from_str where
  "list_from_str yload yemit idx from_str v =
     res_bind (yload v) (\<lambda>node. read_elems from_str (\<lambda>x vec. vec @ [x]) (elem_texts yemit idx node) [])"

definition set_from_str where
  "set_from_str yload yemit idx lt from_str v =
     res_bind (yload v) (\<lambda>node. read_elems from_str (oset_insert lt) (elem_texts yemit idx node) [])"

definition unordered_set_from_str where
  "unordered_set_from_str yload yemit idx place from_str v =
     res_bind (yload v) (\<lambda>node. read_elems from_str (uset_insert place) (elem_texts yemit idx node) [])"

text \<open>
  The maps iterate over the node. The iterator of a sequence has no key: \<open>it->first.Scalar()\<close> throws.
\<close>

definition node_entries :: "ynode \<Rightarrow> (string \<times> ynode) list res" where
  "node_entries nd = (case nd of
       YMap ms \<Rightarrow> Inr ms
     | YSeq (n # ns) \<Rightarrow> Inl (Thrown ''InvalidNode'')
     | _ \<Rightarrow> Inr [])"

definition map_from_str where
  "map_from_str yload yemit from_str v =
     res_bind (yload v) (\<lambda>node. res_bind (node_entries node) (\<lambda>ms. read_entries yemit from_str map_insert ms []))"

definition unordered_map_from_str where
  "unordered_map_from_str yload yemit place from_str v =
     res_bind (yload v) (\<lambda>node. res_bind (node_entries node) (\<lambda>ms. read_entries yemit from_str (umap_insert place) ms []))"

section \<open>To text\<close>

fun push_nodes :: "(string \<Rightarrow> ynode res) \<Rightarrow> ('a \<Rightarrow> string res) \<Rightarrow> 'a list \<Rightarrow> ynode list \<Rightarrow> ynode list res" where
  "push_nodes yload to_str [] ns = Inr ns"
| "push_nodes yload to_str (x # xs) ns =
     res_bind (to_str x) (\<lambda>t. res_bind (yload t) (\<lambda>n. push_nodes yload to_str xs (ns @ [n])))"

text \<open>\<open>node[k] = n\<close>.\<close>

fun ymap_put :: "string \<Rightarrow> ynode \<Rightarrow> (string \<times> ynode) list \<Rightarrow> (string \<times> ynode) list" where
  "ymap_put k n [] = [(k, n)]"
| "ymap_put k n ((k', n') # ms) = (if k' = k then (k, n) # ms else (k', n') # ymap_put k n ms)"

fun put_nodes ::
    "(string \<Rightarrow> ynode res) \<Rightarrow> ('a \<Rightarrow> string res) \<Rightarrow> (string \<times> 'a) list \<Rightarrow> (string \<times> ynode) list \<Rightarrow> (string \<times> ynode) list res" where
  "put_nodes yload to_str [] ms = Inr ms"
| "put_nodes yload to_str ((k, x) # m) ms =
     res_bind (to_str x) (\<lambda>t. res_bind (yload t) (\<lambda>n. put_nodes yload to_str m (ymap_put k n ms)))"

definition vector_to_str where
  "vector_to_str yload yemit to_str v = res_bind (push_nodes yload to_str v []) (\<lambda>ns. Inr (yemit (YSeq ns)))"

definition list_to_str where
  "list_to_str yload yemit to_str v = res_bind (push_nodes yload to_str v []) (\<lambda>ns. Inr (yemit (YSeq ns)))"

definition set_to_str where
  "set_to_str yload yemit to_str v = res_bind (push_nodes yload to_str v []) (\<lambda>ns. Inr (yemit (YSeq ns)))"

definition unordered_set_to_str where
  "unordered_set_to_str yload yemit to_str v = res_bind (push_nodes yload to_str v []) (\<lambda>ns. Inr (yemit (YSeq ns)))"

definition map_to_str where
  "map_to_str yload yemit to_str v = res_bind (put_nodes yload to_str v []) (\<lambda>ms. Inr (yemit (YMap ms)))"

definition unordered_map_to_str where
  "unordered_map_to_str yload yemit to_str v = res_bind (put_nodes yload to_str v []) (\<lambda>ms. Inr (yemit (YMap ms)))"

section \<open>Round trips\<close>

text \<open>
  A value that survives the way an element takes: printed, loaded as a node, that node printed, and read.
  \<open>yaml_reads_back\<close> is what the templates need of yaml-cpp.
\<close>

definition yaml_reads_back :: "(string \<Rightarrow> ynode res) \<Rightarrow> (ynode \<Rightarrow> string) \<Rightarrow> bool" where
  "yaml_reads_back yload yemit \<longleftrightarrow> (\<forall>nd. yload (yemit nd) = Inr nd)"

definition castable where
  "castable yload yemit from_str to_str x \<longleftrightarrow>
     (\<exists>t n. to_str x = Inr t \<and> yload t = Inr n \<and> from_str (yemit n) = Inr x)"

text \<open>The nodes made of castable values.\<close>

lemma push_nodes_castable:
  assumes "list_all (castable yload yemit from_str to_str) xs"
  shows "\<exists>ns'. push_nodes yload to_str xs ns = Inr (ns @ ns') \<and>
    (\<forall>acc. read_elems from_str ins (map yemit ns') acc = Inr (fold ins xs acc))"
  using assms
proof (induction xs arbitrary: ns)
  case (Cons x xs)
  then obtain t n where x: "to_str x = Inr t" "yload t = Inr n" "from_str (yemit n) = Inr x"
    by (auto simp: castable_def)
  from Cons.IH [of "ns @ [n]"] Cons.prems obtain ns' where
    "push_nodes yload to_str xs (ns @ [n]) = Inr ((ns @ [n]) @ ns')"
    "\<forall>acc. read_elems from_str ins (map yemit ns') acc = Inr (fold ins xs acc)" by auto
  with x show ?case by (intro exI [of _ "n # ns'"]) simp
qed simp

lemma ymap_put_new: "k \<notin> fst ` set ms \<Longrightarrow> ymap_put k n ms = ms @ [(k, n)]"
  by (induction k n ms rule: ymap_put.induct) auto

lemma put_nodes_castable:
  assumes "list_all (\<lambda>(k, x). castable yload yemit from_str to_str x) m" and "distinct (map fst m)"
    and "fst ` set m \<inter> fst ` set ms = {}"
  shows "\<exists>ms'. put_nodes yload to_str m ms = Inr (ms @ ms') \<and>
    (\<forall>acc. read_entries yemit from_str ins ms' acc = Inr (fold ins m acc))"
  using assms
proof (induction m arbitrary: ms)
  case (Cons kx m)
  obtain k x where kx: "kx = (k, x)" by (cases kx)
  from Cons.prems kx obtain t n where x: "to_str x = Inr t" "yload t = Inr n" "from_str (yemit n) = Inr x"
    by (auto simp: castable_def)
  have new: "ymap_put k n ms = ms @ [(k, n)]" using Cons.prems(3) kx by (intro ymap_put_new) auto
  from Cons.IH [of "ms @ [(k, n)]"] Cons.prems kx obtain ms' where
    "put_nodes yload to_str m (ms @ [(k, n)]) = Inr ((ms @ [(k, n)]) @ ms')"
    "\<forall>acc. read_entries yemit from_str ins ms' acc = Inr (fold ins m acc)" by auto
  with x kx new show ?case by (intro exI [of _ "(k, n) # ms'"]) simp
qed simp

text \<open>The insertions, in the order of the elements, make the container again.\<close>

definition oset_ok :: "('a \<Rightarrow> 'a \<Rightarrow> bool) \<Rightarrow> 'a list \<Rightarrow> bool" where
  "oset_ok lt xs \<longleftrightarrow> sorted_wrt (\<lambda>a b. lt a b \<and> \<not> lt b a) xs"

lemma oset_insert_last: "\<forall>a\<in>set xs. lt a x \<and> \<not> lt x a \<Longrightarrow> oset_insert lt x xs = xs @ [x]"
  by (induction xs) auto

lemma fold_append: "fold (\<lambda>x vec. vec @ [x]) xs acc = acc @ xs"
  by (induction xs arbitrary: acc) auto

lemma fold_oset_insert: "oset_ok lt (acc @ xs) \<Longrightarrow> fold (oset_insert lt) xs acc = acc @ xs"
proof (induction xs arbitrary: acc)
  case (Cons x xs)
  then have "oset_insert lt x acc = acc @ [x]"
    by (intro oset_insert_last) (auto simp: oset_ok_def sorted_wrt_append)
  with Cons show ?case by simp
qed simp

lemma omap_put_last: "\<forall>a\<in>fst ` set m. a < k \<Longrightarrow> omap_put k v m = m @ [(k, v)]"
  by (induction k v m rule: omap_put.induct) (auto simp: less_imp_not_less)

lemma fold_map_insert: "omap_ok (acc @ m) \<Longrightarrow> fold map_insert m acc = acc @ m"
proof (induction m arbitrary: acc)
  case (Cons kv m)
  have lt: "\<forall>a\<in>fst ` set acc. a < fst kv" using Cons.prems by (auto simp: omap_ok_def sorted_wrt_append)
  have "map_insert kv acc = acc @ [kv]"
    using lt omap_put_last [OF lt, of "snd kv"] by (auto simp: map_insert_def)
  with Cons show ?case by simp
qed simp

definition places_one :: "('a \<Rightarrow> 'a list \<Rightarrow> 'a list) \<Rightarrow> bool" where
  "places_one place \<longleftrightarrow> (\<forall>x xs. mset (place x xs) = add_mset x (mset xs))"

lemma places_one_set: "places_one place \<Longrightarrow> set (place x xs) = insert x (set xs)"
  unfolding places_one_def by (metis set_mset_add_mset_insert set_mset_mset)

lemma fold_uset_insert:
  assumes "places_one place" and "distinct xs" and "set xs \<inter> set acc = {}"
  shows "mset (fold (uset_insert place) xs acc) = mset acc + mset xs"
  using assms(2,3)
proof (induction xs arbitrary: acc)
  case (Cons x xs)
  then have "mset (fold (uset_insert place) xs (place x acc)) = mset (place x acc) + mset xs"
    using places_one_set [OF assms(1), of x acc] by (intro Cons.IH) auto
  moreover have "uset_insert place x acc = place x acc" using Cons.prems by (simp add: uset_insert_def)
  moreover have "mset (place x acc) = add_mset x (mset acc)" using assms(1) by (simp add: places_one_def)
  ultimately show ?case by simp
qed simp

lemma fold_umap_insert:
  assumes "places_one place" and "distinct (map fst m)" and "fst ` set m \<inter> fst ` set acc = {}"
  shows "mset (fold (umap_insert place) m acc) = mset acc + mset m"
  using assms(2,3)
proof (induction m arbitrary: acc)
  case (Cons kv m)
  then have "mset (fold (umap_insert place) m (place kv acc)) = mset (place kv acc) + mset m"
    using places_one_set [OF assms(1), of kv acc] by (intro Cons.IH) auto
  moreover have "umap_insert place kv acc = place kv acc" using Cons.prems by (simp add: umap_insert_def)
  moreover have "mset (place kv acc) = add_mset kv (mset acc)" using assms(1) unfolding places_one_def by blast
  ultimately show ?case by simp
qed simp

lemma omap_ok_distinct: "omap_ok m \<Longrightarrow> distinct (map fst m)"
  unfolding omap_ok_def by (simp add: strict_sorted_iff)

text \<open>\<open>toString\<close> and then \<open>fromString\<close>.\<close>

definition roundtrips :: "(string \<Rightarrow> 'a res) \<Rightarrow> ('a \<Rightarrow> string res) \<Rightarrow> 'a \<Rightarrow> bool" where
  "roundtrips from_str to_str x \<longleftrightarrow> (\<exists>t. to_str x = Inr t \<and> from_str t = Inr x)"

lemma seq_roundtrip:
  assumes "yaml_reads_back yload yemit" and "list_all (castable yload yemit from_str to_str) xs"
    and "fold ins xs [] = ys"
  shows "\<exists>t. res_bind (push_nodes yload to_str xs []) (\<lambda>ns. Inr (yemit (YSeq ns))) = Inr t \<and>
    (\<exists>n. yload t = Inr n \<and> yemit n = t) \<and>
    res_bind (yload t) (\<lambda>node. read_elems from_str ins (elem_texts yemit idx node) []) = Inr ys"
proof -
  from push_nodes_castable [OF assms(2), of "[]" ins] obtain ns where
    "push_nodes yload to_str xs [] = Inr ns" "\<forall>acc. read_elems from_str ins (map yemit ns) acc = Inr (fold ins xs acc)"
    by auto
  with assms(1,3) show ?thesis by (auto simp: yaml_reads_back_def elem_texts_def)
qed

lemma map_roundtrip:
  assumes "yaml_reads_back yload yemit" and "list_all (\<lambda>(k, x). castable yload yemit from_str to_str x) m"
    and "distinct (map fst m)" and "fold ins m [] = m'"
  shows "\<exists>t. res_bind (put_nodes yload to_str m []) (\<lambda>ms. Inr (yemit (YMap ms))) = Inr t \<and>
    (\<exists>n. yload t = Inr n \<and> yemit n = t) \<and>
    res_bind (yload t) (\<lambda>node. res_bind (node_entries node) (\<lambda>ms. read_entries yemit from_str ins ms [])) = Inr m'"
proof -
  from put_nodes_castable [OF assms(2,3), of "[]" ins] obtain ms where
    "put_nodes yload to_str m [] = Inr ms" "\<forall>acc. read_entries yemit from_str ins ms acc = Inr (fold ins m acc)"
    by auto
  with assms(1,4) show ?thesis by (auto simp: yaml_reads_back_def node_entries_def)
qed

text \<open>Both: a value of a variable, and an element of another container.\<close>

definition casts where
  "casts yload yemit from_str to_str x \<longleftrightarrow>
     roundtrips from_str to_str x \<and> castable yload yemit from_str to_str x"

lemma casts_I:
  assumes "\<exists>t. to_str x = Inr t \<and> (\<exists>n. yload t = Inr n \<and> yemit n = t) \<and> from_str t = Inr x"
  shows "casts yload yemit from_str to_str x"
  using assms by (auto simp: casts_def castable_def roundtrips_def)

lemma vector_casts:
  assumes "yaml_reads_back yload yemit" and "list_all (castable yload yemit from_str to_str) xs"
  shows "casts yload yemit (vector_from_str yload yemit idx from_str) (vector_to_str yload yemit to_str) xs"
    and "casts yload yemit (list_from_str yload yemit idx from_str) (list_to_str yload yemit to_str) xs"
  unfolding vector_from_str_def vector_to_str_def list_from_str_def list_to_str_def
  by (rule casts_I, rule seq_roundtrip [OF assms], simp add: fold_append)+

lemma set_casts:
  assumes "yaml_reads_back yload yemit" and "list_all (castable yload yemit from_str to_str) xs" and "oset_ok lt xs"
  shows "casts yload yemit (set_from_str yload yemit idx lt from_str) (set_to_str yload yemit to_str) xs"
  unfolding set_from_str_def set_to_str_def
  by (rule casts_I, rule seq_roundtrip [OF assms(1,2)]) (use fold_oset_insert [of lt "[]" xs] assms(3) in simp)

lemma map_casts:
  assumes "yaml_reads_back yload yemit" and "list_all (\<lambda>(k, x). castable yload yemit from_str to_str x) m"
    and "omap_ok m"
  shows "casts yload yemit (map_from_str yload yemit from_str) (map_to_str yload yemit to_str) m"
  unfolding map_from_str_def map_to_str_def
  by (rule casts_I, rule map_roundtrip [OF assms(1,2) omap_ok_distinct [OF assms(3)]])
    (use fold_map_insert [of "[]" m] assms(3) in simp)

section \<open>An instance of the YAML parameters\<close>

text \<open>
  A prefix code for nodes and its reader, which meet \<open>yaml_reads_back\<close>: they show that what the round
  trips assume of yaml-cpp can hold, and the examples below run on them.
\<close>

definition enc_str :: "string \<Rightarrow> string" where
  "enc_str s = concat (map (\<lambda>c. [CHR ''c'', c]) s) @ ''.''"

fun dec_str :: "string \<Rightarrow> (string \<times> string) option" where
  "dec_str [] = None"
| "dec_str (x # r) =
     (if x = CHR ''.'' then Some ([], r)
      else (case r of [] \<Rightarrow> None | c # r' \<Rightarrow> map_option (\<lambda>(s, q). (c # s, q)) (dec_str r')))"

fun ex_emit :: "ynode \<Rightarrow> string" where
  "ex_emit YNull = ''N''"
| "ex_emit (YScalar s) = CHR ''S'' # enc_str s"
| "ex_emit (YSeq ns) = CHR ''['' # concat (map (\<lambda>n. CHR ''i'' # ex_emit n) ns) @ '']''"
| "ex_emit (YMap ms) = CHR ''{'' # concat (map (\<lambda>(k, n). CHR ''k'' # enc_str k @ ex_emit n) ms) @ ''}''"

fun dec_node :: "nat \<Rightarrow> string \<Rightarrow> (ynode \<times> string) option"
  and dec_seq :: "nat \<Rightarrow> string \<Rightarrow> (ynode list \<times> string) option"
  and dec_map :: "nat \<Rightarrow> string \<Rightarrow> ((string \<times> ynode) list \<times> string) option" where
  "dec_node (Suc f) (c # r) =
     (if c = CHR ''N'' then Some (YNull, r)
      else if c = CHR ''S'' then map_option (\<lambda>(s, q). (YScalar s, q)) (dec_str r)
      else if c = CHR ''['' then map_option (\<lambda>(ns, q). (YSeq ns, q)) (dec_seq f r)
      else if c = CHR ''{'' then map_option (\<lambda>(ms, q). (YMap ms, q)) (dec_map f r)
      else None)"
| "dec_node _ _ = None"
| "dec_seq (Suc f) (c # r) =
     (if c = CHR ''i'' then
        (case dec_node f r of None \<Rightarrow> None | Some (n, q) \<Rightarrow> map_option (\<lambda>(ns, q). (n # ns, q)) (dec_seq f q))
      else Some ([], r))"
| "dec_seq _ _ = None"
| "dec_map (Suc f) (c # r) =
     (if c = CHR ''k'' then
        (case dec_str r of None \<Rightarrow> None | Some (k, q) \<Rightarrow>
          (case dec_node f q of None \<Rightarrow> None | Some (n, q) \<Rightarrow> map_option (\<lambda>(ms, q). ((k, n) # ms, q)) (dec_map f q)))
      else Some ([], r))"
| "dec_map _ _ = None"

definition ex_load :: "string \<Rightarrow> ynode res" where
  "ex_load t = (case dec_node (length t) t of
       Some (n, []) \<Rightarrow> Inr n | _ \<Rightarrow> Inl (Thrown ''ParserException''))"

lemma dec_enc_str: "dec_str (enc_str s @ q) = Some (s, q)"
  by (induction s) (simp_all add: enc_str_def)

lemma dec_seq_emit:
  assumes "\<And>n f q. n \<in> set ns \<Longrightarrow> length (ex_emit n) \<le> f \<Longrightarrow> dec_node f (ex_emit n @ q) = Some (n, q)"
    and "length (concat (map (\<lambda>n. CHR ''i'' # ex_emit n) ns)) < f"
  shows "dec_seq f (concat (map (\<lambda>n. CHR ''i'' # ex_emit n) ns) @ CHR '']'' # q) = Some (ns, q)"
  using assms
proof (induction ns arbitrary: f)
  case Nil
  then obtain g where "f = Suc g" by (cases f) auto
  then show ?case by simp
next
  case (Cons n ns)
  then obtain g where f: "f = Suc g" by (cases f) auto
  have "dec_seq g (concat (map (\<lambda>n. CHR ''i'' # ex_emit n) ns) @ CHR '']'' # q) = Some (ns, q)"
    using Cons.prems f by (intro Cons.IH) auto
  moreover have "dec_node g (ex_emit n @ s) = Some (n, s)" for s using Cons.prems f by simp
  ultimately show ?case using f by simp
qed

lemma dec_map_emit:
  assumes "\<And>k n f q. (k, n) \<in> set ms \<Longrightarrow> length (ex_emit n) \<le> f \<Longrightarrow> dec_node f (ex_emit n @ q) = Some (n, q)"
    and "length (concat (map (\<lambda>(k, n). CHR ''k'' # enc_str k @ ex_emit n) ms)) < f"
  shows "dec_map f (concat (map (\<lambda>(k, n). CHR ''k'' # enc_str k @ ex_emit n) ms) @ CHR ''}'' # q) = Some (ms, q)"
  using assms
proof (induction ms arbitrary: f)
  case Nil
  then obtain g where "f = Suc g" by (cases f) auto
  then show ?case by simp
next
  case (Cons kn ms)
  then obtain g where f: "f = Suc g" by (cases f) auto
  obtain k n where kn: "kn = (k, n)" by (cases kn)
  have "dec_map g (concat (map (\<lambda>(k, n). CHR ''k'' # enc_str k @ ex_emit n) ms) @ CHR ''}'' # q) = Some (ms, q)"
    using Cons.prems f kn by (intro Cons.IH) auto
  moreover have "dec_node g (ex_emit n @ s) = Some (n, s)" for s
    using Cons.prems(2) f kn by (intro Cons.prems(1) [of k]) auto
  ultimately show ?case using f kn by (simp add: dec_enc_str)
qed

lemma dec_emit: "length (ex_emit n) \<le> f \<Longrightarrow> dec_node f (ex_emit n @ q) = Some (n, q)"
proof (induction n arbitrary: f q)
  case YNull
  then show ?case by (cases f) auto
next
  case (YScalar s)
  then show ?case by (cases f) (auto simp: dec_enc_str)
next
  case (YSeq ns)
  then obtain g where f: "f = Suc g" by (cases f) auto
  with YSeq dec_seq_emit [of ns g q] show ?case by simp
next
  case (YMap ms)
  then obtain g where f: "f = Suc g" by (cases f) auto
  have "dec_node h (ex_emit n @ p) = Some (n, p)" if "(k, n) \<in> set ms" "length (ex_emit n) \<le> h" for k n h p
    using YMap(1) [of "(k, n)" n h p] that by simp
  with f YMap(2) dec_map_emit [of ms g q] show ?case by simp
qed

lemma ex_reads_back: "yaml_reads_back ex_load ex_emit"
  using dec_emit [of _ _ "[]"] by (simp add: yaml_reads_back_def ex_load_def)

definition ex_from :: "string \<Rightarrow> string res" where
  "ex_from t = res_bind (ex_load t) (\<lambda>n. case n of YScalar s \<Rightarrow> Inr s | _ \<Rightarrow> Inl (Thrown ''bad_conversion''))"

definition ex_to :: "string \<Rightarrow> string res" where
  "ex_to s = Inr (ex_emit (YScalar s))"

lemma ex_castable: "castable ex_load ex_emit ex_from ex_to s"
proof -
  have "ex_load (ex_emit n) = Inr n" for n using ex_reads_back by (simp add: yaml_reads_back_def)
  then show ?thesis by (simp add: castable_def ex_from_def ex_to_def del: ex_emit.simps)
qed

section \<open>Properties\<close>

text \<open>
  C32. The conversions of the ordered containers are inverse to each other and compose: with a YAML library
  that reads back the nodes it prints, when each element survives printing and reading as an element,
  then so does the \<open>vector\<close>, the \<open>list\<close>, the \<open>set\<close> (of elements in its order) and the \<open>map\<close> of them, both
  as the value of a variable and, again, as an element of another container.
\<close>

theorem containers_roundtrip:
  assumes "yaml_reads_back yload yemit"
    and "list_all (castable yload yemit from_str to_str) xs"
    and "list_all (\<lambda>(k, x). castable yload yemit from_str to_str x) m" and "omap_ok m"
  shows "casts yload yemit (vector_from_str yload yemit idx from_str) (vector_to_str yload yemit to_str) xs \<and>
    casts yload yemit (list_from_str yload yemit idx from_str) (list_to_str yload yemit to_str) xs \<and>
    (oset_ok lt xs \<longrightarrow>
       casts yload yemit (set_from_str yload yemit idx lt from_str) (set_to_str yload yemit to_str) xs) \<and>
    casts yload yemit (map_from_str yload yemit from_str) (map_to_str yload yemit to_str) m"
  using vector_casts [OF assms(1,2)] set_casts [OF assms(1,2)] map_casts [OF assms(1,3,4)] by blast

theorem containers_roundtrip_witness:
  "casts ex_load ex_emit (vector_from_str ex_load ex_emit (\<lambda>_ _. '''') ex_from) (vector_to_str ex_load ex_emit ex_to)
     [''a'', '''', ''b''] \<and>
   casts ex_load ex_emit (set_from_str ex_load ex_emit (\<lambda>_ _. '''') (<) ex_from) (set_to_str ex_load ex_emit ex_to)
     [''a'', ''b''] \<and>
   casts ex_load ex_emit (map_from_str ex_load ex_emit ex_from) (map_to_str ex_load ex_emit ex_to)
     [(''a'', ''1''), (''b'', ''2'')]"
proof -
  have m: "omap_ok [(''a'', ''1''), (''b'', ''2'')]" by (simp add: omap_ok_def less_char_def)
  have s: "oset_ok (<) [''a'', ''b'']" by (simp add: oset_ok_def less_char_def)
  have el: "list_all (castable ex_load ex_emit ex_from ex_to) xs"
    "list_all (\<lambda>(k, x). castable ex_load ex_emit ex_from ex_to x) kvs" for xs and kvs :: "(string \<times> string) list"
    by (auto simp: list_all_iff ex_castable)
  show ?thesis
    using containers_roundtrip [OF ex_reads_back el m, where idx = "\<lambda>_ _. ''''" and lt = "(<)" and xs = "[''a'', '''', ''b'']"]
      containers_roundtrip [OF ex_reads_back el m, where idx = "\<lambda>_ _. ''''" and lt = "(<)" and xs = "[''a'', ''b'']"] s
    by blast
qed

text \<open>
  The unordered containers come back with the same elements, each as often as before, wherever the hash
  tables place them.
\<close>

theorem unordered_roundtrip:
  assumes "yaml_reads_back yload yemit" and "places_one place" and "places_one place'"
    and "list_all (castable yload yemit from_str to_str) xs" and "distinct xs"
    and "list_all (\<lambda>(k, x). castable yload yemit from_str to_str x) m" and "distinct (map fst m)"
  shows "(\<exists>t ys. unordered_set_to_str yload yemit to_str xs = Inr t \<and>
      unordered_set_from_str yload yemit idx place from_str t = Inr ys \<and> mset ys = mset xs) \<and>
    (\<exists>t m'. unordered_map_to_str yload yemit to_str m = Inr t \<and>
      unordered_map_from_str yload yemit place' from_str t = Inr m' \<and> mset m' = mset m)"
proof -
  from seq_roundtrip [OF assms(1,4) refl, of "uset_insert place" idx] fold_uset_insert [OF assms(2,5), of "[]"]
  have "\<exists>t ys. unordered_set_to_str yload yemit to_str xs = Inr t \<and>
      unordered_set_from_str yload yemit idx place from_str t = Inr ys \<and> mset ys = mset xs"
    unfolding unordered_set_from_str_def unordered_set_to_str_def by auto
  moreover from map_roundtrip [OF assms(1,6,7) refl, of "umap_insert place'"] fold_umap_insert [OF assms(3,7), of "[]"]
  have "\<exists>t m'. unordered_map_to_str yload yemit to_str m = Inr t \<and>
      unordered_map_from_str yload yemit place' from_str t = Inr m' \<and> mset m' = mset m"
    unfolding unordered_map_from_str_def unordered_map_to_str_def by auto
  ultimately show ?thesis ..
qed

theorem unordered_roundtrip_witness:
  "\<exists>t ys. unordered_set_to_str ex_load ex_emit ex_to [''b'', ''a''] = Inr t \<and>
    unordered_set_from_str ex_load ex_emit (\<lambda>_ _. '''') Cons ex_from t = Inr ys \<and> mset ys = mset [''b'', ''a'']"
proof -
  have el: "list_all (castable ex_load ex_emit ex_from ex_to) xs"
    "list_all (\<lambda>(k, x). castable ex_load ex_emit ex_from ex_to x) kvs" for xs and kvs :: "(string \<times> string) list"
    by (auto simp: list_all_iff ex_castable)
  have p: "places_one Cons" by (simp add: places_one_def)
  show ?thesis
    using unordered_roundtrip [OF ex_reads_back p p el(1) _ el(2), of "[''b'', ''a'']" "[]" "\<lambda>_ _. ''''"] by simp
qed

text \<open>
  An element that is not castable: the empty text in a \<open>vector<string>\<close>. yaml-cpp loads it as a null
  node, which it prints as \<open>~\<close>, and the vector comes back with \<open>~\<close> in its place.
\<close>

lemma empty_text_becomes_tilde:
  assumes "yaml_reads_back yload yemit" and "yload '''' = Inr YNull" and "yemit YNull = ''~''"
  shows "\<exists>t. vector_to_str yload yemit Inr [''''] = Inr t \<and>
    vector_from_str yload yemit idx Inr t = Inr [''~'']"
  using assms by (simp add: vector_to_str_def vector_from_str_def yaml_reads_back_def elem_texts_def)

end

