(* ===== verification/EnvModel.thy ===== *)
theory EnvModel imports ConfigModel begin

text \<open>
  \<open>LioNet/env.h\<close> and \<open>env.cc\<close>: the command line and the help texts of the process, its environment
  variables, and the paths made absolute with them. What \<open>readlink\<close> returns and the environment of the
  process are arguments.
\<close>

section \<open>State and operations\<close>

record env =
  m_args :: "string \<rightharpoonup> string"
  m_helps :: "(string \<times> string) list"
  m_program :: string
  m_exe :: string
  m_cwd :: string

definition Env_add :: "string \<Rightarrow> string \<Rightarrow> env \<Rightarrow> env" where
  "Env_add key val e = e\<lparr>m_args := (m_args e)(key \<mapsto> val)\<rparr>"

definition Env_has :: "string \<Rightarrow> env \<Rightarrow> bool" where
  "Env_has key e = (m_args e key \<noteq> None)"

definition Env_del :: "string \<Rightarrow> env \<Rightarrow> env" where
  "Env_del key e = e\<lparr>m_args := (m_args e)(key := None)\<rparr>"

definition Env_get :: "string \<Rightarrow> string \<Rightarrow> env \<Rightarrow> string" where
  "Env_get key default_value e = (case m_args e key of Some v \<Rightarrow> v | None \<Rightarrow> default_value)"

text \<open>The loop of \<open>init\<close> over the arguments; the key is \<open>now_key\<close>.\<close>

definition flush_key :: "string option \<Rightarrow> env \<Rightarrow> env" where
  "flush_key now_key e = (case now_key of None \<Rightarrow> e | Some k \<Rightarrow> Env_add k '''' e)"

fun init_args :: "string list \<Rightarrow> string option \<Rightarrow> env \<Rightarrow> bool \<times> env" where
  "init_args [] now_key e = (True, flush_key now_key e)"
| "init_args (arg # argv) now_key e =
     (if arg \<noteq> [] \<and> hd arg = CHR ''-'' then
        if length arg > 1 then init_args argv (Some (tl arg)) (flush_key now_key e)
        else init_args argv now_key e
      else (case now_key of
              Some k \<Rightarrow> init_args argv None (Env_add k arg e)
            | None \<Rightarrow> (False, e)))"

text \<open>
  \<open>init\<close>: \<open>readlink\<close> fails (\<open>None\<close>) or writes at most 1024 bytes of the target without a terminator into
  a zeroed buffer of that size, which is then read up to its terminator.
\<close>

definition Env_init :: "string option \<Rightarrow> string list \<Rightarrow> env \<Rightarrow> (bool \<times> env) res" where
  "Env_init link argv e = (case link of
       None \<Rightarrow> Inr (False, e)
     | Some target \<Rightarrow>
         if 1024 \<le> length target then Inl OutOfBounds
         else (let cwd = (case str_rfind CHR ''/'' target of Some pos \<Rightarrow> substr target 0 pos | None \<Rightarrow> target) @ ''/'';
                   e1 = e\<lparr>m_exe := target, m_cwd := cwd\<rparr>
               in case argv of
                    [] \<Rightarrow> Inl NullDeref
                  | program # args \<Rightarrow> Inr (init_args args None (e1\<lparr>m_program := program\<rparr>))))"

text \<open>
  \<open>removeHelp\<close>: the loop over the iterator, as a position; incrementing the end iterator is undefined.
\<close>

definition erase_at :: "nat \<Rightarrow> 'a list \<Rightarrow> 'a list" where
  "erase_at i xs = take i xs @ drop (Suc i) xs"

function removeHelp_loop :: "string \<Rightarrow> nat \<Rightarrow> (string \<times> string) list \<Rightarrow> (string \<times> string) list res" where
  "removeHelp_loop key it hs =
     (if length hs \<le> it then Inr hs
      else if fst (hs ! it) = key then
        (let hs' = erase_at it hs
         in if it = length hs' then Inl OutOfBounds else removeHelp_loop key (Suc it) hs')
      else if Suc it = length hs then Inl OutOfBounds
      else removeHelp_loop key (Suc (Suc it)) hs)"
  by pat_completeness auto
termination
  by (relation "measure (\<lambda>(key, it, hs). length hs - it)") (auto simp: erase_at_def)

definition removeHelp :: "string \<Rightarrow> env \<Rightarrow> env res" where
  "removeHelp key e = res_bind (removeHelp_loop key 0 (m_helps e)) (\<lambda>hs. Inr (e\<lparr>m_helps := hs\<rparr>))"

definition addHelp :: "string \<Rightarrow> string \<Rightarrow> env \<Rightarrow> env res" where
  "addHelp key desc e =
     res_bind (removeHelp key e) (\<lambda>e1. Inr (e1\<lparr>m_helps := m_helps e1 @ [(key, desc)]\<rparr>))"

definition printHelp :: "env \<Rightarrow> string" where
  "printHelp e = ''Usage: '' @ m_program e @ '' [options]'' @ [CHR 0x0A] @
     concat (map (\<lambda>(k, d). ''   - '' @ k @ '' : '' @ d @ [CHR 0x0A]) (m_helps e))"

text \<open>
  The environment of the process: \<open>setenv\<close> refuses an empty name and a name with \<open>=\<close>; both functions are
  given C strings, up to the first NUL.
\<close>

definition setEnv :: "string \<Rightarrow> string \<Rightarrow> (string \<rightharpoonup> string) \<Rightarrow> bool \<times> (string \<rightharpoonup> string)" where
  "setEnv key val environ =
     (let k = c_str key
      in if k = '''' \<or> CHR ''='' \<in> set k then (False, environ) else (True, environ(k \<mapsto> c_str val)))"

definition getEnv :: "string \<Rightarrow> string \<Rightarrow> (string \<rightharpoonup> string) \<Rightarrow> string" where
  "getEnv key default_value environ = (case environ (c_str key) of None \<Rightarrow> default_value | Some v \<Rightarrow> v)"

definition getAbsolutePath :: "string \<Rightarrow> env \<Rightarrow> string" where
  "getAbsolutePath path e =
     (if path = [] then ''/'' else if hd path = CHR ''/'' then path else m_cwd e @ path)"

text \<open>
  \<open>getAbsoluteWorkPath\<close>: \<open>g_server_work_path\<close> is looked up at the first call that gets that far and kept
  (\<open>None\<close> before it; a null pointer is \<open>Some None\<close>). A variable found stays registered under its name, so
  that the pointer is the name; \<open>as_string\<close> reads the value of a variable of type \<open>std::string\<close>.
\<close>

definition work_path_ptr :: "('v, 'cb) datas \<Rightarrow> string option option \<Rightarrow> string option" where
  "work_path_ptr ds static = (case static of
       Some p \<Rightarrow> p
     | None \<Rightarrow> (case Config_Lookup_name ''std::string'' ''server.work_path'' ds of
           None \<Rightarrow> None | Some x \<Rightarrow> Some ''server.work_path''))"

definition getAbsoluteWorkPath ::
    "('v \<Rightarrow> string) \<Rightarrow> string \<Rightarrow> ('v, 'cb) datas \<Rightarrow> string option option \<Rightarrow> (string \<times> string option option) res" where
  "getAbsoluteWorkPath as_string path ds static =
     (if path = [] then Inr (''/'', static)
      else if hd path = CHR ''/'' then Inr (path, static)
      else (let p = work_path_ptr ds static
            in case p of
                 None \<Rightarrow> Inl NullDeref
               | Some n \<Rightarrow> (case LookupBase n ds of
                     None \<Rightarrow> Inl NullDeref
                   | Some x \<Rightarrow> Inr (as_string (getValue x) @ ''/'' @ path, Some p))))"

definition getConfigPath :: "env \<Rightarrow> string" where
  "getConfigPath e = getAbsolutePath (Env_get ''c'' ''conf'' e) e"

declare removeHelp_loop.simps [simp del]

section \<open>Arguments\<close>

text \<open>
  The option map as the contract of a finite map, for the clients that add, delete and look up options.
\<close>

locale option_map =
  fixes add :: "string \<Rightarrow> string \<Rightarrow> 's \<Rightarrow> 's" and del :: "string \<Rightarrow> 's \<Rightarrow> 's"
    and has :: "string \<Rightarrow> 's \<Rightarrow> bool" and get :: "string \<Rightarrow> string \<Rightarrow> 's \<Rightarrow> string"
  assumes has_add: "has j (add k v s) \<longleftrightarrow> j = k \<or> has j s"
    and get_add: "get j d (add k v s) = (if j = k then v else get j d s)"
    and has_del: "has j (del k s) \<longleftrightarrow> j \<noteq> k \<and> has j s"
    and get_del: "get j d (del k s) = (if j = k then d else get j d s)"
    and get_default: "\<not> has j s \<Longrightarrow> get j d s = d"
begin

definition adds :: "(string \<times> string) list \<Rightarrow> 's \<Rightarrow> 's" where
  "adds kvs s = fold (\<lambda>(k, v). add k v) kvs s"

lemma has_adds: "has j (adds kvs s) \<longleftrightarrow> j \<in> fst ` set kvs \<or> has j s"
  unfolding adds_def by (induction kvs arbitrary: s) (auto simp: has_add)

lemma get_adds: "get j d (adds kvs s) = (case map_of (rev kvs) j of Some v \<Rightarrow> v | None \<Rightarrow> get j d s)"
  unfolding adds_def
proof (induction kvs arbitrary: s)
  case (Cons kv kvs)
  then show ?case by (cases kv) (auto simp: get_add map_add_def split: option.splits)
qed simp

end

interpretation args: option_map Env_add Env_del Env_has Env_get
  by unfold_locales
    (auto simp: Env_add_def Env_del_def Env_has_def Env_get_def split: option.splits)

text \<open>A command line as options with and without a value, and how it is written.\<close>

fun render_args :: "(string \<times> string option) list \<Rightarrow> string list" where
  "render_args [] = []"
| "render_args ((k, v) # ps) = (''-'' @ k) # (case v of None \<Rightarrow> [] | Some s \<Rightarrow> [s]) @ render_args ps"

definition opt_ok :: "string \<times> string option \<Rightarrow> bool" where
  "opt_ok p \<longleftrightarrow> fst p \<noteq> '''' \<and> (case snd p of None \<Rightarrow> True | Some s \<Rightarrow> s = '''' \<or> hd s \<noteq> CHR ''-'')"

definition opt_value :: "string option \<Rightarrow> string" where
  "opt_value v = (case v of None \<Rightarrow> '''' | Some s \<Rightarrow> s)"

lemma init_args_render:
  assumes "list_all opt_ok ps"
  shows "init_args (render_args ps) key e =
    (True, args.adds (map (\<lambda>(k, v). (k, opt_value v)) ps) (flush_key key e))"
  using assms
proof (induction ps arbitrary: key e)
  case Nil
  then show ?case by (simp add: args.adds_def)
next
  case (Cons p ps)
  obtain k v where p: "p = (k, v)" by (cases p)
  show ?case
  proof (cases v)
    case None
    with Cons p show ?thesis by (auto simp: opt_ok_def args.adds_def opt_value_def flush_key_def)
  next
    case (Some s)
    with Cons p show ?thesis by (auto simp: opt_ok_def args.adds_def opt_value_def flush_key_def)
  qed
qed

section \<open>Help texts\<close>

text \<open>What the loop does to a list of even length: of each two entries only the first is looked at.\<close>

fun remove_firsts :: "string \<Rightarrow> (string \<times> string) list \<Rightarrow> (string \<times> string) list" where
  "remove_firsts key (a # b # hs) = (if fst a = key then [b] else [a, b]) @ remove_firsts key hs"
| "remove_firsts key hs = hs"

lemma removeHelp_loop_spec:
  "removeHelp_loop key (length pre) (pre @ hs) =
    (if even (length hs) then Inr (pre @ remove_firsts key hs) else Inl OutOfBounds)"
proof (induction hs arbitrary: pre rule: induct_list012)
  case 1
  then show ?case by (simp add: removeHelp_loop.simps)
next
  case (2 a)
  then show ?case by (simp add: removeHelp_loop.simps [of key "length pre" "pre @ [a]"] erase_at_def)
next
  case (3 a b hs)
  show ?case
  proof (cases "fst a = key")
    case True
    have "removeHelp_loop key (length pre) (pre @ a # b # hs) = removeHelp_loop key (length (pre @ [b])) ((pre @ [b]) @ hs)"
      using True by (simp add: removeHelp_loop.simps [of key "length pre" "pre @ a # b # hs"] erase_at_def)
    with 3(1) [of "pre @ [b]"] True show ?thesis by simp
  next
    case False
    have "removeHelp_loop key (length pre) (pre @ a # b # hs) =
        removeHelp_loop key (length (pre @ [a, b])) ((pre @ [a, b]) @ hs)"
      using False by (simp add: removeHelp_loop.simps [of key "length pre" "pre @ a # b # hs"])
    with 3(1) [of "pre @ [a, b]"] False show ?thesis by simp
  qed
qed

section \<open>Properties\<close>

definition env_new :: env where
  "env_new = \<lparr>m_args = Map.empty, m_helps = [], m_program = '''', m_exe = '''', m_cwd = ''''\<rparr>"

text \<open>
  C38. \<open>init\<close> reads a command line back: for options written as \<open>-key\<close> or \<open>-key value\<close>, with non-empty
  keys and values that do not start with a dash, it returns true, and afterwards exactly the given keys
  (and those set before) are present, each with its last value, the empty text where no value was given.
\<close>

theorem env_init_roundtrip:
  assumes "list_all opt_ok ps" and "length target < 1024"
  shows "\<exists>e'. Env_init (Some target) (prog # render_args ps) e = Inr (True, e') \<and>
    m_program e' = prog \<and> m_exe e' = target \<and>
    (\<forall>k. Env_has k e' \<longleftrightarrow> k \<in> fst ` set ps \<or> Env_has k e) \<and>
    (\<forall>k d. Env_get k d e' = (case map_of (rev ps) k of Some v \<Rightarrow> opt_value v | None \<Rightarrow> Env_get k d e))"
proof -
  define cwd where
    "cwd = (case str_rfind CHR ''/'' target of Some pos \<Rightarrow> substr target 0 pos | None \<Rightarrow> target) @ ''/''"
  define e1 where "e1 = e\<lparr>m_exe := target, m_cwd := cwd, m_program := prog\<rparr>"
  let ?kvs = "map (\<lambda>(k, v). (k, opt_value v)) ps"
  have same: "Env_has k e1 = Env_has k e" "Env_get k d e1 = Env_get k d e"
    "m_program e1 = prog" "m_exe e1 = target" for k d
    by (simp_all add: e1_def Env_has_def Env_get_def)
  have keep: "m_program (args.adds kvs f) = m_program f \<and> m_exe (args.adds kvs f) = m_exe f" for kvs f
    unfolding args.adds_def by (induction kvs arbitrary: f) (auto simp: Env_add_def)
  have "Env_init (Some target) (prog # render_args ps) e = Inr (True, args.adds ?kvs e1)"
    using assms by (simp add: Env_init_def Let_def init_args_render flush_key_def e1_def cwd_def)
  moreover have "fst ` set ?kvs = fst ` set ps" by (force simp: image_iff)
  moreover have "map_of (rev ?kvs) k = map_option opt_value (map_of (rev ps) k)" for k
    by (simp add: rev_map map_of_map)
  ultimately show ?thesis using keep [of ?kvs e1]
    by (auto simp: args.has_adds args.get_adds same option.case_eq_if)
qed

theorem env_init_roundtrip_witness:
  "\<exists>e'. Env_init (Some ''/opt/app/run'') [''run'', ''-d'', ''-c'', ''conf.d''] env_new = Inr (True, e') \<and>
    Env_has ''d'' e' \<and> Env_get ''c'' ''conf'' e' = ''conf.d'' \<and> \<not> Env_has ''x'' e'"
proof -
  let ?ps = "[(''d'', None), (''c'', Some ''conf.d'')]"
  have ok: "list_all opt_ok ?ps" "length ''/opt/app/run'' < 1024" by (simp_all add: opt_ok_def)
  from env_init_roundtrip [OF this, of "''run''" env_new] obtain e' where
    e': "Env_init (Some ''/opt/app/run'') (''run'' # render_args ?ps) env_new = Inr (True, e')"
      "\<forall>k. Env_has k e' \<longleftrightarrow> k \<in> fst ` set ?ps \<or> Env_has k env_new"
      "\<forall>k d. Env_get k d e' = (case map_of (rev ?ps) k of Some v \<Rightarrow> opt_value v | None \<Rightarrow> Env_get k d env_new)"
    by blast
  have "\<not> Env_has k env_new" for k by (simp add: Env_has_def env_new_def)
  then have "Env_has ''d'' e'" "\<not> Env_has ''x'' e'" by (simp_all add: e'(2))
  moreover have "Env_get ''c'' ''conf'' e' = ''conf.d''" by (simp add: e'(3) opt_value_def)
  ultimately show ?thesis using e'(1) by simp
qed

text \<open>
  \<open>removeHelp\<close> advances its iterator twice per round: it runs past the end (undefined behaviour)
  exactly when the number of help texts is odd, and otherwise looks at every second text only. So the
  first \<open>addHelp\<close> works and the second one is undefined.
\<close>

theorem removeHelp_skips:
  "removeHelp key e =
     (if even (length (m_helps e)) then Inr (e\<lparr>m_helps := remove_firsts key (m_helps e)\<rparr>) else Inl OutOfBounds) \<and>
   (m_helps e = [] \<longrightarrow> (\<exists>e'. addHelp key desc e = Inr e' \<and> m_helps e' = [(key, desc)] \<and>
      (\<forall>key' desc'. addHelp key' desc' e' = Inl OutOfBounds)))"
  using removeHelp_loop_spec [of _ "[]"]
  by (auto simp: removeHelp_def addHelp_def)

theorem removeHelp_skips_witness:
  "\<exists>e'. addHelp ''d'' ''daemon'' env_new = Inr e' \<and> addHelp ''c'' ''config'' e' = Inl OutOfBounds"
  using removeHelp_skips [of "''d''" env_new "''daemon''"] by (auto simp: env_new_def)

end
