(* ===== verification/LogDefine.thy ===== *)
theory LogDefine imports LogCore ConfigCast begin

text \<open>
  The configuration of the loggers as data: \<open>LogAppenderDefine\<close> and \<open>LogDefine\<close> of \<open>LioNet/log.cc\<close>,
  their conversions from and to YAML text, and the \<open>toYamlString\<close> functions of appenders, loggers and the
  manager, which print the state of the objects in the same form. The lines the conversion from text
  prints about a bad document are left out.
\<close>

section \<open>Definitions of loggers\<close>

record log_appender_define =
  lad_type :: int
  lad_level :: log_level
  lad_formatter :: string
  lad_file :: string

record log_define =
  ld_name :: string
  ld_level :: log_level
  ld_formatter :: string
  ld_appenders :: "log_appender_define list"

definition LogAppenderDefine_new :: log_appender_define where
  "LogAppenderDefine_new = \<lparr>lad_type = 0, lad_level = UNKNOW, lad_formatter = '''', lad_file = ''''\<rparr>"

definition LogAppenderDefine_eq :: "log_appender_define \<Rightarrow> log_appender_define \<Rightarrow> bool" where
  "LogAppenderDefine_eq a oth \<longleftrightarrow> lad_type a = lad_type oth \<and> lad_level a = lad_level oth \<and>
     lad_formatter a = lad_formatter oth \<and> lad_file a = lad_file oth"

text \<open>\<open>operator==\<close> compares the appenders of the left side with themselves.\<close>

definition LogDefine_eq :: "log_define \<Rightarrow> log_define \<Rightarrow> bool" where
  "LogDefine_eq d oth \<longleftrightarrow> ld_name d = ld_name oth \<and> ld_level d = ld_level oth \<and>
     ld_formatter d = ld_formatter oth \<and> list_all2 LogAppenderDefine_eq (ld_appenders d) (ld_appenders d)"

definition LogDefine_lt :: "log_define \<Rightarrow> log_define \<Rightarrow> bool" where
  "LogDefine_lt d oth \<longleftrightarrow> ld_name d < ld_name oth"

definition LogDefine_isValid :: "log_define \<Rightarrow> bool" where
  "LogDefine_isValid d \<longleftrightarrow> ld_name d \<noteq> ''''"

section \<open>From YAML\<close>

text \<open>
  \<open>node[key]\<close> on a node that may be changed: a scalar throws, null and sequences become maps, in which the
  key is undefined (\<open>None\<close>). \<open>yas\<close> is \<open>as<std::string>()\<close>; on an undefined node it throws. \<open>mnode\<close> is
  \<open>node[i]\<close> on a map.
\<close>

definition yget :: "string \<Rightarrow> ynode \<Rightarrow> ynode option res" where
  "yget k nd = (case nd of
       YMap ms \<Rightarrow> Inr (map_of ms k)
     | YScalar s \<Rightarrow> Inl (Thrown ''BadSubscript'')
     | _ \<Rightarrow> Inr None)"

definition yas_opt :: "(ynode \<Rightarrow> string res) \<Rightarrow> ynode option \<Rightarrow> string res" where
  "yas_opt yas n = (case n of None \<Rightarrow> Inl (Thrown ''InvalidNode'') | Some nd \<Rightarrow> yas nd)"

text \<open>A text that is optional: \<open>d\<close> where it is not defined.\<close>

definition yas_default :: "(ynode \<Rightarrow> string res) \<Rightarrow> string \<Rightarrow> ynode option \<Rightarrow> string res" where
  "yas_default yas d n = (case n of None \<Rightarrow> Inr d | Some nd \<Rightarrow> yas nd)"

definition sub_nodes :: "((string \<times> ynode) list \<Rightarrow> nat \<Rightarrow> ynode) \<Rightarrow> ynode \<Rightarrow> ynode list" where
  "sub_nodes mnode nd = (case nd of
       YSeq ns \<Rightarrow> ns | YMap ms \<Rightarrow> map (mnode ms) [0..<length ms] | _ \<Rightarrow> [])"

text \<open>One round of the loop over the appenders: \<open>None\<close> for \<open>continue\<close>.\<close>

definition appender_define_of :: "(ynode \<Rightarrow> string res) \<Rightarrow> ynode \<Rightarrow> log_appender_define option res" where
  "appender_define_of yas a =
     res_bind (yget ''type'' a) (\<lambda>t. case t of
       None \<Rightarrow> Inr None
     | Some tn \<Rightarrow> res_bind (yas tn) (\<lambda>type.
         if type = ''FileLogAppender'' then
           res_bind (yget ''file'' a) (\<lambda>f. case f of
             None \<Rightarrow> Inr None
           | Some fn \<Rightarrow> res_bind (yas fn) (\<lambda>file.
               res_bind (yget ''formatter'' a) (\<lambda>fm. res_bind (yas_default yas '''' fm) (\<lambda>fmt.
                 Inr (Some (LogAppenderDefine_new\<lparr>lad_type := 1, lad_file := file, lad_formatter := fmt\<rparr>))))))
         else if type = ''StdoutLogAppender'' then
           res_bind (yget ''formatter'' a) (\<lambda>fm. res_bind (yas_default yas '''' fm) (\<lambda>fmt.
             Inr (Some (LogAppenderDefine_new\<lparr>lad_type := 2, lad_formatter := fmt\<rparr>))))
         else Inr None))"

fun appender_defines :: "(ynode \<Rightarrow> string res) \<Rightarrow> ynode list \<Rightarrow> log_appender_define list \<Rightarrow> log_appender_define list res" where
  "appender_defines yas [] lads = Inr lads"
| "appender_defines yas (a # as) lads =
     res_bind (appender_define_of yas a) (\<lambda>r.
       appender_defines yas as (case r of None \<Rightarrow> lads | Some lad \<Rightarrow> lads @ [lad]))"

definition LogDefine_from_str ::
    "(string \<Rightarrow> ynode res) \<Rightarrow> (ynode \<Rightarrow> string res) \<Rightarrow> ((string \<times> ynode) list \<Rightarrow> nat \<Rightarrow> ynode) \<Rightarrow> string \<Rightarrow> log_define res" where
  "LogDefine_from_str yload yas mnode v =
     res_bind (yload v) (\<lambda>node.
     res_bind (yget ''name'' node) (\<lambda>nm. res_bind (yas_opt yas nm) (\<lambda>name.
     res_bind (yget ''level'' node) (\<lambda>lv. res_bind (yas_default yas '''' lv) (\<lambda>level.
     res_bind (yget ''formatter'' node) (\<lambda>fm. res_bind (yas_default yas '''' fm) (\<lambda>fmt.
     res_bind (yget ''appenders'' node) (\<lambda>ap.
     res_bind (case ap of None \<Rightarrow> Inr [] | Some an \<Rightarrow> appender_defines yas (sub_nodes mnode an) []) (\<lambda>lads.
       Inr \<lparr>ld_name = name, ld_level = LogLevel_FromString level, ld_formatter = fmt,
            ld_appenders = lads\<rparr>)))))))))"

section \<open>To YAML\<close>

text \<open>A node that gets keys one after the other, with the optional ones left out.\<close>

definition opt_key :: "bool \<Rightarrow> string \<Rightarrow> ynode \<Rightarrow> (string \<times> ynode) list" where
  "opt_key b k n = (if b then [(k, n)] else [])"

definition map_node :: "(string \<times> ynode) list \<Rightarrow> ynode" where
  "map_node ms = (if ms = [] then YNull else YMap ms)"

definition appender_define_node :: "log_appender_define \<Rightarrow> ynode" where
  "appender_define_node a = map_node (
     (if lad_type a = 1 then [(''type'', YScalar ''FileLogAppender''), (''file'', YScalar (lad_file a))]
      else if lad_type a = 2 then [(''type'', YScalar ''StdoutLogAppender'')] else []) @
     opt_key (lad_level a \<noteq> UNKNOW) ''level'' (YScalar (LogLevel_ToString (lad_level a))) @
     opt_key (lad_formatter a \<noteq> '''') ''formatter'' (YScalar (lad_formatter a)))"

definition LogDefine_node :: "log_define \<Rightarrow> ynode" where
  "LogDefine_node i = YMap (
     [(''name'', YScalar (ld_name i))] @
     opt_key (ld_level i \<noteq> UNKNOW) ''level'' (YScalar (LogLevel_ToString (ld_level i))) @
     opt_key (ld_formatter i \<noteq> '''') ''formatter'' (YScalar (ld_formatter i)) @
     opt_key (ld_appenders i \<noteq> []) ''appenders'' (YSeq (map appender_define_node (ld_appenders i))))"

definition LogDefine_to_str :: "(ynode \<Rightarrow> string) \<Rightarrow> log_define \<Rightarrow> string res" where
  "LogDefine_to_str yemit i = Inr (yemit (LogDefine_node i))"

text \<open>\<open>toYamlString\<close> of the appenders: the formatter only when it is the appender's own.\<close>

definition appender_node :: "appender \<Rightarrow> ynode" where
  "appender_node x = YMap (
     (case a_kind x of
        FileLogAppender \<Rightarrow> [(''type'', YScalar ''FileLogAppender''), (''file'', YScalar (a_filename x))]
      | StdoutLogAppender \<Rightarrow> [(''type'', YScalar ''StdoutLogAppender'')]) @
     opt_key (a_level x \<noteq> UNKNOW) ''level'' (YScalar (LogLevel_ToString (a_level x))) @
     (case a_formatter x of
        Some f \<Rightarrow> opt_key (a_hasFormatter x) ''formatter'' (YScalar (getPattern f)) | None \<Rightarrow> []))"

definition LogAppender_toYamlString :: "(ynode \<Rightarrow> string) \<Rightarrow> appender \<Rightarrow> string" where
  "LogAppender_toYamlString yemit x = yemit (appender_node x)"

fun appender_nodes ::
    "(string \<Rightarrow> ynode res) \<Rightarrow> (ynode \<Rightarrow> string) \<Rightarrow> nat list \<Rightarrow> log_sys \<Rightarrow> ynode list \<Rightarrow> ynode list res" where
  "appender_nodes yload yemit [] s ns = Inr ns"
| "appender_nodes yload yemit (a # as) s ns =
     res_bind (get_appender a s) (\<lambda>x. res_bind (yload (LogAppender_toYamlString yemit x)) (\<lambda>n.
       appender_nodes yload yemit as s (ns @ [n])))"

definition Logger_toYamlString :: "(string \<Rightarrow> ynode res) \<Rightarrow> (ynode \<Rightarrow> string) \<Rightarrow> nat \<Rightarrow> log_sys \<Rightarrow> string res" where
  "Logger_toYamlString yload yemit l s =
     res_bind (get_logger l s) (\<lambda>x. res_bind (appender_nodes yload yemit (l_appenders x) s []) (\<lambda>ns.
       Inr (yemit (YMap (
         [(''name'', YScalar (l_name x))] @
         opt_key (l_level x \<noteq> UNKNOW) ''level'' (YScalar (LogLevel_ToString (l_level x))) @
         (case l_formatter x of Some f \<Rightarrow> [(''formatter'', YScalar (getPattern f))] | None \<Rightarrow> []) @
         opt_key (ns \<noteq> []) ''appenders'' (YSeq ns))))))"

fun logger_nodes ::
    "(string \<Rightarrow> ynode res) \<Rightarrow> (ynode \<Rightarrow> string) \<Rightarrow> (string \<times> nat) list \<Rightarrow> log_sys \<Rightarrow> ynode list \<Rightarrow> ynode list res" where
  "logger_nodes yload yemit [] s ns = Inr ns"
| "logger_nodes yload yemit ((name, l) # ls) s ns =
     res_bind (Logger_toYamlString yload yemit l s) (\<lambda>t. res_bind (yload t) (\<lambda>n.
       logger_nodes yload yemit ls s (ns @ [n])))"

definition LoggerManager_toYamlString :: "(string \<Rightarrow> ynode res) \<Rightarrow> (ynode \<Rightarrow> string) \<Rightarrow> log_sys \<Rightarrow> string res" where
  "LoggerManager_toYamlString yload yemit s =
     res_bind (logger_nodes yload yemit (m_loggers s) s []) (\<lambda>ns.
       Inr (yemit (if ns = [] then YNull else YSeq ns)))"

section \<open>Reading back\<close>

text \<open>What yaml-cpp promises of \<open>as<std::string>()\<close>.\<close>

definition yas_scalar :: "(ynode \<Rightarrow> string res) \<Rightarrow> bool" where
  "yas_scalar yas \<longleftrightarrow> (\<forall>s. yas (YScalar s) = Inr s)"

lemma yget_YMap [simp]: "yget k (YMap ms) = Inr (map_of ms k)"
  by (simp add: yget_def)

lemma opt_key_simps [simp]: "opt_key True k n = [(k, n)]" "opt_key False k n = []"
  by (simp_all add: opt_key_def)

lemma map_of_opt_key [simp]:
  "map_of (opt_key b k n) j = (if b \<and> j = k then Some n else None)"
  "(m ++ map_of (opt_key b k n)) j = (if b \<and> j = k then Some n else m j)"
  by (simp_all add: opt_key_def)

text \<open>What is left of an appender's definition: its level is not read, and a console appender has no file.\<close>

definition plain_appender :: "log_appender_define \<Rightarrow> log_appender_define" where
  "plain_appender a = a\<lparr>lad_level := UNKNOW, lad_file := (if lad_type a = 1 then lad_file a else '''')\<rparr>"

definition plain_define :: "log_define \<Rightarrow> log_define" where
  "plain_define d = d\<lparr>ld_appenders := map plain_appender (ld_appenders d)\<rparr>"

definition types_ok :: "log_define \<Rightarrow> bool" where
  "types_ok d \<longleftrightarrow> (\<forall>a\<in>set (ld_appenders d). lad_type a = 1 \<or> lad_type a = 2)"

lemma appender_define_of_node:
  assumes "yas_scalar yas" and "lad_type a = 1 \<or> lad_type a = 2"
  shows "appender_define_of yas (appender_define_node a) = Inr (Some (plain_appender a))"
  using assms
  by (cases a) (auto simp: appender_define_of_def appender_define_node_def map_node_def yas_scalar_def
      yas_default_def plain_appender_def LogAppenderDefine_new_def)

lemma appender_defines_nodes:
  assumes "yas_scalar yas" and "\<forall>a\<in>set as. lad_type a = 1 \<or> lad_type a = 2"
  shows "appender_defines yas (map appender_define_node as) lads = Inr (lads @ map plain_appender as)"
  using assms(2) by (induction as arbitrary: lads) (simp_all add: appender_define_of_node [OF assms(1)])

text \<open>
  Reading a node with the keys of a logger's definition; \<open>lads\<close> are what the nodes of its appenders
  are read as.
\<close>

lemma read_define_node:
  assumes "yaml_reads_back yload yemit" and "yas_scalar yas"
    and "appender_defines yas ns [] = Inr lads" and "\<not> b \<longrightarrow> fm = ''''"
  shows "LogDefine_from_str yload yas mnode (yemit (YMap (
       [(''name'', YScalar nm)] @
       opt_key (lv \<noteq> UNKNOW) ''level'' (YScalar (LogLevel_ToString lv)) @
       opt_key b ''formatter'' (YScalar fm) @
       opt_key (ns \<noteq> []) ''appenders'' (YSeq ns)))) =
     Inr \<lparr>ld_name = nm, ld_level = lv, ld_formatter = fm, ld_appenders = lads\<rparr>"
proof -
  have "LogLevel_FromString '''' = UNKNOW" by (simp add: LogLevel_FromString_def)
  moreover have "lads = []" if "ns = []" using that assms(3) by simp
  moreover have "LogLevel_FromString (LogLevel_ToString lv) = lv" using log_level_roundtrip by blast
  ultimately show ?thesis
    using assms by (auto simp: LogDefine_from_str_def yaml_reads_back_def yas_scalar_def yas_opt_def yas_default_def
      sub_nodes_def)
qed

lemma LogDefine_reads_back:
  assumes "yaml_reads_back yload yemit" and "yas_scalar yas" and "types_ok d"
  shows "LogDefine_from_str yload yas mnode (yemit (LogDefine_node d)) = Inr (plain_define d)"
proof -
  have "appender_defines yas (map appender_define_node (ld_appenders d)) [] = Inr (map plain_appender (ld_appenders d))"
    using appender_defines_nodes [OF assms(2), of "ld_appenders d" "[]"] assms(3) by (simp add: types_ok_def)
  from read_define_node [OF assms(1,2) this, of "ld_formatter d \<noteq> ''''" "ld_formatter d" mnode "ld_name d" "ld_level d"]
  show ?thesis
    by (cases d) (simp add: LogDefine_node_def plain_define_def)
qed

lemma LogDefine_castable:
  assumes "yaml_reads_back yload yemit" and "yas_scalar yas" and "types_ok d" and "plain_define d = d"
  shows "castable yload yemit (LogDefine_from_str yload yas mnode) (LogDefine_to_str yemit) d"
  using assms LogDefine_reads_back [OF assms(1-3), of mnode]
  by (auto simp: castable_def LogDefine_to_str_def yaml_reads_back_def)

text \<open>The definition that describes an object as it is.\<close>

definition define_of_appender :: "appender \<Rightarrow> log_appender_define" where
  "define_of_appender x =
     \<lparr>lad_type = (case a_kind x of FileLogAppender \<Rightarrow> 1 | StdoutLogAppender \<Rightarrow> 2), lad_level = a_level x,
      lad_formatter = (case a_formatter x of Some f \<Rightarrow> if a_hasFormatter x then getPattern f else '''' | None \<Rightarrow> ''''),
      lad_file = a_filename x\<rparr>"

definition define_of_logger :: "log_sys \<Rightarrow> logger \<Rightarrow> log_define" where
  "define_of_logger s x =
     \<lparr>ld_name = l_name x, ld_level = l_level x,
      ld_formatter = (case l_formatter x of Some f \<Rightarrow> getPattern f | None \<Rightarrow> ''''),
      ld_appenders = map (\<lambda>a. define_of_appender (the (appenders s a))) (l_appenders x)\<rparr>"

lemma appender_define_of_appender:
  assumes "yas_scalar yas"
  shows "appender_define_of yas (appender_node x) = Inr (Some (plain_appender (define_of_appender x)))"
  using assms
  by (cases "a_kind x"; cases "a_formatter x")
    (auto simp: appender_define_of_def appender_node_def yas_scalar_def yas_default_def plain_appender_def
      LogAppenderDefine_new_def define_of_appender_def)

lemma appender_nodes_of:
  assumes "yaml_reads_back yload yemit" and "\<forall>a\<in>set as. appenders s a \<noteq> None"
  shows "appender_nodes yload yemit as s ns = Inr (ns @ map (\<lambda>a. appender_node (the (appenders s a))) as)"
  using assms(2)
  by (induction as arbitrary: ns)
    (use assms(1) in \<open>auto simp: get_appender_def LogAppender_toYamlString_def yaml_reads_back_def\<close>)

lemma appender_defines_of:
  assumes "yas_scalar yas"
  shows "appender_defines yas (map (\<lambda>a. appender_node (the (appenders s a))) as) lads =
    Inr (lads @ map (\<lambda>a. plain_appender (define_of_appender (the (appenders s a)))) as)"
  by (induction as arbitrary: lads) (simp_all add: appender_define_of_appender [OF assms])

lemma Logger_reads_back:
  assumes "yaml_reads_back yload yemit" and "yas_scalar yas" and "loggers s l = Some x"
    and "\<forall>a\<in>set (l_appenders x). appenders s a \<noteq> None"
  shows "\<exists>t. Logger_toYamlString yload yemit l s = Inr t \<and>
    LogDefine_from_str yload yas mnode t = Inr (plain_define (define_of_logger s x))"
proof -
  let ?ns = "map (\<lambda>a. appender_node (the (appenders s a))) (l_appenders x)"
  let ?lads = "map (\<lambda>a. plain_appender (define_of_appender (the (appenders s a)))) (l_appenders x)"
  let ?fm = "case l_formatter x of Some f \<Rightarrow> getPattern f | None \<Rightarrow> ''''"
  have "appender_defines yas ?ns [] = Inr ?lads" using appender_defines_of [OF assms(2), of s _ "[]"] by simp
  note r = read_define_node [OF assms(1,2) this, of "l_formatter x \<noteq> None" ?fm mnode "l_name x" "l_level x"]

  have "plain_define (define_of_logger s x) =
      \<lparr>ld_name = l_name x, ld_level = l_level x, ld_formatter = ?fm, ld_appenders = ?lads\<rparr>"
    by (simp add: plain_define_def define_of_logger_def)
  moreover have "?fm = ''''" if "l_formatter x = None" using that by simp
  ultimately show ?thesis
    using r assms(3) appender_nodes_of [OF assms(1,4), of "[]"]
    by (cases "l_formatter x") (auto simp: Logger_toYamlString_def get_logger_def)
qed

text \<open>
  The text of a logger and the text of its definition: they agree when no pattern in use is empty (an empty one is
  printed for the object and left out for the definition).
\<close>

definition patterns_given :: "log_sys \<Rightarrow> logger \<Rightarrow> bool" where
  "patterns_given s x \<longleftrightarrow> (case l_formatter x of None \<Rightarrow> True | Some f \<Rightarrow> getPattern f \<noteq> '''') \<and>
     (\<forall>a\<in>set (l_appenders x). case appenders s a of None \<Rightarrow> True
        | Some y \<Rightarrow> (case a_formatter y of None \<Rightarrow> True | Some f \<Rightarrow> getPattern f \<noteq> ''''))"

lemma getPattern_new: "getPattern (LogFormatter_new p) = p"
  by (simp add: getPattern_def LogFormatter_new_def split: prod.splits)

lemma appender_node_define:
  assumes "case a_formatter x of None \<Rightarrow> True | Some f \<Rightarrow> getPattern f \<noteq> ''''"
  shows "appender_node x = appender_define_node (define_of_appender x)"
  using assms
  by (cases "a_kind x"; cases "a_formatter x"; cases "a_hasFormatter x")
    (simp_all add: appender_node_def appender_define_node_def define_of_appender_def map_node_def)

lemma Logger_prints_define:
  assumes "yaml_reads_back yload yemit" and "loggers s l = Some x" and "\<forall>a\<in>set (l_appenders x). appenders s a \<noteq> None"
    and "patterns_given s x"
  shows "Logger_toYamlString yload yemit l s = LogDefine_to_str yemit (define_of_logger s x)"
proof -
  have "map (\<lambda>a. appender_node (the (appenders s a))) (l_appenders x) =
      map appender_define_node (ld_appenders (define_of_logger s x))"
    using assms(3,4) appender_node_define by (fastforce simp: patterns_given_def define_of_logger_def)
  with appender_nodes_of [OF assms(1,3), of "[]"] assms(2,4) show ?thesis
    by (cases "l_formatter x") (auto simp: Logger_toYamlString_def LogDefine_to_str_def LogDefine_node_def get_logger_def
        define_of_logger_def patterns_given_def)
qed

text \<open>The variable \<open>logs\<close>: the set of definitions, ordered by name.\<close>

definition LogDefine_set_from_str where
  "LogDefine_set_from_str yload yemit idx yas mnode =
     set_from_str yload yemit idx LogDefine_lt (LogDefine_from_str yload yas mnode)"

definition LogDefine_set_to_str where
  "LogDefine_set_to_str yload yemit = set_to_str yload yemit (LogDefine_to_str yemit)"

definition defines_ok :: "log_define list \<Rightarrow> bool" where
  "defines_ok ds \<longleftrightarrow> sorted_wrt (<) (map ld_name ds)"

lemma defines_ok_oset: "defines_ok ds \<longleftrightarrow> oset_ok LogDefine_lt ds"
  by (auto simp: defines_ok_def oset_ok_def LogDefine_lt_def sorted_wrt_map
      intro: sorted_wrt_mono_rel [rotated])

section \<open>Properties\<close>

text \<open>\<open>as<std::string>()\<close> for the examples.\<close>

definition ex_as :: "ynode \<Rightarrow> string res" where
  "ex_as n = (case n of YScalar s \<Rightarrow> Inr s | _ \<Rightarrow> Inl (Thrown ''BadConversion''))"

lemma ex_as_scalar: "yas_scalar ex_as"
  by (simp add: yas_scalar_def ex_as_def)

definition ex_define :: log_define where
  "ex_define = \<lparr>ld_name = ''system'', ld_level = INFO, ld_formatter = ''%m%n'',
     ld_appenders = [LogAppenderDefine_new\<lparr>lad_type := 1, lad_file := ''a.txt''\<rparr>,
       LogAppenderDefine_new\<lparr>lad_type := 2\<rparr>]\<rparr>"

text \<open>The definition of the root logger as the manager makes it, with the level of its appenders.\<close>

definition ex_root :: "log_level \<Rightarrow> log_define" where
  "ex_root lv = (let console = \<lparr>lad_type = 2, lad_level = lv, lad_formatter = default_pattern, lad_file = ''''\<rparr>;
       log_file = \<lparr>lad_type = 1, lad_level = lv, lad_formatter = default_pattern, lad_file = ''log/root.txt''\<rparr>
     in \<lparr>ld_name = ''root'', ld_level = DEBUG, ld_formatter = default_pattern,
          ld_appenders = [console, log_file, console, log_file]\<rparr>)"

text \<open>
  C33. The set of logger definitions is written to YAML and read back: each definition comes back with its
  name, level, formatter and appenders in order, except that the levels of its appenders are lost (the
  conversion from text never reads them). So a set of definitions whose appenders have no level of
  their own, and no file for the console, survives as the value of the variable \<open>logs\<close>.
\<close>

theorem LogDefine_roundtrip:
  assumes "yaml_reads_back yload yemit" and "yas_scalar yas" and "\<forall>d\<in>set ds. types_ok d"
  shows "(\<forall>d\<in>set ds. \<exists>t. LogDefine_to_str yemit d = Inr t \<and>
      LogDefine_from_str yload yas mnode t = Inr (plain_define d)) \<and>
    (defines_ok ds \<and> (\<forall>d\<in>set ds. plain_define d = d) \<longrightarrow>
      roundtrips (LogDefine_set_from_str yload yemit idx yas mnode) (LogDefine_set_to_str yload yemit) ds)"
proof (intro conjI impI)
  show "\<forall>d\<in>set ds. \<exists>t. LogDefine_to_str yemit d = Inr t \<and> LogDefine_from_str yload yas mnode t = Inr (plain_define d)"
    using LogDefine_reads_back [OF assms(1,2)] assms(3) by (auto simp: LogDefine_to_str_def)
next
  assume "defines_ok ds \<and> (\<forall>d\<in>set ds. plain_define d = d)"
  then have "list_all (castable yload yemit (LogDefine_from_str yload yas mnode) (LogDefine_to_str yemit)) ds"
      "oset_ok LogDefine_lt ds"
    using LogDefine_castable [OF assms(1,2)] assms(3) by (auto simp: list_all_iff defines_ok_oset)
  from set_casts [OF assms(1) this]
  show "roundtrips (LogDefine_set_from_str yload yemit idx yas mnode) (LogDefine_set_to_str yload yemit) ds"
    by (simp add: casts_def LogDefine_set_from_str_def LogDefine_set_to_str_def)
qed

theorem LogDefine_roundtrip_witness:
  "roundtrips (LogDefine_set_from_str ex_load ex_emit (\<lambda>_ _. '''') ex_as (\<lambda>_ _. YNull))
     (LogDefine_set_to_str ex_load ex_emit) [ex_define]"
  using LogDefine_roundtrip [OF ex_reads_back ex_as_scalar, of "[ex_define]" "\<lambda>_ _. YNull" "\<lambda>_ _. ''''"]
  by (simp add: types_ok_def ex_define_def defines_ok_def plain_define_def plain_appender_def LogAppenderDefine_new_def)

text \<open>
  C34. What \<open>toYamlString\<close> prints of a logger is the text of the definition that describes it as it is: its
  name, level and pattern and, in order, each appender with its class, file, level and own pattern (where no
  pattern in use is empty). Read as a \<open>LogDefine\<close>, the text of any logger gives this definition without the
  levels of the appenders, which are printed but never read.
\<close>

theorem Logger_toYamlString_describes:
  assumes "yaml_reads_back yload yemit" and "yas_scalar yas" and "log_inv s" and "loggers s l = Some x"
  shows "\<exists>t. Logger_toYamlString yload yemit l s = Inr t \<and>
    (patterns_given s x \<longrightarrow> LogDefine_to_str yemit (define_of_logger s x) = Inr t) \<and>
    LogDefine_from_str yload yas mnode t = Inr (plain_define (define_of_logger s x))"
proof -
  have a: "\<forall>a\<in>set (l_appenders x). appenders s a \<noteq> None"
    using log_invD [OF assms(3,4)] by (fastforce simp: logger_ok_def)
  from Logger_reads_back [OF assms(1,2,4) a, of mnode] Logger_prints_define [OF assms(1,4) a] show ?thesis by auto
qed

theorem Logger_toYamlString_describes_witness:
  "\<exists>s t. LoggerManager_new (\<lambda>_. True) (\<lambda>_. True) (\<lambda>_. True) = Inr s \<and>
    Logger_toYamlString ex_load ex_emit 0 s = Inr t \<and>
    LogDefine_to_str ex_emit (ex_root DEBUG) = Inr t \<and>
    LogDefine_from_str ex_load ex_as (\<lambda>_ _. YNull) t = Inr (ex_root UNKNOW)"
proof -
  obtain s where
    s: "LoggerManager_new (\<lambda>_. True) (\<lambda>_. True) (\<lambda>_. True) = Inr s" "log_inv s"
      "loggers s 0 = Some ((Logger_new ''root'')\<lparr>l_appenders := [1, 2, 3, 4]\<rparr>)"
    by (rule manager_starts) (use manager_sel in simp)
  note a = manager_sel(6) [OF s(1)]
  have d: "define_of_logger s ((Logger_new ''root'')\<lparr>l_appenders := [1, 2, 3, 4]\<rparr>) = ex_root DEBUG"
    by (simp add: define_of_logger_def define_of_appender_def a ex_root_def Logger_new_def default_stdout_def default_file_def
        StdoutLogAppender_new_def Let_def getPattern_new)
  have p: "patterns_given s ((Logger_new ''root'')\<lparr>l_appenders := [1, 2, 3, 4]\<rparr>)"
    by (simp add: patterns_given_def a Logger_new_def default_stdout_def default_file_def
        StdoutLogAppender_new_def getPattern_new default_pattern_def)
  have "plain_define (ex_root DEBUG) = ex_root UNKNOW"
    by (simp add: plain_define_def plain_appender_def ex_root_def Let_def)
  with Logger_toYamlString_describes [OF ex_reads_back ex_as_scalar s(2,3), of "\<lambda>_ _. YNull"] s(1) p show ?thesis
    unfolding d by metis
qed

end
