(* ===== verification/LogConfig.thy ===== *)
theory LogConfig imports LogDefine EnvModel begin

text \<open>
  How a new value of the variable \<open>logs\<close> reaches the loggers: the listener that \<open>LogIniter\<close> of
  \<open>LioNet/log.cc\<close> registers. It joins the configuration, the environment (the option \<open>-d\<close>) and the
  loggers.
\<close>

section \<open>The listener\<close>

text \<open>\<open>std::set::find\<close> on definitions ordered by name.\<close>

definition find_define :: "log_define \<Rightarrow> log_define list \<Rightarrow> log_define option" where
  "find_define i ds = List.find (\<lambda>d. \<not> LogDefine_lt i d \<and> \<not> LogDefine_lt d i) ds"

text \<open>
  One appender of a definition: \<open>Inr None\<close> for \<open>continue\<close>; a type that is neither 1 nor 2 leaves the null
  pointer that \<open>setLevel\<close> is called on.
\<close>

definition make_appender :: "bool \<Rightarrow> log_appender_define \<Rightarrow> log_sys \<Rightarrow> appender option res" where
  "make_appender daemon a s =
     (if lad_type a = 1 then Inr (Some (FileLogAppender_new (sys_opens s) (sys_opens_dir s) (lad_file a)))
      else if lad_type a = 2 then (if \<not> daemon then Inr (Some StdoutLogAppender_new) else Inr None)
      else Inl NullDeref)"

definition invalid_line :: "string \<Rightarrow> log_appender_define \<Rightarrow> string" where
  "invalid_line name a = ''log.name='' @ name @ '' appender type='' @ show_int (lad_type a) @
     '' formatter='' @ lad_formatter a @ '' is invalid'' @ [CHR 0x0A]"

definition config_appender :: "bool \<Rightarrow> string \<Rightarrow> nat \<Rightarrow> log_appender_define \<Rightarrow> log_sys \<Rightarrow> log_sys res" where
  "config_appender daemon name l a s =
     res_bind (make_appender daemon a s) (\<lambda>ap. case ap of
       None \<Rightarrow> Inr s
     | Some x0 \<Rightarrow>
         (let x1 = LogAppender_setLevel (lad_level a) x0;
              fmt = LogFormatter_new (lad_formatter a);
              s1 = s\<lparr>console := console s @ init_output (lad_formatter a) 0\<rparr>
          in if lad_formatter a = '''' then add_new_appender l x1 s
             else if \<not> isError fmt then add_new_appender l (LogAppender_setFormatter (Some fmt) x1) s1
             else add_new_appender l x1 (s1\<lparr>console := console s1 @ invalid_line name a\<rparr>)))"

fun config_appenders :: "bool \<Rightarrow> string \<Rightarrow> nat \<Rightarrow> log_appender_define list \<Rightarrow> log_sys \<Rightarrow> log_sys res" where
  "config_appenders daemon name l [] s = Inr s"
| "config_appenders daemon name l (a # as) s =
     res_bind (config_appender daemon name l a s) (config_appenders daemon name l as)"

definition config_logger :: "bool \<Rightarrow> log_define \<Rightarrow> log_sys \<Rightarrow> log_sys res" where
  "config_logger daemon i s =
     res_bind (getLogger (ld_name i) s) (\<lambda>(l, s1).
     res_bind (Logger_setLevel l (ld_level i) s1) (\<lambda>s2.
     res_bind (if ld_formatter i \<noteq> '''' then Logger_setFormatter_string l (ld_formatter i) s2 else Inr s2) (\<lambda>s3.
     res_bind (Logger_clearAppenders l s3) (\<lambda>s4.
       config_appenders daemon (ld_name i) l (ld_appenders i) s4))))"

fun config_new :: "bool \<Rightarrow> log_define list \<Rightarrow> log_define list \<Rightarrow> log_sys \<Rightarrow> log_sys res" where
  "config_new daemon old [] s = Inr s"
| "config_new daemon old (i # is) s =
     res_bind
       (case find_define i old of
          None \<Rightarrow> config_logger daemon i s
        | Some it \<Rightarrow> if \<not> LogDefine_eq i it then config_logger daemon i s else Inr s)
       (config_new daemon old is)"

fun config_old :: "log_define list \<Rightarrow> log_define list \<Rightarrow> log_sys \<Rightarrow> log_sys res" where
  "config_old new [] s = Inr s"
| "config_old new (i # is) s =
     res_bind
       (case find_define i new of
          None \<Rightarrow> res_bind (getLogger (ld_name i) s) (\<lambda>(l, s1).
            res_bind (Logger_setLevel l UNKNOW s1) (Logger_clearAppenders l))
        | Some it \<Rightarrow> Inr s)
       (config_old new is)"

text \<open>
  The whole listener: the line it logs to the root logger (\<open>ev\<close>, with \<open>None\<close> if the recursion of
  \<open>Logger::log\<close> ran out of fuel), the new definitions, the definitions that are gone. \<open>e\<close> is the
  environment.
\<close>

definition on_logger_conf_changed ::
    "time_str \<Rightarrow> log_event \<Rightarrow> env \<Rightarrow> log_define list \<Rightarrow> log_define list \<Rightarrow> log_sys \<Rightarrow> log_sys res option" where
  "on_logger_conf_changed tstr ev e old new s =
     (case LIONET_LOG_LEVEL 1 tstr ev s of
        None \<Rightarrow> None
      | Some r \<Rightarrow> Some (res_bind r (\<lambda>s1. res_bind (config_new (Env_has ''d'' e) old new s1) (config_old new old))))"

section \<open>What stays\<close>

text \<open>
  No appender is shared by two loggers. With it, what happens to one logger leaves the appenders of the
  others alone.
\<close>

definition unshared :: "log_sys \<Rightarrow> bool" where
  "unshared s \<longleftrightarrow> (\<forall>l l' x x'. loggers s l = Some x \<longrightarrow> loggers s l' = Some x' \<longrightarrow> l \<noteq> l' \<longrightarrow>
     set (l_appenders x) \<inter> set (l_appenders x') = {})"

text \<open>
  \<open>only l s s'\<close>: between the two states only the logger \<open>l\<close> and its appenders changed, new objects apart.
\<close>

definition only :: "nat \<Rightarrow> log_sys \<Rightarrow> log_sys \<Rightarrow> bool" where
  "only l s s' \<longleftrightarrow> mgr_root s' = mgr_root s \<and> next_obj s \<le> next_obj s' \<and>
     (\<forall>n k. map_of (m_loggers s) n = Some k \<longrightarrow> map_of (m_loggers s') n = Some k) \<and>
     (\<forall>k. k \<noteq> l \<longrightarrow> loggers s' k = loggers s k) \<and>
     (\<forall>a < next_obj s. (\<forall>x. loggers s l = Some x \<longrightarrow> a \<notin> set (l_appenders x)) \<longrightarrow> appenders s' a = appenders s a) \<and>
     (\<forall>x x'. loggers s l = Some x \<longrightarrow> loggers s' l = Some x' \<longrightarrow>
        (\<forall>a\<in>set (l_appenders x'). a \<in> set (l_appenders x) \<or> next_obj s \<le> a)) \<and>
     (\<forall>x'. loggers s l = None \<longrightarrow> loggers s' l = Some x' \<longrightarrow> (\<forall>a\<in>set (l_appenders x'). next_obj s \<le> a))"

lemma only_refl [frame_ops]: "only l s s"
  by (simp add: only_def)

lemma appender_below:
  assumes "log_inv s" and "loggers s l = Some x" and "a \<in> set (l_appenders x)"
  shows "a < next_obj s"
proof -
  have "appenders s a \<noteq> None" using log_invD [OF assms(1,2)] assms(3) by (auto simp: logger_ok_def)
  then show ?thesis using assms(1) unfolding log_inv_def by (meson not_le)
qed

lemma only_unshared:
  assumes "only l s s'" and "unshared s" and "log_inv s"
  shows "unshared s'"
proof -
  have "set (l_appenders x) \<inter> set (l_appenders x') = {}"
    if x: "loggers s' l = Some x" and x': "loggers s' k = Some x'" and k: "k \<noteq> l" for x x' k
  proof -
    have s: "loggers s k = Some x'" using x' k assms(1) by (simp add: only_def)
    have "a \<notin> set (l_appenders x')" if "a \<in> set (l_appenders x)" for a
    proof (cases "loggers s l")
      case None
      then have "next_obj s \<le> a" using assms(1) x that unfolding only_def by blast
      with appender_below [OF assms(3) s, of a] show ?thesis by (metis not_le)
    next
      case (Some z)
      then have "a \<in> set (l_appenders z) \<or> next_obj s \<le> a" using assms(1) x that unfolding only_def by blast
      moreover have "set (l_appenders z) \<inter> set (l_appenders x') = {}"
        using assms(2) Some s k unfolding unshared_def by blast
      ultimately show ?thesis using appender_below [OF assms(3) s, of a] by (metis disjoint_iff not_le)
    qed
    then show ?thesis by blast
  qed
  moreover have "loggers s' k = loggers s k" if "k \<noteq> l" for k using assms(1) that by (simp add: only_def)
  ultimately show ?thesis
    using assms(2) unfolding unshared_def by (metis inf_commute)
qed

lemma only_appenders:
  assumes "only l s s'" and "unshared s" and "log_inv s" and "loggers s k = Some x" and "k \<noteq> l"
  shows "loggers s' k = Some x" and "a \<in> set (l_appenders x) \<Longrightarrow> appenders s' a = appenders s a"
proof -
  show "loggers s' k = Some x" using assms(1,4,5) by (simp add: only_def)
  assume a: "a \<in> set (l_appenders x)"
  have "a < next_obj s" by (rule appender_below [OF assms(3,4) a])
  moreover have "a \<notin> set (l_appenders z)" if "loggers s l = Some z" for z
    using assms(2,4,5) a that unfolding unshared_def by blast
  ultimately show "appenders s' a = appenders s a" using assms(1) unfolding only_def by blast
qed

lemma only_trans [frame_ops]:
  assumes "only l s s1" and "only l s1 s2"
  shows "only l s s2"
proof -
  have grow: "next_obj s \<le> next_obj s1" "next_obj s1 \<le> next_obj s2" using assms by (simp_all add: only_def)
  have app1: "a \<in> set (l_appenders x) \<or> next_obj s \<le> a"
    if "loggers s l = Some x" "loggers s1 l = Some y" "a \<in> set (l_appenders y)" for a x y
    using assms(1) that unfolding only_def by blast
  have new1: "next_obj s \<le> a" if "loggers s l = None" "loggers s1 l = Some y" "a \<in> set (l_appenders y)" for a y
    using assms(1) that unfolding only_def by blast
  have app2: "(\<exists>y. loggers s1 l = Some y \<and> a \<in> set (l_appenders y)) \<or> next_obj s1 \<le> a"
    if "loggers s2 l = Some z" "a \<in> set (l_appenders z)" for a z
    using assms(2) that unfolding only_def by (cases "loggers s1 l") blast+
  have "appenders s2 a = appenders s a"
    if a: "a < next_obj s" "\<forall>x. loggers s l = Some x \<longrightarrow> a \<notin> set (l_appenders x)" for a
  proof -
    have "a \<notin> set (l_appenders y)" if "loggers s1 l = Some y" for y
      using app1 new1 that a by (metis not_le option.exhaust)
    moreover have "a < next_obj s1" using a grow by simp
    ultimately have "appenders s2 a = appenders s1 a" using assms(2) unfolding only_def by blast
    also have "\<dots> = appenders s a" using assms(1) a unfolding only_def by blast
    finally show ?thesis .
  qed
  moreover have "a \<in> set (l_appenders x) \<or> next_obj s \<le> a"
    if "loggers s l = Some x" "loggers s2 l = Some z" "a \<in> set (l_appenders z)" for a x z
    using app2 [OF that(2,3)] app1 [OF that(1)] grow by force
  moreover have "next_obj s \<le> a"
    if "loggers s l = None" "loggers s2 l = Some z" "a \<in> set (l_appenders z)" for a z
    using app2 [OF that(2,3)] new1 [OF that(1)] grow by force
  moreover have "mgr_root s2 = mgr_root s" "\<forall>n k. map_of (m_loggers s) n = Some k \<longrightarrow> map_of (m_loggers s2) n = Some k"
    "\<forall>k. k \<noteq> l \<longrightarrow> loggers s2 k = loggers s k"
    using assms by (simp_all add: only_def)
  ultimately show ?thesis using grow unfolding only_def by (meson le_trans)
qed

section \<open>The operations of the listener\<close>

lemma getLogger_only:
  assumes "log_inv s"
  shows "\<exists>l s' x. getLogger name s = Inr (l, s') \<and> log_inv s' \<and> map_of (m_loggers s') name = Some l \<and>
    loggers s' l = Some x \<and> only l s s'"
proof (cases "map_of (m_loggers s) name")
  case (Some l)
  moreover from Some assms obtain x where "loggers s l = Some x" unfolding log_inv_def by blast
  ultimately show ?thesis using assms by (simp add: getLogger_def only_refl)
next
  case None
  let ?l = "next_obj s"
  let ?s0 = "(put_logger ?l (Logger_new name) s)\<lparr>next_obj := Suc ?l\<rparr>"
  have fresh: "loggers s ?l = None" using assms by (simp add: log_inv_def)
  have i0: "log_inv ?s0" by (rule log_inv_new_logger [OF assms]) (simp_all add: Logger_new_def)
  have l0: "loggers ?s0 ?l = Some (Logger_new name)" by (simp add: put_logger_def)
  from log_inv_default [OF i0 l0] obtain s1 where s1: "applyDefaultConfig ?l ?s0 = Inr s1"
    "mgr_root s1 = mgr_root s" "m_loggers s1 = m_loggers s" "next_obj s1 = Suc (Suc (Suc ?l))"
    "loggers s1 = (loggers s)(?l \<mapsto> (Logger_new name)\<lparr>l_appenders := [Suc ?l, Suc (Suc ?l)]\<rparr>)"
    "\<forall>a < ?l. appenders s1 a = appenders s a"
    by (auto simp: put_logger_def Logger_new_def)
  from log_inv_getLogger [OF assms, of name] obtain l s' where g: "getLogger name s = Inr (l, s')" "log_inv s'"
    "map_of (m_loggers s') name = Some l" by blast
  let ?x = "(Logger_new name)\<lparr>l_appenders := [Suc ?l, Suc (Suc ?l)], l_root := mgr_root s\<rparr>"
  have r: "l = ?l" "s' = (put_logger ?l ?x s1)\<lparr>m_loggers := omap_put name ?l (m_loggers s)\<rparr>"
    using g(1) None s1 by (auto simp: getLogger_def get_logger_def Let_def Logger_new_def)
  have "omap_ok (m_loggers s)" using assms by (simp add: log_inv_def)
  then have "only ?l s s'"
    using r(2) s1 fresh None by (auto simp: only_def put_logger_def map_of_omap_put)
  moreover have "loggers s' ?l = Some ?x" using r(2) by (simp add: put_logger_def)
  ultimately show ?thesis using g r(1) by blast
qed

lemma put_logger_only:
  assumes "loggers s l = Some x" and "set (l_appenders x') \<subseteq> set (l_appenders x)"
  shows "only l s (put_logger l x' s)"
  using assms by (auto simp: only_def put_logger_def)

lemma setLevel_only:
  assumes "log_inv s" and "loggers s l = Some x"
  shows "\<exists>s'. Logger_setLevel l lv s = Inr s' \<and> log_inv s' \<and> loggers s' l = Some (x\<lparr>l_level := lv\<rparr>) \<and>
    m_loggers s' = m_loggers s \<and> only l s s'"
  using assms put_logger_only [OF assms(2), of "x\<lparr>l_level := lv\<rparr>"]
  by (auto simp: Logger_setLevel_def get_logger_def put_logger_def [of _ _ s]
      intro!: log_inv_update_logger [unfolded put_logger_def])

lemma clearAppenders_only:
  assumes "log_inv s" and "loggers s l = Some x"
  shows "\<exists>s'. Logger_clearAppenders l s = Inr s' \<and> log_inv s' \<and> loggers s' l = Some (x\<lparr>l_appenders := []\<rparr>) \<and>
    m_loggers s' = m_loggers s \<and> only l s s'"
  using assms put_logger_only [OF assms(2), of "x\<lparr>l_appenders := []\<rparr>"]
  by (auto simp: Logger_clearAppenders_def get_logger_def put_logger_def [of _ _ s]
      intro!: log_inv_update_logger [unfolded put_logger_def])

lemma inherit_only:
  assumes "inherit_formatter f as s = Inr s'"
  shows "loggers s' = loggers s \<and> m_loggers s' = m_loggers s \<and> mgr_root s' = mgr_root s \<and>
    next_obj s' = next_obj s \<and> (\<forall>a. a \<notin> set as \<longrightarrow> appenders s' a = appenders s a)"
  using assms
proof (induction as arbitrary: s)
  case (Cons a as)
  then show ?case by (fastforce simp: res_bind_Inr_iff put_appender_def split: if_splits)
qed simp

text \<open>The formatter of a definition: the pattern if it can be parsed, otherwise the one in place.\<close>

definition pattern_or :: "string \<Rightarrow> formatter option \<Rightarrow> formatter option" where
  "pattern_or p f = (if p \<noteq> '''' \<and> \<not> isError (LogFormatter_new p) then Some (LogFormatter_new p) else f)"

lemma setFormatter_string_only:
  assumes "log_inv s" and "loggers s l = Some x"
  shows "\<exists>s'. (if p \<noteq> '''' then Logger_setFormatter_string l p s else Inr s) = Inr s' \<and> log_inv s' \<and>
    loggers s' l = Some (x\<lparr>l_formatter := pattern_or p (l_formatter x)\<rparr>) \<and> m_loggers s' = m_loggers s \<and> only l s s'"
proof (cases "p \<noteq> '''' \<and> \<not> isError (LogFormatter_new p)")
  case False
  with assms show ?thesis
    by (auto simp: Logger_setFormatter_string_def Let_def get_logger_def log_inv_console pattern_or_def only_def)
next
  case True
  let ?s = "s\<lparr>console := console s @ ''---'' @ p @ [CHR 0x0A] @ init_output p 0\<rparr>" and ?f = "Some (LogFormatter_new p)"
  have "log_inv ?s" "loggers ?s l = Some x" using assms by (simp_all add: log_inv_console)
  from log_inv_setFormatter [OF this, of ?f] obtain s' where s': "Logger_setFormatter l ?f ?s = Inr s'" "log_inv s'"
    by auto
  then have "inherit_formatter ?f (l_appenders x) (put_logger l (x\<lparr>l_formatter := ?f\<rparr>) ?s) = Inr s'"
    using assms(2) by (simp add: Logger_setFormatter_def get_logger_def)
  from inherit_only [OF this] have "loggers s' = (loggers s)(l \<mapsto> x\<lparr>l_formatter := ?f\<rparr>)" "only l s s'"
      "m_loggers s' = m_loggers s"
    using assms(2) by (auto simp: only_def put_logger_def)
  with True s' assms(2) show ?thesis
    by (auto simp: Logger_setFormatter_string_def Let_def get_logger_def pattern_or_def)
qed

section \<open>A configured logger\<close>

text \<open>The appenders that are made: with \<open>-d\<close> the console ones are left out.\<close>

definition kept_appenders :: "bool \<Rightarrow> log_appender_define list \<Rightarrow> log_appender_define list" where
  "kept_appenders daemon as = filter (\<lambda>a. lad_type a = 1 \<or> \<not> daemon) as"

definition matches :: "log_appender_define \<Rightarrow> formatter option \<Rightarrow> appender \<Rightarrow> bool" where
  "matches d f y \<longleftrightarrow> a_kind y = (if lad_type d = 1 then FileLogAppender else StdoutLogAppender) \<and>
     a_level y = lad_level d \<and> (lad_type d = 1 \<longrightarrow> a_filename y = lad_file d) \<and>
     a_formatter y = pattern_or (lad_formatter d) f"

definition configured :: "bool \<Rightarrow> log_define \<Rightarrow> log_sys \<Rightarrow> bool" where
  "configured daemon i s \<longleftrightarrow> (\<exists>l x. map_of (m_loggers s) (ld_name i) = Some l \<and> loggers s l = Some x \<and>
     l_level x = ld_level i \<and> l_formatter x = pattern_or (ld_formatter i) (l_formatter x) \<and>
     list_all2 (\<lambda>d a. \<exists>y. appenders s a = Some y \<and> matches d (l_formatter x) y)
       (kept_appenders daemon (ld_appenders i)) (l_appenders x))"


lemma config_appender_spec:
  assumes "log_inv s" and "loggers s l = Some x" and "lad_type a = 1 \<or> lad_type a = 2"
  shows "\<exists>s' as. config_appender daemon name l a s = Inr s' \<and> log_inv s' \<and> mgr_root s' = mgr_root s \<and>
    m_loggers s' = m_loggers s \<and> next_obj s' = next_obj s + length as \<and>
    loggers s' = (loggers s)(l \<mapsto> x\<lparr>l_appenders := l_appenders x @ as\<rparr>) \<and> (\<forall>b\<in>set as. next_obj s \<le> b) \<and>
    (\<forall>b < next_obj s. appenders s' b = appenders s b) \<and>
    list_all2 (\<lambda>d b. \<exists>y. appenders s' b = Some y \<and> matches d (l_formatter x) y) (kept_appenders daemon [a]) as"
proof (cases "lad_type a = 2 \<and> daemon")
  case True
  with assms show ?thesis
    by (intro exI [of _ s] exI [of _ "[]"]) (auto simp: config_appender_def make_appender_def kept_appenders_def)
next
  case False
  let ?p = "lad_formatter a" and ?fmt = "LogFormatter_new (lad_formatter a)"
  define x0 where "x0 = (if lad_type a = 1 then FileLogAppender_new (sys_opens s) (sys_opens_dir s) (lad_file a)
    else StdoutLogAppender_new)"
  define x1 where "x1 = LogAppender_setLevel (lad_level a) x0"
  define x2 where "x2 = (if ?p \<noteq> '''' \<and> \<not> isError ?fmt then LogAppender_setFormatter (Some ?fmt) x1 else x1)"
  define t where "t = (if ?p = '''' then s
    else if isError ?fmt then s\<lparr>console := console s @ init_output ?p 0 @ invalid_line name a\<rparr>
    else s\<lparr>console := console s @ init_output ?p 0\<rparr>)"
  have t: "log_inv t" "loggers t l = Some x" "loggers t = loggers s" "m_loggers t = m_loggers s"
    "mgr_root t = mgr_root s" "next_obj t = next_obj s" "appenders t = appenders s"
    using assms(1,2) by (simp_all add: t_def log_inv_console)
  have "make_appender daemon a s = Inr (Some x0)" using assms(3) False by (auto simp: make_appender_def x0_def)
  then have run: "config_appender daemon name l a s = add_new_appender l x2 t"
    by (auto simp: config_appender_def Let_def x1_def x2_def t_def)
  have f1: "a_formatter x1 = None" by (simp add: x1_def x0_def LogAppender_setLevel_def StdoutLogAppender_new_def)
  have y: "matches a (l_formatter x) (if a_formatter x2 = None then LogAppender_setFormatter (l_formatter x) x2 else x2)"
    using f1 by (auto simp: matches_def x2_def x1_def x0_def pattern_or_def LogAppender_setFormatter_def
        LogAppender_setLevel_def StdoutLogAppender_new_def)
  from log_inv_add_new [OF t(1,2), of x2] y t(3-) False assms(3) show ?thesis
    unfolding run by (auto simp: kept_appenders_def intro!: exI [of _ "[next_obj s]"])
qed

lemma kept_split: "kept_appenders daemon (a # as) = kept_appenders daemon [a] @ kept_appenders daemon as"
  by (simp add: kept_appenders_def)

lemma config_appenders_spec:
  assumes "log_inv s" and "loggers s l = Some x" and "\<forall>a\<in>set ads. lad_type a = 1 \<or> lad_type a = 2"
  shows "\<exists>s' as. config_appenders daemon name l ads s = Inr s' \<and> log_inv s' \<and> mgr_root s' = mgr_root s \<and>
    m_loggers s' = m_loggers s \<and> next_obj s \<le> next_obj s' \<and>
    loggers s' = (loggers s)(l \<mapsto> x\<lparr>l_appenders := l_appenders x @ as\<rparr>) \<and> (\<forall>b\<in>set as. next_obj s \<le> b) \<and>
    (\<forall>b < next_obj s. appenders s' b = appenders s b) \<and>
    list_all2 (\<lambda>d b. \<exists>y. appenders s' b = Some y \<and> matches d (l_formatter x) y) (kept_appenders daemon ads) as"
  using assms
proof (induction ads arbitrary: s x)
  case Nil
  then show ?case by (intro exI [of _ s] exI [of _ "[]"]) (auto simp: kept_appenders_def)
next
  case (Cons a ads)
  let ?m = "\<lambda>s d b. \<exists>y. appenders s b = Some y \<and> matches d (l_formatter x) y"
  from config_appender_spec [OF Cons.prems(1,2), of a daemon name] Cons.prems(3) obtain s1 as where
    s1: "config_appender daemon name l a s = Inr s1" "log_inv s1" "mgr_root s1 = mgr_root s"
      "m_loggers s1 = m_loggers s" "next_obj s1 = next_obj s + length as"
      "loggers s1 = (loggers s)(l \<mapsto> x\<lparr>l_appenders := l_appenders x @ as\<rparr>)" "\<forall>b\<in>set as. next_obj s \<le> b"
      "\<forall>b < next_obj s. appenders s1 b = appenders s b" "list_all2 (?m s1) (kept_appenders daemon [a]) as" by auto
  let ?x1 = "x\<lparr>l_appenders := l_appenders x @ as\<rparr>"
  have l1: "loggers s1 l = Some ?x1" using s1(6) by simp
  have types: "\<forall>a\<in>set ads. lad_type a = 1 \<or> lad_type a = 2" using Cons.prems(3) by simp
  from Cons.IH [OF s1(2) l1 types] obtain s2 bs where
    s2: "config_appenders daemon name l ads s1 = Inr s2" "log_inv s2" "mgr_root s2 = mgr_root s1"
      "m_loggers s2 = m_loggers s1" "next_obj s1 \<le> next_obj s2"
      "loggers s2 = (loggers s1)(l \<mapsto> ?x1\<lparr>l_appenders := l_appenders ?x1 @ bs\<rparr>)" "\<forall>b\<in>set bs. next_obj s1 \<le> b"
      "\<forall>b < next_obj s1. appenders s2 b = appenders s1 b"
      "list_all2 (\<lambda>d b. \<exists>y. appenders s2 b = Some y \<and> matches d (l_formatter ?x1) y) (kept_appenders daemon ads) bs"
    by blast
  have "b < next_obj s1" if "b \<in> set as" for b using appender_below [OF s1(2) l1, of b] that by simp
  then have "list_all2 (?m s2) (kept_appenders daemon [a]) as"
    using s2(8) by (intro list.rel_mono_strong [OF s1(9)]) auto
  then have "list_all2 (?m s2) (kept_appenders daemon (a # ads)) (as @ bs)"
    using s2(9) list_all2_appendI [of "?m s2" "kept_appenders daemon [a]" as "kept_appenders daemon ads" bs]
    unfolding kept_split [of daemon a ads] by simp
  with s1 s2 show ?case by (intro exI [of _ s2] exI [of _ "as @ bs"]) auto
qed

lemma config_logger_spec:
  assumes "log_inv s" and "types_ok i"
  shows "\<exists>s' l. config_logger daemon i s = Inr s' \<and> log_inv s' \<and> configured daemon i s' \<and>
    map_of (m_loggers s') (ld_name i) = Some l \<and> only l s s'"
proof -
  from getLogger_only [OF assms(1), of "ld_name i"] obtain l s1 x where
    s1: "getLogger (ld_name i) s = Inr (l, s1)" "log_inv s1" "map_of (m_loggers s1) (ld_name i) = Some l"
      "loggers s1 l = Some x" "only l s s1" by blast
  from setLevel_only [OF s1(2,4), of "ld_level i"] obtain s2 where
    s2: "Logger_setLevel l (ld_level i) s1 = Inr s2" "log_inv s2" "loggers s2 l = Some (x\<lparr>l_level := ld_level i\<rparr>)"
      "m_loggers s2 = m_loggers s1" "only l s1 s2" by blast
  let ?f = "pattern_or (ld_formatter i) (l_formatter x)"
  from setFormatter_string_only [OF s2(2,3), of "ld_formatter i"] obtain s3 where
    s3: "(if ld_formatter i \<noteq> '''' then Logger_setFormatter_string l (ld_formatter i) s2 else Inr s2) = Inr s3"
      "log_inv s3" "loggers s3 l = Some (x\<lparr>l_level := ld_level i, l_formatter := ?f\<rparr>)"
      "m_loggers s3 = m_loggers s2" "only l s2 s3" by auto
  from clearAppenders_only [OF s3(2,3)] obtain s4 where
    s4: "Logger_clearAppenders l s3 = Inr s4" "log_inv s4"
      "loggers s4 l = Some (x\<lparr>l_level := ld_level i, l_formatter := ?f, l_appenders := []\<rparr>)"
      "m_loggers s4 = m_loggers s3" "only l s3 s4" by auto
  let ?x = "x\<lparr>l_level := ld_level i, l_formatter := ?f, l_appenders := []\<rparr>"
  have types: "\<forall>a\<in>set (ld_appenders i). lad_type a = 1 \<or> lad_type a = 2" using assms(2) by (simp add: types_ok_def)
  from config_appenders_spec [OF s4(2,3) types, of daemon "ld_name i"] obtain s5 as where
    s5: "config_appenders daemon (ld_name i) l (ld_appenders i) s4 = Inr s5" "log_inv s5" "mgr_root s5 = mgr_root s4"
      "m_loggers s5 = m_loggers s4" "next_obj s4 \<le> next_obj s5"
      "loggers s5 = (loggers s4)(l \<mapsto> ?x\<lparr>l_appenders := l_appenders ?x @ as\<rparr>)" "\<forall>b\<in>set as. next_obj s4 \<le> b"
      "\<forall>b < next_obj s4. appenders s5 b = appenders s4 b"
      "list_all2 (\<lambda>d b. \<exists>y. appenders s5 b = Some y \<and> matches d (l_formatter ?x) y)
        (kept_appenders daemon (ld_appenders i)) as" by blast
  have "only l s4 s5" using s5 s4(3) by (auto simp: only_def)
  then have only: "only l s s5" using s1(5) s2(5) s3(5) s4(5) by (blast intro: frame_ops)
  have reg: "map_of (m_loggers s5) (ld_name i) = Some l" using s1(3) s2(4) s3(4) s4(4) s5(4) by simp
  have "pattern_or (ld_formatter i) ?f = ?f" by (simp add: pattern_or_def)
  then have "configured daemon i s5" using s5(6,9) reg by (auto simp: configured_def)
  moreover have "config_logger daemon i s = Inr s5"
    unfolding config_logger_def using s1(1) s2(1) s3(1) s4(1) s5(1) by simp
  ultimately show ?thesis using s5(2) only reg by blast
qed

section \<open>The loops of the listener\<close>

text \<open>A registered logger that a step leaves as it is, with its appenders.\<close>

definition keeps :: "string \<Rightarrow> log_sys \<Rightarrow> log_sys \<Rightarrow> bool" where
  "keeps n s s' \<longleftrightarrow> (\<forall>l x. map_of (m_loggers s) n = Some l \<longrightarrow> loggers s l = Some x \<longrightarrow>
     map_of (m_loggers s') n = Some l \<and> loggers s' l = Some x \<and>
     (\<forall>a\<in>set (l_appenders x). appenders s' a = appenders s a))"

lemma keeps_refl [frame_ops]: "keeps n s s"
  by (simp add: keeps_def)

lemma keeps_trans [frame_ops]: "keeps n s s1 \<Longrightarrow> keeps n s1 s2 \<Longrightarrow> keeps n s s2"
  unfolding keeps_def by metis

lemma only_keeps:
  assumes "only l s s'" and "unshared s" and "log_inv s" and "log_inv s'"
    and "map_of (m_loggers s') m = Some l" and "n \<noteq> m"
  shows "keeps n s s'"
  unfolding keeps_def
proof (intro allI impI)
  fix k x
  assume k: "map_of (m_loggers s) n = Some k" and x: "loggers s k = Some x"
  have k': "map_of (m_loggers s') n = Some k" using assms(1) k by (simp add: only_def)
  have "k \<noteq> l" using assms(4,5,6) k' unfolding log_inv_def by (metis option.inject)
  with only_appenders [OF assms(1-3) x] k'
  show "map_of (m_loggers s') n = Some k \<and> loggers s' k = Some x \<and>
      (\<forall>a\<in>set (l_appenders x). appenders s' a = appenders s a)" by blast
qed

lemma keeps_configured: "keeps (ld_name i) s s' \<Longrightarrow> configured daemon i s \<Longrightarrow> configured daemon i s'"
  unfolding configured_def keeps_def
  by (elim exE conjE) (fastforce elim!: list.rel_mono_strong)

definition cleared :: "string \<Rightarrow> log_sys \<Rightarrow> bool" where
  "cleared n s \<longleftrightarrow> (\<exists>l x. map_of (m_loggers s) n = Some l \<and> loggers s l = Some x \<and>
     l_level x = UNKNOW \<and> l_appenders x = [])"

lemma keeps_cleared: "keeps n s s' \<Longrightarrow> cleared n s \<Longrightarrow> cleared n s'"
  unfolding cleared_def keeps_def by blast

lemma find_define_None: "find_define i ds = None \<longleftrightarrow> ld_name i \<notin> ld_name ` set ds"
proof -
  have "\<not> LogDefine_lt i d \<and> \<not> LogDefine_lt d i \<longleftrightarrow> ld_name d = ld_name i" for d
    unfolding LogDefine_lt_def by (metis linorder_neqE less_irrefl)
  then show ?thesis by (auto simp: find_define_def find_None_iff image_iff)
qed

lemma find_define_Some: "find_define i ds = Some d \<Longrightarrow> d \<in> set ds \<and> ld_name d = ld_name i"
  by (auto simp: find_define_def LogDefine_lt_def find_Some_iff)

text \<open>The definitions the listener applies: no equal one was there before.\<close>

definition changed :: "log_define list \<Rightarrow> log_define \<Rightarrow> bool" where
  "changed old i \<longleftrightarrow> (case find_define i old of None \<Rightarrow> True | Some it \<Rightarrow> \<not> LogDefine_eq i it)"

lemma config_new_spec:
  assumes "log_inv s" and "unshared s" and "distinct (map ld_name is)" and "\<forall>i\<in>set is. types_ok i"
  shows "\<exists>s'. config_new daemon old is s = Inr s' \<and> log_inv s' \<and> unshared s' \<and>
    (\<forall>i\<in>set is. changed old i \<longrightarrow> configured daemon i s') \<and>
    (\<forall>n. n \<notin> ld_name ` {i \<in> set is. changed old i} \<longrightarrow> keeps n s s')"
  using assms
proof (induction "is" arbitrary: s)
  case Nil
  then show ?case by (simp add: keeps_refl)
next
  case (Cons i "is")
  have "\<exists>s1. (case find_define i old of None \<Rightarrow> config_logger daemon i s
        | Some it \<Rightarrow> if \<not> LogDefine_eq i it then config_logger daemon i s else Inr s) = Inr s1 \<and>
      log_inv s1 \<and> unshared s1 \<and> (changed old i \<longrightarrow> configured daemon i s1) \<and>
      (\<forall>n. \<not> changed old i \<or> n \<noteq> ld_name i \<longrightarrow> keeps n s s1)"
  proof (cases "changed old i")
    case True
    from config_logger_spec [OF Cons.prems(1), of i daemon] Cons.prems(4) obtain s1 l where
      s1: "config_logger daemon i s = Inr s1" "log_inv s1" "configured daemon i s1"
        "map_of (m_loggers s1) (ld_name i) = Some l" "only l s s1" by auto
    moreover have "unshared s1" by (rule only_unshared [OF s1(5) Cons.prems(2,1)])
    moreover have "keeps n s s1" if "n \<noteq> ld_name i" for n
      by (rule only_keeps [OF s1(5) Cons.prems(2,1) s1(2,4) that])
    ultimately show ?thesis using True by (auto simp: changed_def split: option.splits)
  next
    case False
    with Cons.prems show ?thesis by (auto simp: changed_def keeps_refl split: option.splits)
  qed
  then obtain s1 where s1: "(case find_define i old of None \<Rightarrow> config_logger daemon i s
        | Some it \<Rightarrow> if \<not> LogDefine_eq i it then config_logger daemon i s else Inr s) = Inr s1"
      "log_inv s1" "unshared s1" "changed old i \<longrightarrow> configured daemon i s1"
      "\<forall>n. \<not> changed old i \<or> n \<noteq> ld_name i \<longrightarrow> keeps n s s1" by blast
  from Cons.IH [OF s1(2,3)] Cons.prems(3,4) obtain s2 where
    s2: "config_new daemon old is s1 = Inr s2" "log_inv s2" "unshared s2"
      "\<forall>j\<in>set is. changed old j \<longrightarrow> configured daemon j s2"
      "\<forall>n. n \<notin> ld_name ` {j \<in> set is. changed old j} \<longrightarrow> keeps n s1 s2" by auto
  have "keeps (ld_name i) s1 s2" using s2(5) Cons.prems(3) by auto
  then have "changed old i \<longrightarrow> configured daemon i s2" using s1(4) keeps_configured by blast
  moreover have "keeps n s s2" if "n \<notin> ld_name ` {j \<in> set (i # is). changed old j}" for n
    using s1(5) s2(5) that by (intro keeps_trans [of n s s1 s2]) auto
  ultimately show ?case using s1(1) s2 by simp
qed

lemma config_old_spec:
  assumes "log_inv s" and "unshared s" and "distinct (map ld_name is)"
  shows "\<exists>s'. config_old new is s = Inr s' \<and> log_inv s' \<and> unshared s' \<and>
    (\<forall>i\<in>set is. ld_name i \<notin> ld_name ` set new \<longrightarrow> cleared (ld_name i) s') \<and>
    (\<forall>n. n \<notin> ld_name ` set is - ld_name ` set new \<longrightarrow> keeps n s s')"
  using assms
proof (induction "is" arbitrary: s)
  case Nil
  then show ?case by (simp add: keeps_refl)
next
  case (Cons i "is")
  let ?gone = "ld_name i \<notin> ld_name ` set new"
  let ?r = "case find_define i new of
          None \<Rightarrow> res_bind (getLogger (ld_name i) s) (\<lambda>(l, s1).
            res_bind (Logger_setLevel l UNKNOW s1) (Logger_clearAppenders l))
        | Some it \<Rightarrow> Inr s"
  have "\<exists>s1. ?r = Inr s1 \<and> log_inv s1 \<and> unshared s1 \<and> (?gone \<longrightarrow> cleared (ld_name i) s1) \<and>
      (\<forall>n. \<not> ?gone \<or> n \<noteq> ld_name i \<longrightarrow> keeps n s s1)"
  proof (cases ?gone)
    case True
    from getLogger_only [OF Cons.prems(1), of "ld_name i"] obtain l s1 x where
      s1: "getLogger (ld_name i) s = Inr (l, s1)" "log_inv s1" "map_of (m_loggers s1) (ld_name i) = Some l"
        "loggers s1 l = Some x" "only l s s1" by blast
    from setLevel_only [OF s1(2,4), of UNKNOW] obtain s2 where
      s2: "Logger_setLevel l UNKNOW s1 = Inr s2" "log_inv s2" "loggers s2 l = Some (x\<lparr>l_level := UNKNOW\<rparr>)"
        "m_loggers s2 = m_loggers s1" "only l s1 s2" by blast
    from clearAppenders_only [OF s2(2,3)] obtain s3 where
      s3: "Logger_clearAppenders l s2 = Inr s3" "log_inv s3"
        "loggers s3 l = Some (x\<lparr>l_level := UNKNOW, l_appenders := []\<rparr>)"
        "m_loggers s3 = m_loggers s2" "only l s2 s3" by auto
    have only: "only l s s3" using s1(5) s2(5) s3(5) by (blast intro: frame_ops)
    have reg: "map_of (m_loggers s3) (ld_name i) = Some l" using s1(3) s2(4) s3(4) by simp
    have "cleared (ld_name i) s3" using s3(3) reg by (auto simp: cleared_def)
    moreover have "unshared s3" by (rule only_unshared [OF only Cons.prems(2,1)])
    moreover have "keeps n s s3" if "n \<noteq> ld_name i" for n
      by (rule only_keeps [OF only Cons.prems(2,1) s3(2) reg that])
    moreover have "?r = Inr s3" using True s1(1) s2(1) s3(1) find_define_None [of i new] by simp
    ultimately show ?thesis using s3(2) True by blast
  next
    case False
    then obtain it where "find_define i new = Some it" using find_define_None [of i new] by blast
    with Cons.prems False show ?thesis by (auto simp: keeps_refl)
  qed
  then obtain s1 where s1: "?r = Inr s1" "log_inv s1" "unshared s1" "?gone \<longrightarrow> cleared (ld_name i) s1"
      "\<forall>n. \<not> ?gone \<or> n \<noteq> ld_name i \<longrightarrow> keeps n s s1" by blast
  from Cons.IH [OF s1(2,3)] Cons.prems(3) obtain s2 where
    s2: "config_old new is s1 = Inr s2" "log_inv s2" "unshared s2"
      "\<forall>j\<in>set is. ld_name j \<notin> ld_name ` set new \<longrightarrow> cleared (ld_name j) s2"
      "\<forall>n. n \<notin> ld_name ` set is - ld_name ` set new \<longrightarrow> keeps n s1 s2" by auto
  have "keeps (ld_name i) s1 s2" using s2(5) Cons.prems(3) by auto
  then have "?gone \<longrightarrow> cleared (ld_name i) s2" using s1(4) keeps_cleared by blast
  moreover have "keeps n s s2" if n: "n \<notin> ld_name ` set (i # is) - ld_name ` set new" for n
  proof (rule keeps_trans [of n s s1 s2])
    show "keeps n s s1" using s1(5) n by (cases "n = ld_name i") auto
    show "keeps n s1 s2" using s2(5) n by auto
  qed
  ultimately show ?case using s1(1) s2 by simp
qed

section \<open>Properties\<close>

lemma defines_ok_distinct: "defines_ok ds \<Longrightarrow> distinct (map ld_name ds)"
  by (simp add: defines_ok_def strict_sorted_iff)

lemma log_line:
  assumes "log_inv s" and "call_dates tstr (e_level ev) ev (e_logger ev) s" and "loggers s (e_logger ev) = Some x"
  shows "\<exists>s'. LIONET_LOG_LEVEL 1 tstr ev s = Some (Inr s') \<and> log_frame s s'"
  using log_call_writes [OF assms, of 0] assms(3)
  by (auto simp: LIONET_LOG_LEVEL_def LogEventWrap_delete_def get_logger_def log_frame_refl)

lemma manager_unshared: "LoggerManager_new o1 o2 wr = Inr s \<Longrightarrow> unshared s"
proof -
  have add: "loggers s' k = loggers s k" if "add_new_appender l x s = Inr s'" "k \<noteq> l" for l x k and s s' :: log_sys
    using that by (auto simp: add_new_appender_def Logger_addAppender_def Let_def res_bind_Inr_iff put_logger_def
        put_appender_def)
  have default: "loggers s' k = loggers s k" if "applyDefaultConfig l s = Inr s'" "k \<noteq> l" for l k and s s' :: log_sys
    using that(1) add [OF _ that(2)] by (auto simp: applyDefaultConfig_def res_bind_Inr_iff)
  assume "LoggerManager_new o1 o2 wr = Inr s"
  then have "loggers s k = None" if "k \<noteq> 0" for k
    using default [OF _ that] that by (auto simp: LoggerManager_new_def Let_def res_bind_Inr_iff)
  then show ?thesis unfolding unshared_def by (metis option.distinct(1))
qed

lemma unshared_frame: "log_frame s s' \<Longrightarrow> unshared s \<Longrightarrow> unshared s'"
  by (simp add: unshared_def log_frame_def)

lemma listener_spec:
  assumes "log_inv s" and "unshared s" and "call_dates tstr (e_level ev) ev (e_logger ev) s" and "loggers s (e_logger ev) \<noteq> None"
    and "defines_ok old" and "defines_ok new" and "\<forall>i\<in>set new. types_ok i"
  shows "\<exists>s'. on_logger_conf_changed tstr ev e old new s = Some (Inr s') \<and> log_inv s' \<and> unshared s' \<and>
    (\<forall>i\<in>set new. changed old i \<longrightarrow> configured (Env_has ''d'' e) i s') \<and>
    (\<forall>i\<in>set old. ld_name i \<notin> ld_name ` set new \<longrightarrow> cleared (ld_name i) s') \<and>
    (\<forall>n l. n \<notin> ld_name ` {i \<in> set new. changed old i} \<longrightarrow> n \<notin> ld_name ` set old - ld_name ` set new \<longrightarrow>
       map_of (m_loggers s) n = Some l \<longrightarrow> map_of (m_loggers s') n = Some l \<and> loggers s' l = loggers s l)"
proof -
  from assms(4) obtain x where "loggers s (e_logger ev) = Some x" by auto
  from log_line [OF assms(1,3) this] obtain s1 where
    s1: "LIONET_LOG_LEVEL 1 tstr ev s = Some (Inr s1)" "log_frame s s1" by blast
  from config_new_spec [OF log_inv_frame [OF assms(1) s1(2)] unshared_frame [OF s1(2) assms(2)]
      defines_ok_distinct [OF assms(6)] assms(7), of "Env_has ''d'' e" old]
  obtain s2 where s2: "config_new (Env_has ''d'' e) old new s1 = Inr s2" "log_inv s2" "unshared s2"
    "\<forall>i\<in>set new. changed old i \<longrightarrow> configured (Env_has ''d'' e) i s2"
    "\<forall>n. n \<notin> ld_name ` {i \<in> set new. changed old i} \<longrightarrow> keeps n s1 s2" by blast
  from config_old_spec [OF s2(2,3) defines_ok_distinct [OF assms(5)], of new]
  obtain s3 where s3: "config_old new old s2 = Inr s3" "log_inv s3" "unshared s3"
    "\<forall>i\<in>set old. ld_name i \<notin> ld_name ` set new \<longrightarrow> cleared (ld_name i) s3"
    "\<forall>n. n \<notin> ld_name ` set old - ld_name ` set new \<longrightarrow> keeps n s2 s3" by blast
  have "configured (Env_has ''d'' e) i s3" if "i \<in> set new" "changed old i" for i
    using s2(4) s3(5) that by (intro keeps_configured [of i s2 s3]) auto
  moreover have "map_of (m_loggers s3) n = Some l \<and> loggers s3 l = loggers s l"
    if n: "n \<notin> ld_name ` {i \<in> set new. changed old i}" "n \<notin> ld_name ` set old - ld_name ` set new"
      and l: "map_of (m_loggers s) n = Some l" for n l
  proof -
    have "keeps n s1 s3" using s2(5) s3(5) n by (blast intro: frame_ops)
    moreover from assms(1) l obtain z where "loggers s l = Some z" unfolding log_inv_def by blast
    ultimately show ?thesis using l s1(2) unfolding keeps_def log_frame_def by auto
  qed
  moreover have "on_logger_conf_changed tstr ev e old new s = Some (Inr s3)"
    using s1(1) s2(1) s3(1) by (simp add: on_logger_conf_changed_def)
  ultimately show ?thesis using s3(2-4) by blast
qed

text \<open>
  C16. A new value of \<open>logs\<close> is carried out: in every state of the logging system whose loggers share no
  appenders, when the dates of the line that the listener logs fit their buffer, the listener returns, and afterwards each
  definition that is new or not equal to the old
  one of its name describes its logger exactly, with the level, the formatter (where the pattern is
  valid) and one appender per definition of an appender, in order, of the given class, file, level and
  pattern; with the option \<open>-d\<close> the console appenders are left out. The loggers whose definition is gone
  have level 0 and no appender, and all the others are untouched.
\<close>

theorem logs_listener_applies:
  assumes "log_inv s" and "unshared s" and "call_dates tstr (e_level ev) ev (e_logger ev) s" and "loggers s (e_logger ev) \<noteq> None"
    and "defines_ok old" and "defines_ok new" and "\<forall>i\<in>set new. types_ok i"
  shows "\<exists>s'. on_logger_conf_changed tstr ev e old new s = Some (Inr s') \<and> log_inv s' \<and> unshared s' \<and>
    (\<forall>i\<in>set new. changed old i \<longrightarrow> configured (Env_has ''d'' e) i s') \<and>
    (\<forall>i\<in>set old. ld_name i \<notin> ld_name ` set new \<longrightarrow> cleared (ld_name i) s') \<and>
    (\<forall>n l. n \<notin> ld_name ` {i \<in> set new. changed old i} \<longrightarrow> n \<notin> ld_name ` set old - ld_name ` set new \<longrightarrow>
       map_of (m_loggers s) n = Some l \<longrightarrow> map_of (m_loggers s') n = Some l \<and> loggers s' l = loggers s l)"
  by (rule listener_spec [OF assms])

theorem logs_listener_applies_witness:
  "\<exists>s s'. LoggerManager_new (\<lambda>_. True) (\<lambda>_. True) (\<lambda>_. True) = Inr s \<and>
    on_logger_conf_changed demo_time (demo_event\<lparr>e_logger := 0\<rparr>) env_new [] [ex_define] s = Some (Inr s') \<and>
    configured False ex_define s'"
proof -
  obtain s where
    s: "LoggerManager_new (\<lambda>_. True) (\<lambda>_. True) (\<lambda>_. True) = Inr s" "log_inv s"
      "loggers s 0 = Some ((Logger_new ''root'')\<lparr>l_appenders := [1, 2, 3, 4]\<rparr>)"
    by (rule manager_starts) (use manager_sel in simp)
  have "unshared s" by (rule manager_unshared [OF s(1)])
  moreover have "call_dates demo_time (e_level demo_event) (demo_event\<lparr>e_logger := 0\<rparr>) 0 s"
    by (rule call_dates_total) (simp add: demo_time_def)
  moreover have "defines_ok [ex_define]" "defines_ok []" by (simp_all add: defines_ok_def)
  moreover have "types_ok ex_define" by (simp add: types_ok_def ex_define_def)
  ultimately have "\<exists>s'. on_logger_conf_changed demo_time (demo_event\<lparr>e_logger := 0\<rparr>) env_new [] [ex_define] s = Some (Inr s') \<and>
      (changed [] ex_define \<longrightarrow> configured (Env_has ''d'' env_new) ex_define s')"
    using logs_listener_applies [OF s(2), where tstr = demo_time and ev = "demo_event\<lparr>e_logger := 0\<rparr>" and old = "[]"
        and new = "[ex_define]" and e = env_new] s(3)
    by fastforce
  moreover have "changed [] ex_define" "Env_has ''d'' env_new = False"
    by (simp_all add: changed_def find_define_def Env_has_def env_new_def)
  ultimately show ?thesis using s(1) by auto
qed

text \<open>
  A change of the appenders only is lost: \<open>operator==\<close> of \<open>LogDefine\<close> compares the appenders of one side
  with themselves, so \<open>setValue\<close> takes a value that differs only there for the old one; it calls no
  listener and keeps the old value.
\<close>

theorem appender_changes_lost:
  assumes "list_all2 (\<lambda>d d'. ld_name d = ld_name d' \<and> ld_level d = ld_level d' \<and> ld_formatter d = ld_formatter d') v (cv_val x)"
  shows "setValue (list_all2 LogDefine_eq) v x = ([], Inr x)"
proof -
  have "list_all2 LogAppenderDefine_eq as as" for as
    by (auto simp: LogAppenderDefine_eq_def intro: list.rel_refl)
  then have "list_all2 LogDefine_eq v (cv_val x)"
    using assms by (auto simp: LogDefine_eq_def elim!: list.rel_mono_strong)
  then show ?thesis by (simp add: setValue_def)
qed

theorem appender_changes_lost_witness:
  "setValue (list_all2 LogDefine_eq) [ex_define\<lparr>ld_appenders := []\<rparr>]
     \<lparr>cv_name = ''logs'', cv_description = '''', cv_type = ''std::set<LogDefine>'', cv_val = [ex_define], cv_cbs = []\<rparr> =
   ([], Inr \<lparr>cv_name = ''logs'', cv_description = '''', cv_type = ''std::set<LogDefine>'', cv_val = [ex_define], cv_cbs = []\<rparr>)"
  by (rule appender_changes_lost) simp

end
