(* ===== verification/ConfigRun.thy ===== *)
theory ConfigRun imports LogConfig begin

text \<open>
  \<open>setValue\<close>, \<open>fromString\<close> and \<open>LoadFromYaml\<close> of \<open>LioNet/config.h\<close> and \<open>config.cc\<close> with listeners that act: a listener
  is a function on the state of the process. The operations of theory ConfigModel are the instance whose listeners
  only record that they are called. The listener that \<open>LogIniter\<close> of \<open>log.cc\<close> adds is such a function, and the
  registry holds it.
\<close>

section \<open>Listeners that act\<close>

text \<open>
  What a listener does to the state \<open>'s\<close>, and how it ends: it returns, or throws an exception that derives from
  \<open>std::exception\<close> or another one. A fault ends the program.
\<close>

datatype outcome = Returned | Std_exception | Other_exception

type_synonym ('v, 's) action = "'v \<Rightarrow> 'v \<Rightarrow> 's \<Rightarrow> ('s \<times> outcome) res"

fun notify_run :: "'v \<Rightarrow> 'v \<Rightarrow> (64 word \<times> ('v, 's) action option) list \<Rightarrow> 's \<Rightarrow> ('s \<times> outcome) res" where
  "notify_run old new [] s = Inr (s, Returned)"
| "notify_run old new ((k, cb) # cbs) s =
     (case cb of
        None \<Rightarrow> Inr (s, Std_exception)
      | Some f \<Rightarrow> res_bind (f old new s) (\<lambda>(s1, r). if r = Returned then notify_run old new cbs s1 else Inr (s1, r)))"

definition setValue_run ::
    "('v \<Rightarrow> 'v \<Rightarrow> bool) \<Rightarrow> 'v \<Rightarrow> ('v, ('v, 's) action) config_var \<times> 's \<Rightarrow>
     ((('v, ('v, 's) action) config_var \<times> 's) \<times> outcome) res" where
  "setValue_run eqv v p =
     (let (x, s) = p
      in if eqv v (cv_val x) then Inr (p, Returned)
         else res_bind (notify_run (cv_val x) v (cv_cbs x) s) (\<lambda>(s1, r).
           Inr ((if r = Returned then x\<lparr>cv_val := v\<rparr> else x, s1), r)))"

text \<open>
  \<open>fromString\<close> catches \<open>std::exception\<close>, from which all exceptions of the conversions derive: the result is what it
  returns, or \<open>None\<close> when another exception leaves it.
\<close>

definition fromString_run ::
    "(string \<Rightarrow> 'v res) \<Rightarrow> ('v \<Rightarrow> 'v \<Rightarrow> bool) \<Rightarrow> string \<Rightarrow> ('v, ('v, 's) action) config_var \<times> 's \<Rightarrow>
     ((('v, ('v, 's) action) config_var \<times> 's) \<times> bool option) res" where
  "fromString_run from_str eqv val p = (case from_str val of
       Inl (Thrown _) \<Rightarrow> Inr (p, Some False)
     | Inl err \<Rightarrow> Inl err
     | Inr v \<Rightarrow> res_bind (setValue_run eqv v p) (\<lambda>(p1, r).
         Inr (p1, case r of Returned \<Rightarrow> Some True | Std_exception \<Rightarrow> Some False | Other_exception \<Rightarrow> None)))"

text \<open>The loop of \<open>LoadFromYaml\<close>, with whether it goes on or an exception leaves it.\<close>

definition load_entry_run ::
    "(ynode \<Rightarrow> string) \<Rightarrow> (string \<Rightarrow> string \<Rightarrow> 'v res) \<Rightarrow> (string \<Rightarrow> 'v \<Rightarrow> 'v \<Rightarrow> bool) \<Rightarrow> string \<times> ynode \<Rightarrow>
     ('v, ('v, 's) action) datas \<times> 's \<Rightarrow> ((('v, ('v, 's) action) datas \<times> 's) \<times> bool) res" where
  "load_entry_run emit from_str eqv i p =
     (let (key0, nd) = i; (ds, s) = p
      in if key0 = '''' then Inr (p, True)
         else (let key = map to_lower key0
               in case LookupBase key ds of
                    None \<Rightarrow> Inr (p, True)
                  | Some x \<Rightarrow>
                      (let text = (case nd of YScalar t \<Rightarrow> t | _ \<Rightarrow> emit nd)
                       in res_bind (fromString_run (from_str (cv_type x)) (eqv (cv_type x)) text (x, s)) (\<lambda>((x1, s1), r).
                            Inr ((put_data key x1 ds, s1), r \<noteq> None)))))"

fun load_entries_run ::
    "(ynode \<Rightarrow> string) \<Rightarrow> (string \<Rightarrow> string \<Rightarrow> 'v res) \<Rightarrow> (string \<Rightarrow> 'v \<Rightarrow> 'v \<Rightarrow> bool) \<Rightarrow> (string \<times> ynode) list \<Rightarrow>
     ('v, ('v, 's) action) datas \<times> 's \<Rightarrow> ((('v, ('v, 's) action) datas \<times> 's) \<times> bool) res" where
  "load_entries_run emit from_str eqv [] p = Inr (p, True)"
| "load_entries_run emit from_str eqv (i # is) p =
     res_bind (load_entry_run emit from_str eqv i p) (\<lambda>(p1, ok).
       if ok then load_entries_run emit from_str eqv is p1 else Inr (p1, False))"

definition LoadFromYaml_run ::
    "(ynode \<Rightarrow> string) \<Rightarrow> (string \<Rightarrow> string \<Rightarrow> 'v res) \<Rightarrow> (string \<Rightarrow> 'v \<Rightarrow> 'v \<Rightarrow> bool) \<Rightarrow> ynode \<Rightarrow>
     ('v, ('v, 's) action) datas \<times> 's \<Rightarrow> ((('v, ('v, 's) action) datas \<times> 's) \<times> bool) res" where
  "LoadFromYaml_run emit from_str eqv root p = load_entries_run emit from_str eqv (ListAllMember '''' root) p"

section \<open>The listeners of ConfigModel as an instance\<close>

text \<open>A listener that records its call, on the list of the calls made.\<close>

definition recording :: "64 word \<Rightarrow> 'v on_change_cb \<Rightarrow> ('v, 'v notification list) action" where
  "recording k f old new ns = Inr (ns @ [(k, old, new)], if f old new then Returned else Std_exception)"

definition recorded :: "('v, 'v on_change_cb) config_var \<Rightarrow> ('v, ('v, 'v notification list) action) config_var" where
  "recorded x = \<lparr>cv_name = cv_name x, cv_description = cv_description x, cv_type = cv_type x, cv_val = cv_val x,
     cv_cbs = map (\<lambda>(k, cb). (k, map_option (recording k) cb)) (cv_cbs x)\<rparr>"

lemma notify_recorded:
  "notify_run old new (map (\<lambda>(k, cb). (k, map_option (recording k) cb)) cbs) ns =
     Inr (ns @ fst (notify old new cbs), if snd (notify old new cbs) then Returned else Std_exception)"
proof (induction cbs arbitrary: ns)
  case (Cons c cbs)
  then show ?case
    by (cases c; cases "snd c") (auto simp: recording_def split: prod.splits)
qed simp

lemma setValue_recorded:
  "setValue_run eqv v (recorded x, ns) = (case setValue eqv v x of
      (ms, Inl _) \<Rightarrow> Inr ((recorded x, ns @ ms), Std_exception)
    | (ms, Inr x') \<Rightarrow> Inr ((recorded x', ns @ ms), Returned))"
  by (cases "eqv v (cv_val x)"; cases "snd (notify (cv_val x) v (cv_cbs x))")
    (auto simp: setValue_run_def setValue_def recorded_def notify_recorded split: prod.splits)

lemma fromString_recorded:
  assumes "\<forall>e. from_str val = Inl e \<longrightarrow> (\<exists>m. e = Thrown m)"
  shows "fromString_run from_str eqv val (recorded x, ns) = (case ConfigVar_fromString from_str eqv val x of
      (ok, ms, x') \<Rightarrow> Inr ((recorded x', ns @ ms), Some ok))"
  using assms
  by (cases "from_str val")
    (auto simp: fromString_run_def ConfigVar_fromString_def setValue_recorded split: prod.splits sum.splits)

section \<open>The listener of the loggers\<close>

text \<open>The values of the two variables of the library, with their conversions and \<open>operator==\<close>; \<open>cast\<close> is \<open>boost::lexical_cast\<close>.\<close>

datatype conf_value = UInt32 "32 word" | LogDefines "log_define list"

definition conf_from_str where
  "conf_from_str cast yload yemit idx yas mnode type val =
     (if type = ''std::set<LogDefine>''
      then res_bind (LogDefine_set_from_str yload yemit idx yas mnode val) (\<lambda>ds. Inr (LogDefines ds))
      else res_bind (cast val) (\<lambda>n. Inr (UInt32 n)))"

fun conf_eq :: "conf_value \<Rightarrow> conf_value \<Rightarrow> bool" where
  "conf_eq (UInt32 a) (UInt32 b) \<longleftrightarrow> a = b"
| "conf_eq (LogDefines as) (LogDefines bs) \<longleftrightarrow> list_all2 LogDefine_eq as bs"
| "conf_eq _ _ \<longleftrightarrow> False"

text \<open>What the listener works on: the environment, the event of the line that it logs, the loggers.\<close>

record process =
  pr_env :: env
  pr_event :: log_event
  pr_logs :: log_sys

text \<open>
  The function that \<open>LogIniter\<close> adds to the variable \<open>logs\<close>. One level of roots is enough fuel for its line
  (\<open>log_line\<close>); its type leaves no values but sets of definitions.
\<close>

definition LogIniter_listener :: "time_str \<Rightarrow> (conf_value, process) action" where
  "LogIniter_listener tstr old new p = (case (old, new) of
       (LogDefines old_value, LogDefines new_value) \<Rightarrow>
         (case on_logger_conf_changed tstr (pr_event p) (pr_env p) old_value new_value (pr_logs p) of
            None \<Rightarrow> Inl (Thrown ''fuel'')
          | Some r \<Rightarrow> res_bind r (\<lambda>s. Inr (p\<lparr>pr_logs := s\<rparr>, Returned)))
     | _ \<Rightarrow> Inl (Thrown ''type''))"

section \<open>Loading a document\<close>

text \<open>
  An entry that leaves the state alone: it names no variable, or one whose conversion at most throws a \<open>std::exception\<close>
  and whose listeners do not touch the state and throw nothing else.
\<close>

definition idle :: "(64 word \<times> ('v, 's) action option) list \<Rightarrow> bool" where
  "idle cbs \<longleftrightarrow> (\<forall>k f. (k, Some f) \<in> set cbs \<longrightarrow>
     (\<forall>old new s. \<exists>r. f old new s = Inr (s, r) \<and> r \<noteq> Other_exception))"

definition harmless where
  "harmless emit from_str ds i \<longleftrightarrow> (case map_of ds (fst i) of
       None \<Rightarrow> True
     | Some x \<Rightarrow> (\<forall>err. from_str (cv_type x) (entry_text emit (snd i)) = Inl err \<longrightarrow> (\<exists>m. err = Thrown m)) \<and> idle (cv_cbs x))"

text \<open>A registry with the same variables, of the same types and with the same listeners.\<close>

definition same_vars :: "('v, 'cb) datas \<Rightarrow> ('v, 'cb) datas \<Rightarrow> bool" where
  "same_vars ds ds' \<longleftrightarrow>
     (\<forall>n. map_option (\<lambda>x. (cv_type x, cv_cbs x)) (map_of ds' n) = map_option (\<lambda>x. (cv_type x, cv_cbs x)) (map_of ds n))"

lemma same_vars_refl: "same_vars ds ds" by (simp add: same_vars_def)

lemma harmless_same: "same_vars ds ds' \<Longrightarrow> harmless emit from_str ds' i \<longleftrightarrow> harmless emit from_str ds i"
  unfolding same_vars_def harmless_def by (drule spec [of _ "fst i"]) (auto split: option.splits)

lemma notify_harmless:
  assumes "idle cbs"
  shows "\<exists>r. notify_run old new cbs s = Inr (s, r) \<and> r \<noteq> Other_exception"
  using assms
proof (induction cbs)
  case (Cons c cbs)
  obtain k cb where c: "c = (k, cb)" by (cases c)
  show ?case
  proof (cases cb)
    case (Some f)
    with Cons.prems c obtain r where "f old new s = Inr (s, r)" "r \<noteq> Other_exception"
      unfolding idle_def by (meson list.set_intros(1))
    moreover have "idle cbs" using Cons.prems by (auto simp: idle_def)
    ultimately show ?thesis using Cons.IH c Some by auto
  qed (simp add: c)
qed simp

lemma fromString_harmless:
  assumes "\<forall>err. from_str val = Inl err \<longrightarrow> (\<exists>m. err = Thrown m)"
    and "idle (cv_cbs x)"
  shows "\<exists>x' b. fromString_run from_str eqv val (x, s) = Inr ((x', s), Some b) \<and> cv_type x' = cv_type x \<and> cv_cbs x' = cv_cbs x"
proof (cases "from_str val")
  case (Inl err)
  with assms(1) show ?thesis by (auto simp: fromString_run_def)
next
  case (Inr v)
  from notify_harmless [OF assms(2), of "cv_val x" v s] obtain r where
    "notify_run (cv_val x) v (cv_cbs x) s = Inr (s, r)" "r \<noteq> Other_exception" by blast
  with Inr show ?thesis by (cases r) (auto simp: fromString_run_def setValue_run_def)
qed

lemma load_harmless_entry:
  assumes "harmless emit from_str ds (key, nd)" and "name_ok key" and "key \<noteq> n"
  shows "\<exists>ds'. load_entry_run emit from_str eqv (key, nd) (ds, s) = Inr ((ds', s), True) \<and> same_vars ds ds' \<and>
    map_of ds' n = map_of ds n"
proof (cases "key = '''' \<or> map_of ds key = None")
  case True
  then show ?thesis
    using same_vars_refl [of ds] by (auto simp: load_entry_run_def LookupBase_def name_ok_lower [OF assms(2)] Let_def)
next
  case False
  then obtain x where x: "map_of ds key = Some x" by auto
  from fromString_harmless [of "from_str (cv_type x)" "entry_text emit nd" x "eqv (cv_type x)" s] assms(1) x obtain x' b where
    f: "fromString_run (from_str (cv_type x)) (eqv (cv_type x)) (entry_text emit nd) (x, s) = Inr ((x', s), Some b)"
    "cv_type x' = cv_type x" "cv_cbs x' = cv_cbs x" by (auto simp: harmless_def)
  have "load_entry_run emit from_str eqv (key, nd) (ds, s) = Inr ((put_data key x' ds, s), True)"
    using False x f(1)
    by (simp add: load_entry_run_def LookupBase_def name_ok_lower [OF assms(2)] Let_def entry_text_def)
  moreover have "same_vars ds (put_data key x' ds)" using x f(2,3) by (simp add: same_vars_def put_data_map_of)
  ultimately show ?thesis using assms(3) by (simp add: put_data_map_of)
qed

lemma load_harmless:
  assumes "\<forall>i\<in>set es. harmless emit from_str ds i \<and> name_ok (fst i) \<and> fst i \<noteq> n"
  shows "\<exists>ds'. load_entries_run emit from_str eqv es (ds, s) = Inr ((ds', s), True) \<and> same_vars ds ds' \<and>
    map_of ds' n = map_of ds n"
  using assms
proof (induction es arbitrary: ds)
  case (Cons i es)
  obtain key nd where i: "i = (key, nd)" by (cases i)
  from load_harmless_entry [of emit from_str ds key nd n eqv s] Cons.prems i obtain ds1 where
    1: "load_entry_run emit from_str eqv (key, nd) (ds, s) = Inr ((ds1, s), True)" "same_vars ds ds1" "map_of ds1 n = map_of ds n"
    by auto
  from Cons.IH [of ds1] Cons.prems harmless_same [OF 1(2), of emit from_str] obtain ds2 where
    "load_entries_run emit from_str eqv es (ds1, s) = Inr ((ds2, s), True)" "same_vars ds1 ds2" "map_of ds2 n = map_of ds1 n"
    by auto
  with 1 i show ?case by (auto simp: same_vars_def)
qed (simp add: same_vars_refl)

lemma load_entries_append:
  "load_entries_run emit from_str eqv (is @ js) p =
     res_bind (load_entries_run emit from_str eqv is p) (\<lambda>(p1, ok).
       if ok then load_entries_run emit from_str eqv js p1 else Inr (p1, False))"
proof (induction "is" arbitrary: p)
  case (Cons i "is")
  show ?case
  proof (cases "load_entry_run emit from_str eqv i p")
    case (Inr q)
    obtain p1 ok where "q = (p1, ok)" by (cases q)
    with Inr Cons show ?thesis by (cases ok) auto
  qed simp
qed simp

text \<open>The entry of one variable among harmless ones.\<close>

lemma load_one_run:
  assumes "ListAllMember '''' root = es1 @ (key, nd) # es2" and "key \<noteq> ''''"
    and "key \<notin> fst ` set es1" and "key \<notin> fst ` set es2" and "map_of ds key = Some x"
    and "\<forall>i\<in>set (es1 @ es2). harmless emit from_str ds i"
    and "fromString_run (from_str (cv_type x)) (eqv (cv_type x)) (entry_text emit nd) (x, s) = Inr ((x', s'), Some b)"
    and "cv_type x' = cv_type x" and "cv_cbs x' = cv_cbs x"
  shows "\<exists>ds'. LoadFromYaml_run emit from_str eqv root (ds, s) = Inr ((ds', s'), True) \<and> map_of ds' key = Some x'"
proof -
  have ok: "name_ok (fst i)" if "i \<in> set (es1 @ (key, nd) # es2)" for i
    using ListAllMember_ok [of "fst i" "snd i" "''''" root] that assms(1) by simp
  have "\<forall>i\<in>set es1. harmless emit from_str ds i \<and> name_ok (fst i) \<and> fst i \<noteq> key"
    using assms(3,6) ok by (auto simp: image_iff)
  from load_harmless [OF this, of eqv s] obtain ds1 where
    1: "load_entries_run emit from_str eqv es1 (ds, s) = Inr ((ds1, s), True)" "same_vars ds ds1" "map_of ds1 key = map_of ds key"
    by blast
  have lower: "map to_lower key = key" using ok [of "(key, nd)"] by (simp add: name_ok_lower)
  let ?ds = "put_data key x' ds1"
  have 2: "load_entry_run emit from_str eqv (key, nd) (ds1, s) = Inr ((?ds, s'), True)"
    using assms(2,5,7) 1(3) by (simp add: load_entry_run_def LookupBase_def lower Let_def entry_text_def)
  have "same_vars ds ?ds"
    using 1(2) assms(5,8,9) by (simp add: same_vars_def put_data_map_of)
  then have "\<forall>i\<in>set es2. harmless emit from_str ?ds i \<and> name_ok (fst i) \<and> fst i \<noteq> key"
    using assms(4,6) ok by (auto simp: image_iff harmless_same)
  from load_harmless [OF this, of eqv s'] obtain ds2 where
    "load_entries_run emit from_str eqv es2 (?ds, s') = Inr ((ds2, s'), True)" "map_of ds2 key = map_of ?ds key" by blast
  with 1(1) 2 show ?thesis
    by (simp add: LoadFromYaml_run_def assms(1) load_entries_append put_data_map_of)
qed

section \<open>Reading the definitions\<close>

text \<open>The set that a sequence of definitions is read as: ordered by name, the first one of each name.\<close>

definition defines_read :: "log_define list \<Rightarrow> log_define list" where
  "defines_read ds = fold (oset_insert LogDefine_lt) (map plain_define ds) []"

lemma set_oset_insert: "set (oset_insert lt x xs) \<subseteq> insert x (set xs)"
  by (induction xs) auto

lemma oset_insert_defines_ok: "defines_ok ds \<Longrightarrow> defines_ok (oset_insert LogDefine_lt d ds)"
proof (induction ds)
  case (Cons y ds)
  have "defines_ok ds" "\<forall>z\<in>set ds. ld_name y < ld_name z" using Cons.prems by (auto simp: defines_ok_def)
  with Cons show ?case
    using set_oset_insert [of LogDefine_lt d ds] by (fastforce simp: defines_ok_def LogDefine_lt_def [abs_def])
qed (simp add: defines_ok_def)

lemma fold_defines_ok:
  "defines_ok acc \<Longrightarrow> defines_ok (fold (oset_insert LogDefine_lt) ds acc) \<and>
     set (fold (oset_insert LogDefine_lt) ds acc) \<subseteq> set ds \<union> set acc"
proof (induction ds arbitrary: acc)
  case (Cons d ds)
  from Cons.IH [OF oset_insert_defines_ok [OF Cons.prems, of d]] show ?case
    using set_oset_insert [of LogDefine_lt d acc] by auto
qed simp

lemma defines_read_ok:
  assumes "\<forall>d\<in>set ds. types_ok d"
  shows "defines_ok (defines_read ds)" and "\<forall>d\<in>set (defines_read ds). types_ok d"
proof -
  have "types_ok (plain_define d)" if "types_ok d" for d
    using that by (auto simp: types_ok_def plain_define_def plain_appender_def)
  with assms fold_defines_ok [of "[]" "map plain_define ds"]
  show "defines_ok (defines_read ds)" "\<forall>d\<in>set (defines_read ds). types_ok d"
    by (auto simp: defines_read_def defines_ok_def)
qed

lemma defines_read_back:
  assumes "yaml_reads_back yload yemit" and "yas_scalar yas" and "\<forall>d\<in>set ds. types_ok d"
  shows "LogDefine_set_from_str yload yemit idx yas mnode (yemit (YSeq (map LogDefine_node ds))) = Inr (defines_read ds)"
proof -
  have "read_elems (LogDefine_from_str yload yas mnode) ins (map yemit (map LogDefine_node ds)) acc =
      Inr (fold ins (map plain_define ds) acc)" for ins and acc :: "log_define list"
    using assms(3) by (induction ds arbitrary: acc) (simp_all add: LogDefine_reads_back [OF assms(1,2)])
  moreover have "yload (yemit (YSeq (map LogDefine_node ds))) = Inr (YSeq (map LogDefine_node ds))"
    using assms(1) by (simp add: yaml_reads_back_def)
  ultimately show ?thesis by (simp add: LogDefine_set_from_str_def set_from_str_def elem_texts_def defines_read_def)
qed

end
