(* ===== verification/ConfigDir.thy ===== *)
theory ConfigDir imports EnvModel UtilDir begin

text \<open>
  \<open>Config::LoadFromConfDir\<close> of \<open>LioNet/config.cc\<close> as a whole: the path made absolute by the environment,
  the \<open>.yml\<close> files below it, and the loop over them.
\<close>

definition yml_files :: "(string \<Rightarrow> fsnode option) \<Rightarrow> string \<Rightarrow> string list" where
  "yml_files dir_at path = (case dir_at path of None \<Rightarrow> [] | Some nd \<Rightarrow> ListAllFile ''.yml'' path nd [])"

text \<open>\<open>dir_at\<close> is what the file system has at a path; \<open>seen\<close> is \<open>s_file2modifytime\<close>.\<close>

definition LoadFromConfDir ::
    "(ynode \<Rightarrow> string) \<Rightarrow> (string \<Rightarrow> string \<Rightarrow> 'v res) \<Rightarrow> (string \<Rightarrow> 'v \<Rightarrow> 'v \<Rightarrow> bool) \<Rightarrow>
     (string \<Rightarrow> fsnode option) \<Rightarrow> (string \<Rightarrow> 64 word option) \<Rightarrow> (string \<Rightarrow> ynode option) \<Rightarrow> env \<Rightarrow>
     string \<Rightarrow> bool \<Rightarrow> (string \<Rightarrow> 64 word) \<Rightarrow> (string \<times> 'v notification) list \<times> ('v, 'v on_change_cb) datas \<Rightarrow>
     ((string \<Rightarrow> 64 word) \<times> (string \<times> 'v notification) list \<times> ('v, 'v on_change_cb) datas) res" where
  "LoadFromConfDir emit from_str eqv dir_at mtime load_file e path force seen s =
     (let absolute_path = getAbsolutePath path e;
          files = yml_files dir_at absolute_path
      in conf_files_loop emit from_str eqv mtime load_file force files seen s)"

text \<open>The effect of the files, each loaded once, with a file that cannot be parsed left out.\<close>

definition load_files where
  "load_files emit from_str eqv load_file fs s =
     fold (\<lambda>f s. case load_file f of None \<Rightarrow> s | Some root \<Rightarrow> LoadFromYaml emit from_str eqv root s) fs s"

lemma yml_files_filter:
  "dir_at path = Some nd \<Longrightarrow> yml_files dir_at path = filter (suffix ''.yml'') (all_files path nd)"
  by (simp add: yml_files_def ListAllFile_filter(1))

section \<open>Properties\<close>

text \<open>
  C31. One pass of \<open>LoadFromConfDir\<close> loads, in directory order, the regular files below the directory whose name
  ends in \<open>.yml\<close> and whose modification time is not the one recorded for them, or all of them with \<open>force\<close>; a file
  that cannot be parsed is passed over. It records the times of all of them. So a later pass without \<open>force\<close> loads
  exactly the files that were modified in between, whatever the others now hold: as the time is recorded
  before the file is parsed, a file whose parse failed is not tried again until it is modified.
  The paths of a directory are distinct, and \<open>lstat\<close> succeeds on them.
\<close>

theorem LoadFromConfDir_loads_once:
  assumes "dir_at (getAbsolutePath path e) = Some nd"
    and "fs = filter (suffix ''.yml'') (all_files (getAbsolutePath path e) nd)" and "distinct fs"
    and "\<forall>f\<in>set fs. mtime f \<noteq> None"
  shows "\<exists>seen'. LoadFromConfDir emit from_str eqv dir_at mtime load_file e path force seen s =
      Inr (seen', load_files emit from_str eqv load_file (filter (\<lambda>f. force \<or> seen f \<noteq> the (mtime f)) fs) s) \<and>
    (\<forall>f. seen' f = (if f \<in> set fs then the (mtime f) else seen f)) \<and>
    (\<forall>mtime' load_file' s'. (\<forall>f\<in>set fs. mtime' f \<noteq> None) \<longrightarrow>
      (\<exists>seen''. LoadFromConfDir emit from_str eqv dir_at mtime' load_file' e path False seen' s' =
         Inr (seen'', load_files emit from_str eqv load_file' (filter (\<lambda>f. mtime' f \<noteq> mtime f) fs) s')))"
proof -
  have l: "LoadFromConfDir emit from_str eqv dir_at mt lf e path fc sn t =
      conf_files_loop emit from_str eqv mt lf fc fs sn t" for mt lf fc sn t
    by (simp add: LoadFromConfDir_def Let_def yml_files_filter [where dir_at = dir_at, OF assms(1)] assms(2))
  have pass: "\<exists>sn'. LoadFromConfDir emit from_str eqv dir_at mt lf e path fc sn t =
      Inr (sn', load_files emit from_str eqv lf (filter (\<lambda>f. fc \<or> sn f \<noteq> the (mt f)) fs) t) \<and>
      (\<forall>f. sn' f = (if f \<in> set fs then the (mt f) else sn f))" if "\<forall>f\<in>set fs. mt f \<noteq> None" for mt lf fc sn t
    using conf_files_due [OF that, of fc emit from_str eqv lf sn t] assms(3)
      conf_files_times [OF that, of emit from_str eqv lf fc sn t]
    unfolding l load_files_def by fastforce
  from pass [OF assms(4)] obtain seen' where seen': "LoadFromConfDir emit from_str eqv dir_at mtime load_file e path force seen s =
      Inr (seen', load_files emit from_str eqv load_file (filter (\<lambda>f. force \<or> seen f \<noteq> the (mtime f)) fs) s)"
      "\<forall>f. seen' f = (if f \<in> set fs then the (mtime f) else seen f)" by blast
  have due: "filter (\<lambda>f. False \<or> seen' f \<noteq> the (mtime' f)) fs = filter (\<lambda>f. mtime' f \<noteq> mtime f) fs"
    if "\<forall>f\<in>set fs. mtime' f \<noteq> None" for mtime'
    using that assms(4) seen'(2) by (intro filter_cong) fastforce+
  have "\<exists>seen''. LoadFromConfDir emit from_str eqv dir_at mtime' load_file' e path False seen' s' =
      Inr (seen'', load_files emit from_str eqv load_file' (filter (\<lambda>f. mtime' f \<noteq> mtime f) fs) s')"
    if "\<forall>f\<in>set fs. mtime' f \<noteq> None" for mtime' load_file' s'
    using pass [OF that, of load_file' False seen' s'] unfolding due [OF that] by blast
  with seen' show ?thesis by blast
qed

theorem LoadFromConfDir_loads_once_witness:
  "\<exists>seen' seen''. LoadFromConfDir (\<lambda>_. '''') (\<lambda>_ s. Inr (length s)) (\<lambda>_. (=)) (\<lambda>_. Some demo_dir) (\<lambda>_. Some 7)
      (\<lambda>_. Some (YMap [(''a'', YScalar ''xyz'')])) env_new ''/c'' False (\<lambda>f. if f = ''/c/a.yml'' then 7 else 0)
      ([], [(''a'', demo_var\<lparr>cv_cbs := []\<rparr>)]) = Inr (seen', [], [(''a'', demo_var\<lparr>cv_cbs := [], cv_val := 3\<rparr>)]) \<and>
    LoadFromConfDir (\<lambda>_. '''') (\<lambda>_ s. Inr (length s)) (\<lambda>_. (=)) (\<lambda>_. Some demo_dir)
      (\<lambda>f. if f = ''/c/a.yml'' then Some 9 else Some 7) (\<lambda>_. Some (YMap [(''a'', YScalar ''abcd'')])) env_new ''/c'' False
      seen' ([], [(''a'', demo_var\<lparr>cv_cbs := []\<rparr>)]) = Inr (seen'', [], [(''a'', demo_var\<lparr>cv_cbs := [], cv_val := 4\<rparr>)])"
proof -
  let ?fs = "[''/c/a.yml'', ''/c/sub/c.yml'']" and ?s = "([], [(''a'', demo_var\<lparr>cv_cbs := []\<rparr>)])"
  let ?lf = "\<lambda>_. Some (YMap [(''a'', YScalar ''xyz'')])" and ?lf' = "\<lambda>_. Some (YMap [(''a'', YScalar ''abcd'')])"
  let ?mt = "\<lambda>f. if f = ''/c/a.yml'' then Some 9 else Some (7 :: 64 word)"
  have f: "?fs = filter (suffix ''.yml'') (all_files (getAbsolutePath ''/c'' env_new) demo_dir)"
    by (simp add: demo_dir_def is_dot_def suffix_def getAbsolutePath_def)
  have low: "to_lower CHR ''a'' = CHR ''a''" by code_simp
  have load: "load_files (\<lambda>_. '''') (\<lambda>_ s. Inr (length s)) (\<lambda>_. (=)) lf [g] ?s =
      ([], [(''a'', demo_var\<lparr>cv_cbs := [], cv_val := length x\<rparr>)])"
    if "lf g = Some (YMap [(''a'', YScalar x)])" "x \<noteq> []" for lf :: "string \<Rightarrow> ynode option" and g x
    using that by (simp add: low load_files_def LoadFromYaml_def ListAllMember.simps name_ok_iff name_ok_def valid_name_chars_def
        load_entry_def LookupBase_def ConfigVar_fromString_def setValue_def demo_var_def)
  have t: "\<forall>g\<in>set ?fs. (\<lambda>_. Some (7 :: 64 word)) g \<noteq> None" "\<forall>g\<in>set ?fs. ?mt g \<noteq> None" by simp_all
  from LoadFromConfDir_loads_once [where dir_at = "\<lambda>_. Some demo_dir", OF refl f _ t(1),
      of "\<lambda>_. ''''" "\<lambda>_ s. Inr (length s)" "\<lambda>_. (=)" ?lf False "\<lambda>f. if f = ''/c/a.yml'' then 7 else 0" ?s]
  obtain seen' where s: "LoadFromConfDir (\<lambda>_. '''') (\<lambda>_ s. Inr (length s)) (\<lambda>_. (=)) (\<lambda>_. Some demo_dir) (\<lambda>_. Some 7)
      ?lf env_new ''/c'' False (\<lambda>f. if f = ''/c/a.yml'' then 7 else 0) ?s =
      Inr (seen', load_files (\<lambda>_. '''') (\<lambda>_ s. Inr (length s)) (\<lambda>_. (=)) ?lf [''/c/sub/c.yml''] ?s)"
    and again: "\<And>mtime' load_file' s'. (\<forall>f\<in>set ?fs. mtime' f \<noteq> None) \<Longrightarrow>
      (\<exists>seen''. LoadFromConfDir (\<lambda>_. '''') (\<lambda>_ s. Inr (length s)) (\<lambda>_. (=)) (\<lambda>_. Some demo_dir) mtime' load_file' env_new ''/c''
         False seen' s' = Inr (seen'', load_files (\<lambda>_. '''') (\<lambda>_ s. Inr (length s)) (\<lambda>_. (=)) load_file'
           (filter (\<lambda>f. mtime' f \<noteq> Some 7) ?fs) s'))"
    by auto
  from again [OF t(2), of ?lf' ?s] s load [of ?lf "''/c/sub/c.yml''" "''xyz''"] load [of ?lf' "''/c/a.yml''" "''abcd''"]
  show ?thesis by auto
qed

end

