(* ===== verification/SingletonModel.thy ===== *)
theory SingletonModel imports Prelude begin

text \<open>
  \<open>LioNet/singleton.h\<close>: \<open>GetInstance\<close> of \<open>Singleton\<close> and \<open>SingletonPtr\<close>. The static object of an instance of
  a template is made by the first call; an exception of its constructor leaves it unmade, for the next
  call to try again.
\<close>

text \<open>An instance of the template: the type \<open>T\<close>, the tag \<open>X\<close> and the index \<open>N\<close>. It names the static object, and is its address.\<close>

type_synonym instance_id = "string \<times> string \<times> int"

type_synonym 'v statics = "instance_id \<Rightarrow> 'v option"

definition Singleton_GetInstance :: "'v res \<Rightarrow> instance_id \<Rightarrow> 'v statics \<Rightarrow> (instance_id \<times> 'v statics) res" where
  "Singleton_GetInstance ctor k st = (case st k of
       Some v \<Rightarrow> Inr (k, st)
     | None \<Rightarrow> res_bind ctor (\<lambda>v. Inr (k, st(k \<mapsto> v))))"

text \<open>\<open>SingletonPtr\<close>: the static object is a pointer to an object that \<open>new\<close> puts on the heap \<open>h\<close>.\<close>

definition SingletonPtr_GetInstance ::
    "('h \<Rightarrow> (nat \<times> 'h) res) \<Rightarrow> instance_id \<Rightarrow> nat statics \<times> 'h \<Rightarrow> (nat \<times> nat statics \<times> 'h) res" where
  "SingletonPtr_GetInstance new k s =
     (let (st, h) = s
      in case st k of
           Some p \<Rightarrow> Inr (p, st, h)
         | None \<Rightarrow> res_bind (new h) (\<lambda>(p, h'). Inr (p, st(k \<mapsto> p), h')))"

text \<open>After one call has returned, further calls return the same pointer and construct nothing.\<close>

lemma Singleton_again:
  "Singleton_GetInstance ctor k st = Inr (p, st') \<Longrightarrow> p = k \<and> st' k \<noteq> None \<and>
     (st'(k \<mapsto> v)) k \<noteq> None \<and> Singleton_GetInstance ctor' k (st'(k \<mapsto> v)) = Inr (k, st'(k \<mapsto> v))"
  by (auto simp: Singleton_GetInstance_def res_bind_Inr_iff split: option.splits)

lemma SingletonPtr_again:
  "SingletonPtr_GetInstance new k s = Inr (p, st, h) \<Longrightarrow> st k = Some p \<and>
     SingletonPtr_GetInstance new' k (st, h') = Inr (p, st, h')"
  by (auto simp: SingletonPtr_GetInstance_def res_bind_Inr_iff split: option.splits prod.splits)

lemma Singleton_other: "Singleton_GetInstance ctor k st = Inr (p, st') \<Longrightarrow> j \<noteq> k \<Longrightarrow> st' j = st j"
  by (auto simp: Singleton_GetInstance_def res_bind_Inr_iff split: option.splits)

end
