(* ===== verification/LogClient.thy ===== *)
theory LogClient imports LogConfig SingletonModel begin

text \<open>
  Programs that use the logging system: the macros \<open>LIONET_LOG_NAME\<close> and \<open>LIONET_LOG_ROOT\<close> of \<open>log.h\<close>, which
  reach the manager through its singleton, and client code with variables for loggers and appenders, its
  types and what they promise.
\<close>

section \<open>Loggers by name\<close>

text \<open>\<open>typedef LioNet::Singleton<LoggerManager> LoggerMgr\<close>. The manager and the objects it owns are one \<open>log_sys\<close>.\<close>

definition LoggerMgr :: instance_id where
  "LoggerMgr = (''LoggerManager'', ''void'', 0)"

definition LIONET_LOG_NAME :: "log_sys res \<Rightarrow> string \<Rightarrow> log_sys statics \<Rightarrow> (nat \<times> log_sys statics) res" where
  "LIONET_LOG_NAME ctor name st =
     res_bind (Singleton_GetInstance ctor LoggerMgr st) (\<lambda>(p, st1).
       case st1 p of
         None \<Rightarrow> Inl UseAfterFree
       | Some s \<Rightarrow> res_bind (getLogger name s) (\<lambda>(l, s'). Inr (l, st1(p \<mapsto> s'))))"

definition LIONET_LOG_ROOT :: "log_sys res \<Rightarrow> log_sys statics \<Rightarrow> (nat option \<times> log_sys statics) res" where
  "LIONET_LOG_ROOT ctor st =
     res_bind (Singleton_GetInstance ctor LoggerMgr st) (\<lambda>(p, st1).
       case st1 p of
         None \<Rightarrow> Inl UseAfterFree
       | Some s \<Rightarrow> Inr (getRoot s, st1))"

text \<open>The static initialisers and functions of a program that ask for loggers, in their order.\<close>

fun log_names :: "log_sys res \<Rightarrow> string list \<Rightarrow> log_sys statics \<Rightarrow> (nat list \<times> log_sys statics) res" where
  "log_names ctor [] st = Inr ([], st)"
| "log_names ctor (n # ns) st =
     res_bind (LIONET_LOG_NAME ctor n st) (\<lambda>(l, st1).
       res_bind (log_names ctor ns st1) (\<lambda>(ls, st2). Inr (l # ls, st2)))"

section \<open>Client code\<close>


























section \<open>Every operation\<close>












section \<open>Properties\<close>





text \<open>What \<open>LIONET_LOG_NAME\<close> keeps once the manager is there.\<close>

definition managed :: "log_sys statics \<Rightarrow> bool" where
  "managed st \<longleftrightarrow> (\<exists>s. st = [LoggerMgr \<mapsto> s] \<and> log_inv s \<and> map_of (m_loggers s) ''root'' = mgr_root s)"

definition registered :: "log_sys statics \<Rightarrow> string \<Rightarrow> nat \<Rightarrow> bool" where
  "registered st name l \<longleftrightarrow> (\<exists>s. st LoggerMgr = Some s \<and> map_of (m_loggers s) name = Some l)"

lemma log_name_managed:
  assumes "managed st"
  shows "\<exists>l st'. LIONET_LOG_NAME ctor name st = Inr (l, st') \<and> managed st' \<and> registered st' name l \<and>
    (\<forall>n k. registered st n k \<longrightarrow> registered st' n k)"
proof -
  obtain s where s: "st = [LoggerMgr \<mapsto> s]" "log_inv s" "map_of (m_loggers s) ''root'' = mgr_root s"
    using assms by (auto simp: managed_def)
  have "mgr_root s \<noteq> None" using s(2) by (auto simp: log_inv_def)
  from getLogger_only [OF s(2), of name] obtain l s' where
    g: "getLogger name s = Inr (l, s')" "log_inv s'" "map_of (m_loggers s') name = Some l" "only l s s'" by blast
  with s \<open>mgr_root s \<noteq> None\<close> show ?thesis
    by (auto simp: LIONET_LOG_NAME_def Singleton_GetInstance_def managed_def registered_def only_def)
qed

lemma log_name_first:
  "LIONET_LOG_NAME (Inr s0) name Map.empty = LIONET_LOG_NAME (Inr s0) name [LoggerMgr \<mapsto> s0]"
  by (simp add: LIONET_LOG_NAME_def Singleton_GetInstance_def)

lemma log_names_registered:
  "managed st \<Longrightarrow> \<exists>ls st'. log_names ctor ns st = Inr (ls, st') \<and> managed st' \<and>
     list_all2 (registered st') ns ls \<and> (\<forall>n k. registered st n k \<longrightarrow> registered st' n k)"
proof (induction ns arbitrary: st)
  case (Cons n ns)
  from log_name_managed [OF Cons.prems, of ctor n] obtain l st1 where
    1: "LIONET_LOG_NAME ctor n st = Inr (l, st1)" "managed st1" "registered st1 n l"
      "\<forall>n k. registered st n k \<longrightarrow> registered st1 n k" by blast
  from Cons.IH [OF 1(2)] obtain ls st2 where
    2: "log_names ctor ns st1 = Inr (ls, st2)" "managed st2" "list_all2 (registered st2) ns ls"
      "\<forall>n k. registered st1 n k \<longrightarrow> registered st2 n k" by blast
  with 1 show ?case by auto
qed simp

text \<open>
  C26. The loggers of a program are its names: the static initialisers and functions that ask for loggers,
  from the start of the program when there is no manager yet, all get one, in one manager whose constructor ran
  once; two of them get the same logger exactly when they ask for the same name, \<open>root\<close> is the root logger,
  and each logger bears the name it was asked for by.
\<close>

theorem loggers_are_their_names:
  assumes "ctor = LoggerManager_new o1 o2 wr" and "ns \<noteq> []"
  shows "\<exists>ls st s. log_names ctor ns Map.empty = Inr (ls, st) \<and> st LoggerMgr = Some s \<and> dom st = {LoggerMgr} \<and>
    length ls = length ns \<and> (\<forall>i<length ns. \<forall>j<length ns. ls ! i = ls ! j \<longleftrightarrow> ns ! i = ns ! j) \<and>
    (\<forall>i<length ns. (ns ! i = ''root'' \<longleftrightarrow> Some (ls ! i) = getRoot s) \<and>
       (\<exists>x. loggers s (ls ! i) = Some x \<and> l_name x = ns ! i))"
proof -
  obtain s0 where s0: "ctor = Inr s0" using manager_starts [of o1 o2 wr] assms(1) by metis
  have "log_inv s0" "map_of (m_loggers s0) ''root'' = mgr_root s0"
    using manager_sel(1,2,4) [of o1 o2 wr s0] assms(1) s0 by simp_all
  then have "managed [LoggerMgr \<mapsto> s0]" by (auto simp: managed_def)
  from log_names_registered [OF this, of ctor ns] obtain ls st where
    l: "log_names ctor ns [LoggerMgr \<mapsto> s0] = Inr (ls, st)" "managed st" "list_all2 (registered st) ns ls" by blast
  have "log_names ctor ns Map.empty = Inr (ls, st)"
    using l(1) assms(2) s0 log_name_first [of s0] by (cases ns) simp_all
  moreover from l(2) obtain s where s: "st = [LoggerMgr \<mapsto> s]" "log_inv s" "map_of (m_loggers s) ''root'' = getRoot s"
    by (auto simp: managed_def getRoot_def)
  have r: "map_of (m_loggers s) (ns ! i) = Some (ls ! i)" if "i < length ns" for i
    using l(3) that s(1) by (simp add: list_all2_conv_all_nth registered_def)
  have name: "\<exists>x. loggers s k = Some x \<and> l_name x = n" if "map_of (m_loggers s) n = Some k" for n k
    using s(2) that unfolding log_inv_def by blast
  have inj: "n = m" if "map_of (m_loggers s) n = Some k" "map_of (m_loggers s) m = Some k" for n m k
    using name [OF that(1)] name [OF that(2)] by auto
  have "ls ! i = ls ! j \<longleftrightarrow> ns ! i = ns ! j" if "i < length ns" "j < length ns" for i j
    using r [OF that(1)] r [OF that(2)] inj by (metis option.inject)
  moreover have "ns ! i = ''root'' \<longleftrightarrow> Some (ls ! i) = getRoot s" if "i < length ns" for i
    using r [OF that] inj s(3) by metis
  moreover have "length ls = length ns" using l(3) by (simp add: list_all2_lengthD)
  ultimately show ?thesis using s(1) r name by (intro exI [of _ ls] exI [of _ st] exI [of _ s]) auto
qed

theorem loggers_are_their_names_witness:
  "\<exists>l k st. log_names (LoggerManager_new (\<lambda>_. True) (\<lambda>_. True) (\<lambda>_. True)) [''system'', ''root'', ''system''] Map.empty =
    Inr ([l, k, l], st) \<and> l \<noteq> k"
proof -
  let ?ns = "[''system'', ''root'', ''system'']"
  from loggers_are_their_names [OF refl, of ?ns "\<lambda>_. True" "\<lambda>_. True" "\<lambda>_. True"] obtain ls st where
    l: "log_names (LoggerManager_new (\<lambda>_. True) (\<lambda>_. True) (\<lambda>_. True)) ?ns Map.empty = Inr (ls, st)" "length ls = 3"
      "\<forall>i<3. \<forall>j<3. ls ! i = ls ! j \<longleftrightarrow> ?ns ! i = ?ns ! j" by auto
  obtain a b c where ls: "ls = [a, b, c]" using l(2) by (auto simp: numeral_3_eq_3 length_Suc_conv)
  have "a = c" "a \<noteq> b" using l(3) [rule_format, of 0 2] l(3) [rule_format, of 0 1] ls by simp_all
  with l(1) ls show ?thesis by auto
qed

end
