(* ===== verification/LockRun.thy ===== *)
theory LockRun imports MutexModel begin

text \<open>
  Threads that take and release the lock objects of theory MutexModel, several at a time and over each
  other: what a run of them is, the discipline of scoped locks and of a fixed order, and the argument that
  the order excludes deadlock. Theory LockOrder applies it to logging and configuration.
\<close>

section \<open>Threads and locks\<close>

text \<open>
  A thread is the list of what it still does to locks: \<open>LK\<close> for a \<open>Mutex\<close> or \<open>Spinlock\<close>, \<open>RD\<close> and \<open>WR\<close> for
  the two sides of an \<open>RWMutex\<close>.
\<close>

datatype lock_mode = LK | RD | WR

datatype 'l lock_act = Acq lock_mode 'l | Rel lock_mode 'l

record 'l lock_table =
  spin_of :: "'l \<Rightarrow> mutex"
  rw_of :: "'l \<Rightarrow> rwlock"

definition no_locks :: "'l lock_table" where
  "no_locks = \<lparr>spin_of = (\<lambda>_. Spinlock_new), rw_of = (\<lambda>_. RWMutex_new)\<rparr>"

fun acquire :: "nat \<Rightarrow> lock_mode \<Rightarrow> 'l \<Rightarrow> 'l lock_table \<Rightarrow> 'l lock_table option" where
  "acquire tid LK l t = map_option (\<lambda>m. t\<lparr>spin_of := (spin_of t)(l := m)\<rparr>) (Spinlock_lock tid (spin_of t l))"
| "acquire tid RD l t = map_option (\<lambda>m. t\<lparr>rw_of := (rw_of t)(l := m)\<rparr>) (RWMutex_rdlock (rw_of t l))"
| "acquire tid WR l t = map_option (\<lambda>m. t\<lparr>rw_of := (rw_of t)(l := m)\<rparr>) (RWMutex_wrlock (rw_of t l))"

fun release :: "lock_mode \<Rightarrow> 'l \<Rightarrow> 'l lock_table \<Rightarrow> 'l lock_table" where
  "release LK l t = t\<lparr>spin_of := (spin_of t)(l := Spinlock_unlock (spin_of t l))\<rparr>"
| "release RD l t = t\<lparr>rw_of := (rw_of t)(l := RWMutex_unlock (rw_of t l))\<rparr>"
| "release WR l t = t\<lparr>rw_of := (rw_of t)(l := RWMutex_unlock (rw_of t l))\<rparr>"

text \<open>One step of thread \<open>i\<close>: \<open>None\<close> where it has ended or has to wait.\<close>

definition locks_step ::
    "nat \<Rightarrow> 'l lock_table \<times> 'l lock_act list list \<Rightarrow> ('l lock_table \<times> 'l lock_act list list) option" where
  "locks_step i s =
     (let (t, ths) = s
      in if i < length ths then
           (case ths ! i of
              [] \<Rightarrow> None
            | Acq m l # r \<Rightarrow> map_option (\<lambda>t'. (t', ths[i := r])) (acquire i m l t)
            | Rel m l # r \<Rightarrow> Some (release m l t, ths[i := r]))
         else None)"

fun locks_run ::
    "nat list \<Rightarrow> 'l lock_table \<times> 'l lock_act list list \<Rightarrow> ('l lock_table \<times> 'l lock_act list list) option" where
  "locks_run [] s = Some s"
| "locks_run (i # is) s = (case locks_step i s of None \<Rightarrow> None | Some s' \<Rightarrow> locks_run is s')"

text \<open>A scoped lock around the locks of its scope.\<close>

definition scoped :: "lock_mode \<Rightarrow> 'l \<Rightarrow> 'l lock_act list \<Rightarrow> 'l lock_act list" where
  "scoped m l t = Acq m l # t @ [Rel m l]"

text \<open>
  \<open>nested H t\<close>: a thread that holds \<open>H\<close>, the latest first, releases in \<open>t\<close> what it holds in the
  order of scopes. \<open>ordered\<close>: and acquires only locks of a higher rank than those it holds.
\<close>

fun nested :: "(lock_mode \<times> 'l) list \<Rightarrow> 'l lock_act list \<Rightarrow> bool" where
  "nested H [] \<longleftrightarrow> H = []"
| "nested H (Acq m l # r) \<longleftrightarrow> nested ((m, l) # H) r"
| "nested H (Rel m l # r) \<longleftrightarrow> (case H of [] \<Rightarrow> False | h # H' \<Rightarrow> h = (m, l) \<and> nested H' r)"

fun ordered :: "('l \<Rightarrow> nat) \<Rightarrow> (lock_mode \<times> 'l) list \<Rightarrow> 'l lock_act list \<Rightarrow> bool" where
  "ordered rank H [] \<longleftrightarrow> True"
| "ordered rank H (Acq m l # r) \<longleftrightarrow> (\<forall>h\<in>set H. rank (snd h) < rank l) \<and> ordered rank ((m, l) # H) r"
| "ordered rank H (Rel m l # r) \<longleftrightarrow> ordered rank (tl H) r"

text \<open>The lock objects agree with what the threads hold.\<close>

definition held :: "lock_mode \<Rightarrow> 'l \<Rightarrow> (lock_mode \<times> 'l) list list \<Rightarrow> nat" where
  "held m l Hs = sum_list (map (\<lambda>H. count_list H (m, l)) Hs)"

definition agrees :: "'l lock_table \<Rightarrow> (lock_mode \<times> 'l) list list \<Rightarrow> bool" where
  "agrees t Hs \<longleftrightarrow> (\<forall>l. held LK l Hs = (if spin_of t l = None then 0 else 1) \<and>
     (case rw_of t l of RW_readers n \<Rightarrow> held RD l Hs = n \<and> held WR l Hs = 0
      | RW_writer \<Rightarrow> held RD l Hs = 0 \<and> held WR l Hs = 1))"

lemma held_update:
  assumes "i < length Hs"
  shows "held m l (Hs[i := H]) + count_list (Hs ! i) (m, l) = held m l Hs + count_list H (m, l)"
  unfolding held_def by (rule sum_list_map_update [OF assms])

lemma held_push:
  assumes "i < length Hs"
  shows "held m l (Hs[i := (m', l') # Hs ! i]) = held m l Hs + (if m = m' \<and> l = l' then 1 else 0)"
  using held_update [OF assms, of m l "(m', l') # Hs ! i"] by auto

lemma held_pop:
  assumes "i < length Hs" and "Hs ! i = (m', l') # H"
  shows "held m l Hs = held m l (Hs[i := H]) + (if m = m' \<and> l = l' then 1 else 0)"
  using held_update [OF assms(1), of m l H] assms(2) by auto

lemma held_pos:
  assumes "held m l Hs > 0"
  shows "\<exists>i < length Hs. (m, l) \<in> set (Hs ! i)"
proof -
  have "\<exists>H\<in>set Hs. (m, l) \<in> set H"
  proof (rule ccontr)
    assume "\<not> (\<exists>H\<in>set Hs. (m, l) \<in> set H)"
    then have "\<forall>H\<in>set Hs. count_list H (m, l) = 0" by (simp add: count_list_0_iff)
    then have "held m l Hs = 0" by (simp add: held_def)
    with assms show False by simp
  qed
  then show ?thesis by (metis in_set_conv_nth)
qed

lemma held_pos_nth:
  assumes "i < length Hs" and "(m, l) \<in> set (Hs ! i)"
  shows "held m l Hs > 0"
proof -
  have "count_list (Hs ! i) (m, l) \<le> held m l Hs"
    unfolding held_def by (rule member_le_sum_list) (use assms in auto)
  moreover have "count_list (Hs ! i) (m, l) > 0" using assms(2) by (metis count_list_0_iff neq0_conv)
  ultimately show ?thesis by simp
qed

lemma agreesD:
  assumes "agrees t Hs"
  shows "held LK l Hs = (if spin_of t l = None then 0 else 1)"
    and "rw_of t l = RW_readers n \<Longrightarrow> held RD l Hs = n \<and> held WR l Hs = 0"
    and "rw_of t l = RW_writer \<Longrightarrow> held RD l Hs = 0 \<and> held WR l Hs = 1"
  using assms unfolding agrees_def by (auto dest!: spec [of _ l])

lemma agreesI:
  assumes "\<And>l. held LK l Hs = (if spin_of t l = None then 0 else 1)"
    and "\<And>l n. rw_of t l = RW_readers n \<Longrightarrow> held RD l Hs = n \<and> held WR l Hs = 0"
    and "\<And>l. rw_of t l = RW_writer \<Longrightarrow> held RD l Hs = 0 \<and> held WR l Hs = 1"
  shows "agrees t Hs"
  unfolding agrees_def using assms by (auto split: rwlock.splits)

lemma agrees_acquire:
  assumes "agrees t Hs" and "i < length Hs" and "acquire i m l t = Some t'"
  shows "agrees t' (Hs[i := (m, l) # Hs ! i])"
proof (cases m)
  case LK
  with assms(3) have t': "t' = t\<lparr>spin_of := (spin_of t)(l := Some i)\<rparr>" "spin_of t l = None"
    by (auto simp: Spinlock_lock_def split: if_splits)
  show ?thesis
    by (rule agreesI) (use t' LK agreesD [OF assms(1)] in \<open>auto simp: held_push [OF assms(2)]\<close>)
next
  case RD
  with assms(3) obtain n where t': "rw_of t l = RW_readers n" "t' = t\<lparr>rw_of := (rw_of t)(l := RW_readers (Suc n))\<rparr>"
    by (auto simp: RWMutex_rdlock_def split: rwlock.splits)
  show ?thesis
    by (rule agreesI) (use t' RD agreesD [OF assms(1)] in \<open>auto simp: held_push [OF assms(2)] split: if_splits\<close>)
next
  case WR
  with assms(3) have t': "rw_of t l = RW_readers 0" "t' = t\<lparr>rw_of := (rw_of t)(l := RW_writer)\<rparr>"
    by (auto simp: RWMutex_wrlock_def split: if_splits)
  show ?thesis
    by (rule agreesI) (use t' WR agreesD [OF assms(1)] in \<open>auto simp: held_push [OF assms(2)] split: if_splits\<close>)
qed

lemma agrees_release:
  assumes "agrees t Hs" and "i < length Hs" and "Hs ! i = (m, l) # H"
  shows "agrees (release m l t) (Hs[i := H])"
proof -
  have h: "held m' l' (Hs[i := H]) = held m' l' Hs - (if m' = m \<and> l' = l then 1 else 0)"
    "held m l Hs > 0" for m' l'
    using held_pop [OF assms(2,3), of m' l'] held_pop [OF assms(2,3), of m l] by auto
  show ?thesis
  proof (cases m)
    case LK
    show ?thesis
      by (rule agreesI) (use LK agreesD [OF assms(1)] in \<open>auto simp: h Spinlock_unlock_def\<close>)
  next
    case RD
    with h(2) agreesD(3) [OF assms(1), of l] obtain n where n: "rw_of t l = RW_readers n"
      by (cases "rw_of t l") auto
    show ?thesis
      by (rule agreesI) (use RD n agreesD [OF assms(1)] in \<open>auto simp: h RWMutex_unlock_def split: if_splits\<close>)
  next
    case WR
    with h(2) agreesD(2) [OF assms(1), of l] have w: "rw_of t l = RW_writer"
      by (cases "rw_of t l") auto
    show ?thesis
      by (rule agreesI) (use WR w agreesD [OF assms(1)] in \<open>auto simp: h RWMutex_unlock_def split: if_splits\<close>)
  qed
qed

section \<open>Runs of scoped threads\<close>

text \<open>Every thread's acts fit what it holds, and the lock objects agree with that.\<close>

definition run_inv :: "'l lock_table \<times> 'l lock_act list list \<Rightarrow> (lock_mode \<times> 'l) list list \<Rightarrow> bool" where
  "run_inv s Hs \<longleftrightarrow> agrees (fst s) Hs \<and> list_all2 nested Hs (snd s)"

definition run_ordered :: "('l \<Rightarrow> nat) \<Rightarrow> 'l lock_act list list \<Rightarrow> (lock_mode \<times> 'l) list list \<Rightarrow> bool" where
  "run_ordered rank ths Hs \<longleftrightarrow> list_all2 (ordered rank) Hs ths"

definition acts_left :: "'l lock_act list list \<Rightarrow> nat" where
  "acts_left ths = sum_list (map length ths)"

lemma run_inv_new:
  assumes "\<forall>t\<in>set ths. nested [] t"
  shows "run_inv (no_locks, ths) (replicate (length ths) [])"
proof -
  have "held m l (replicate n []) = 0" for m and l :: 'a and n
    by (induction n) (simp_all add: held_def)
  with assms show ?thesis
    by (auto simp: run_inv_def agrees_def no_locks_def Spinlock_new_def RWMutex_new_def list_all2_conv_all_nth)
qed

lemma run_ordered_new:
  "\<forall>t\<in>set ths. ordered rank [] t \<Longrightarrow> run_ordered rank ths (replicate (length ths) [])"
  by (auto simp: run_ordered_def list_all2_conv_all_nth)

lemma acts_left_update:
  "i < length ths \<Longrightarrow> ths ! i = a # r \<Longrightarrow> Suc (acts_left (ths[i := r])) = acts_left ths"
  unfolding acts_left_def using sum_list_map_update [of i ths length r] by simp

text \<open>What a step of the thread \<open>i\<close> does to what it holds.\<close>

lemma locks_step_cases:
  assumes "locks_step i (t, ths) = Some s'"
  obtains m l r t' where "i < length ths" and "ths ! i = Acq m l # r" and "acquire i m l t = Some t'"
      and "s' = (t', ths[i := r])"
    | m l r where "i < length ths" and "ths ! i = Rel m l # r" and "s' = (release m l t, ths[i := r])"
  using assms by (fastforce simp: locks_step_def split: if_splits list.splits lock_act.splits)

lemma step_inv:
  assumes "run_inv s Hs" and "locks_step i s = Some s'"
  shows "\<exists>Hs'. run_inv s' Hs' \<and> (run_ordered rank (snd s) Hs \<longrightarrow> run_ordered rank (snd s') Hs') \<and>
    (\<forall>j. j \<noteq> i \<longrightarrow> j < length Hs \<longrightarrow> Hs' ! j = Hs ! j) \<and> Suc (acts_left (snd s')) = acts_left (snd s) \<and>
    length (snd s') = length (snd s)"
proof -
  obtain t ths where s: "s = (t, ths)" by (cases s)
  have inv: "agrees t Hs" "list_all2 nested Hs ths" using assms(1) s by (simp_all add: run_inv_def)
  have len: "length Hs = length ths" using inv(2) by (rule list_all2_lengthD)
  from assms(2) [unfolded s] show ?thesis
  proof (cases rule: locks_step_cases)
    case (1 m l r t')
    let ?Hs = "Hs[i := (m, l) # Hs ! i]"
    have "nested (Hs ! i) (ths ! i)" using inv(2) 1(1) by (simp add: list_all2_conv_all_nth)
    with 1 inv len have "run_inv s' ?Hs"
      by (auto simp: run_inv_def agrees_acquire list_all2_update_cong)
    moreover have "run_ordered rank (snd s') ?Hs" if "run_ordered rank ths Hs"
    proof -
      have "ordered rank (Hs ! i) (ths ! i)" using that 1(1) by (simp add: run_ordered_def list_all2_conv_all_nth)
      with that 1 show ?thesis by (auto simp: run_ordered_def list_all2_update_cong)
    qed
    ultimately show ?thesis using s 1 acts_left_update [OF 1(1,2)] by (intro exI [of _ ?Hs]) auto
  next
    case (2 m l r)
    have n: "nested (Hs ! i) (ths ! i)" using inv(2) 2(1) by (simp add: list_all2_conv_all_nth)
    with 2(2) obtain H where H: "Hs ! i = (m, l) # H" "nested H r" by (auto split: list.splits)
    let ?Hs = "Hs[i := H]"
    have "run_inv s' ?Hs" using 2 inv len H by (auto simp: run_inv_def agrees_release list_all2_update_cong)
    moreover have "run_ordered rank (snd s') ?Hs" if "run_ordered rank ths Hs"
    proof -
      have "ordered rank (Hs ! i) (ths ! i)" using that 2(1) by (simp add: run_ordered_def list_all2_conv_all_nth)
      with that 2 H show ?thesis by (auto simp: run_ordered_def list_all2_update_cong)
    qed
    ultimately show ?thesis using s 2 acts_left_update [OF 2(1,2)] by (intro exI [of _ ?Hs]) auto
  qed
qed

lemma run_invs:
  assumes "locks_run is s = Some s'" and "run_inv s Hs"
  shows "\<exists>Hs'. run_inv s' Hs' \<and> (run_ordered rank (snd s) Hs \<longrightarrow> run_ordered rank (snd s') Hs') \<and>
    acts_left (snd s') + length is = acts_left (snd s) \<and> length (snd s') = length (snd s)"
  using assms
proof (induction "is" arbitrary: s Hs)
  case (Cons i js)
  from Cons.prems(1) obtain s1 where s1: "locks_step i s = Some s1" "locks_run js s1 = Some s'"
    by (auto split: option.splits)
  from step_inv [OF Cons.prems(2) s1(1), of rank] obtain H1 where H1: "run_inv s1 H1"
    "run_ordered rank (snd s) Hs \<longrightarrow> run_ordered rank (snd s1) H1"
    "Suc (acts_left (snd s1)) = acts_left (snd s)" "length (snd s1) = length (snd s)" by blast
  from Cons.IH [OF s1(2) H1(1)] H1 show ?case by auto
qed auto

text \<open>A thread that cannot step waits for a lock that some thread holds.\<close>

lemma blocked_held:
  assumes "agrees t Hs" and "acquire i m l t = None"
  shows "\<exists>m'. held m' l Hs > 0"
proof (cases m)
  case LK
  with assms(2) have "spin_of t l \<noteq> None" by (auto simp: Spinlock_lock_def split: if_splits)
  with agreesD(1) [OF assms(1), of l] show ?thesis by (intro exI [of _ LK]) simp
next
  case RD
  with assms(2) have "rw_of t l = RW_writer" by (auto simp: RWMutex_rdlock_def split: rwlock.splits)
  with agreesD(3) [OF assms(1), of l] show ?thesis by (intro exI [of _ WR]) simp
next
  case WR
  with assms(2) have "rw_of t l \<noteq> RW_readers 0" by (auto simp: RWMutex_wrlock_def split: if_splits)
  show ?thesis
  proof (cases "rw_of t l")
    case (RW_readers n)
    with \<open>rw_of t l \<noteq> RW_readers 0\<close> agreesD(2) [OF assms(1)] show ?thesis by (intro exI [of _ RD]) simp
  next
    case RW_writer
    with agreesD(3) [OF assms(1)] show ?thesis by (intro exI [of _ WR]) simp
  qed
qed

text \<open>
  In the order of the ranks the thread that waits for the highest lock waits for nobody: some thread can
  always step until all have ended.
\<close>

definition wants :: "'l lock_act list \<Rightarrow> 'l \<Rightarrow> bool" where
  "wants t l \<longleftrightarrow> (\<exists>m r. t = Acq m l # r)"

lemma ordered_progress:
  assumes "run_inv (t, ths) Hs" and "run_ordered rank ths Hs" and "\<exists>x\<in>set ths. x \<noteq> []"
  shows "\<exists>i. locks_step i (t, ths) \<noteq> None"
proof (rule ccontr)
  assume stuck: "\<nexists>i. locks_step i (t, ths) \<noteq> None"
  have inv: "agrees t Hs" "length Hs = length ths" "\<And>i. i < length ths \<Longrightarrow> nested (Hs ! i) (ths ! i)"
    using assms(1) by (auto simp: run_inv_def list_all2_conv_all_nth)
  have ord: "\<And>i. i < length ths \<Longrightarrow> ordered rank (Hs ! i) (ths ! i)"
    using assms(2) by (simp add: run_ordered_def list_all2_conv_all_nth)
  have w: "\<exists>m l r. ths ! i = Acq m l # r \<and> acquire i m l t = None" if "i < length ths" and "ths ! i \<noteq> []" for i
  proof -
    obtain a r where a: "ths ! i = a # r" using \<open>ths ! i \<noteq> []\<close> by (cases "ths ! i") auto
    have "locks_step i (t, ths) = None" using stuck by blast
    with a \<open>i < length ths\<close> show ?thesis by (cases a) (auto simp: locks_step_def)
  qed
  define R where "R = {n. \<exists>l i. n = rank l \<and> i < length ths \<and> wants (ths ! i) l}"
  have "R \<subseteq> (\<lambda>i. rank (case hd (ths ! i) of Acq m l \<Rightarrow> l | Rel m l \<Rightarrow> l)) ` {..<length ths}"
  proof
    fix n assume "n \<in> R"
    then obtain l i where "n = rank l" "i < length ths" "wants (ths ! i) l" unfolding R_def by blast
    then show "n \<in> (\<lambda>i. rank (case hd (ths ! i) of Acq m l \<Rightarrow> l | Rel m l \<Rightarrow> l)) ` {..<length ths}"
      by (intro image_eqI [of _ _ i]) (auto simp: wants_def)
  qed
  then have fin: "finite R" by (rule finite_subset) simp
  from assms(3) obtain i0 where "i0 < length ths" "ths ! i0 \<noteq> []" by (metis in_set_conv_nth)
  from w [OF this] obtain l0 where "wants (ths ! i0) l0" unfolding wants_def by blast
  with \<open>i0 < length ths\<close> have "R \<noteq> {}" unfolding R_def by blast
  with fin have "Max R \<in> R" by (rule Max_in)
  then obtain l i where l: "i < length ths" "wants (ths ! i) l" "Max R = rank l" unfolding R_def mem_Collect_eq by blast
  from l(2) obtain m r where "ths ! i = Acq m l # r" by (auto simp: wants_def)
  with w [OF l(1)] obtain m where "acquire i m l t = None" by auto
  from blocked_held [OF inv(1) this] obtain m' where "held m' l Hs > 0" by blast
  from held_pos [OF this] obtain j where j: "j < length ths" "(m', l) \<in> set (Hs ! j)"
    unfolding inv(2) by blast
  have "ths ! j \<noteq> []" using inv(3) [OF j(1)] j(2) by (cases "ths ! j") auto
  from w [OF j(1) this] obtain m2 k r2 where k: "ths ! j = Acq m2 k # r2" by blast
  with ord [OF j(1)] have "\<forall>h\<in>set (Hs ! j). rank (snd h) < rank k" by simp
  from this [rule_format, OF j(2)] have "rank l < rank k" by simp
  moreover have "wants (ths ! j) k" using k by (simp add: wants_def)
  with j(1) have "rank k \<in> R" unfolding R_def by blast
  then have "rank k \<le> Max R" by (rule Max_ge [OF fin])
  ultimately show False using l(3) by simp
qed

lemma no_acts_left: "acts_left ths = 0 \<longleftrightarrow> (\<forall>x\<in>set ths. x = [])"
  by (simp add: acts_left_def sum_list_eq_0_iff)

lemma run_append:
  "locks_run (is @ js) s = (case locks_run is s of None \<Rightarrow> None | Some s' \<Rightarrow> locks_run js s')"
  by (induction "is" arbitrary: s) (auto split: option.splits)

lemma ordered_finishes:
  assumes "run_inv (t, ths) Hs" and "run_ordered rank ths Hs"
  shows "\<exists>js t'. locks_run js (t, ths) = Some (t', map (\<lambda>_. []) ths) \<and> length js = acts_left ths"
  using assms
proof (induction "acts_left ths" arbitrary: t ths Hs)
  case 0
  then have "\<forall>x\<in>set ths. x = []" using no_acts_left [of ths] by simp
  then have "map (\<lambda>_. []) ths = ths" by (induction ths) simp_all
  with 0 show ?case by (intro exI [of _ "[]"] exI [of _ t]) simp
next
  case (Suc n)
  have "\<exists>x\<in>set ths. x \<noteq> []" using Suc.hyps(2) no_acts_left [of ths] by auto
  from ordered_progress [OF Suc.prems this] obtain i t1 ths1 where
    st: "locks_step i (t, ths) = Some (t1, ths1)" by fastforce
  from step_inv [OF Suc.prems(1) st, of rank] Suc.prems(2) obtain H1 where
    H1: "run_inv (t1, ths1) H1" "run_ordered rank ths1 H1" "Suc (acts_left ths1) = acts_left ths"
      "length ths1 = length ths" by auto
  with Suc.hyps(2) have "n = acts_left ths1" by simp
  from Suc.hyps(1) [OF this H1(1,2)] obtain js t' where
    js: "locks_run js (t1, ths1) = Some (t', map (\<lambda>_. []) ths1)" "length js = acts_left ths1" by blast
  have "map (\<lambda>_. []) ths1 = map (\<lambda>_. []) ths" using H1(4) by (simp add: list_eq_iff_nth_eq)
  with st js H1(3) show ?case by (intro exI [of _ "i # js"] exI [of _ t']) simp
qed

text \<open>When all threads have ended every lock is free.\<close>

lemma ended_free:
  assumes "run_inv (t, ths) Hs" and "\<forall>x\<in>set ths. x = []"
  shows "t = no_locks"
proof -
  have "\<forall>H\<in>set Hs. H = []"
  proof
    fix H assume "H \<in> set Hs"
    then obtain i where i: "i < length Hs" "H = Hs ! i" by (auto simp: in_set_conv_nth)
    with assms(1) have "nested H (ths ! i)" "i < length ths" by (auto simp: run_inv_def list_all2_conv_all_nth)
    with assms(2) show "H = []" by (metis nested.simps(1) nth_mem)
  qed
  then have h: "held m l Hs = 0" for m l unfolding held_def by (auto simp: sum_list_eq_0_iff)
  have "spin_of t l = None" for l
    using agreesD(1) [of t Hs l] assms(1) h by (auto simp: run_inv_def split: if_splits)
  moreover have "rw_of t l = RW_readers 0" for l
    using agreesD(2,3) [of t Hs l] assms(1) h by (cases "rw_of t l") (auto simp: run_inv_def)
  ultimately show ?thesis by (simp add: no_locks_def Spinlock_new_def RWMutex_new_def fun_eq_iff)
qed

text \<open>Together: from wherever the scheduler has driven ordered threads, they can be run to their ends.\<close>

lemma ordered_run_ends:
  assumes "\<forall>x\<in>set ths. nested [] x \<and> ordered rank [] x" and "locks_run is (no_locks, ths) = Some (t, rest)"
  shows "\<exists>js. locks_run js (t, rest) = Some (no_locks, map (\<lambda>_. []) ths) \<and>
    length is + length js = acts_left ths"
proof -
  let ?H = "replicate (length ths) []"
  have 0: "run_inv (no_locks, ths) ?H" "run_ordered rank ths ?H"
    using run_inv_new run_ordered_new assms(1) by blast+
  from run_invs [OF assms(2) 0(1), of rank] 0(2) obtain Hs where Hs: "run_inv (t, rest) Hs" "run_ordered rank rest Hs"
    "acts_left rest + length is = acts_left ths" "length rest = length ths" by auto
  from ordered_finishes [OF Hs(1,2)] obtain js t' where js: "locks_run js (t, rest) = Some (t', map (\<lambda>_. []) rest)"
    "length js = acts_left rest" by blast
  from run_invs [OF js(1) Hs(1)] obtain H' where "run_inv (t', map (\<lambda>_. []) rest) H'" by auto
  from ended_free [OF this] have "t' = no_locks" by simp
  moreover have "map (\<lambda>_. []) rest = map (\<lambda>_. []) ths" using Hs(4) by (simp add: list_eq_iff_nth_eq)
  ultimately show ?thesis using js Hs(3) by (intro exI [of _ js]) simp
qed

section \<open>A lock taken again\<close>

text \<open>
  \<open>clash m m'\<close>: a lock held in mode \<open>m'\<close> is not given in mode \<open>m\<close>. \<open>retakes H t\<close>: a thread that holds \<open>H\<close>
  asks in \<open>t\<close> for a lock that it still holds in a mode that clashes. It never gets it, whatever the
  others do.
\<close>

fun clash :: "lock_mode \<Rightarrow> lock_mode \<Rightarrow> bool" where
  "clash LK m' \<longleftrightarrow> m' = LK"
| "clash RD m' \<longleftrightarrow> m' = WR"
| "clash WR m' \<longleftrightarrow> m' \<noteq> LK"

fun retakes :: "(lock_mode \<times> 'l) list \<Rightarrow> 'l lock_act list \<Rightarrow> bool" where
  "retakes H [] \<longleftrightarrow> False"
| "retakes H (Acq m l # r) \<longleftrightarrow> (\<exists>h\<in>set H. snd h = l \<and> clash m (fst h)) \<or> retakes ((m, l) # H) r"
| "retakes H (Rel m l # r) \<longleftrightarrow> retakes (tl H) r"

lemma clash_blocks:
  assumes "agrees t Hs" and "held m' l Hs > 0" and "clash m m'"
  shows "acquire i m l t = None"
proof (cases m)
  case LK
  with assms(2,3) agreesD(1) [OF assms(1), of l] show ?thesis
    by (auto simp: Spinlock_lock_def split: if_splits)
next
  case RD
  with assms(2,3) agreesD(2) [OF assms(1), of l] show ?thesis
    by (cases "rw_of t l") (auto simp: RWMutex_rdlock_def)
next
  case WR
  with assms(2,3) agreesD(2) [OF assms(1), of l] show ?thesis
    by (cases m'; cases "rw_of t l") (auto simp: RWMutex_wrlock_def)
qed

lemma retakes_step:
  assumes "run_inv s Hs" and "i < length (snd s)" and "retakes (Hs ! i) (snd s ! i)" and "locks_step j s = Some s'"
  shows "\<exists>Hs'. run_inv s' Hs' \<and> retakes (Hs' ! i) (snd s' ! i)"
proof -
  obtain t ths where s: "s = (t, ths)" by (cases s)
  have inv: "agrees t Hs" "list_all2 nested Hs ths" using assms(1) s by (simp_all add: run_inv_def)
  have len: "length Hs = length ths" using inv(2) by (rule list_all2_lengthD)
  from assms(4) [unfolded s] show ?thesis
  proof (cases rule: locks_step_cases)
    case (1 m l r t')
    let ?Hs = "Hs[j := (m, l) # Hs ! j]"
    have "nested (Hs ! j) (ths ! j)" using inv(2) 1(1) by (simp add: list_all2_conv_all_nth)
    with 1 inv len have "run_inv s' ?Hs" by (auto simp: run_inv_def agrees_acquire list_all2_update_cong)
    moreover have "retakes (?Hs ! i) (snd s' ! i)"
    proof (cases "j = i")
      case True
      have "\<not> (\<exists>h\<in>set (Hs ! i). snd h = l \<and> clash m (fst h))"
        using clash_blocks [OF inv(1) held_pos_nth, of i] 1(1,3) len True by fastforce
      with True assms(3) 1 s len show ?thesis by auto
    qed (use assms(3) 1 s in simp)
    ultimately show ?thesis by blast
  next
    case (2 m l r)
    have n: "nested (Hs ! j) (ths ! j)" using inv(2) 2(1) by (simp add: list_all2_conv_all_nth)
    with 2(2) obtain H where H: "Hs ! j = (m, l) # H" "nested H r" by (auto split: list.splits)
    have "run_inv s' (Hs[j := H])" using 2 inv len H by (auto simp: run_inv_def agrees_release list_all2_update_cong)
    moreover have "retakes (Hs[j := H] ! i) (snd s' ! i)"
      using assms(3) 2 s len H by (cases "j = i") auto
    ultimately show ?thesis by blast
  qed
qed

lemma retakes_run:
  assumes "locks_run is s = Some s'" and "run_inv s Hs" and "i < length (snd s)" and "retakes (Hs ! i) (snd s ! i)"
  shows "snd s' ! i \<noteq> []"
  using assms
proof (induction "is" arbitrary: s Hs)
  case (Cons j js)
  from Cons.prems(1) obtain s1 where s1: "locks_step j s = Some s1" "locks_run js s1 = Some s'"
    by (auto split: option.splits)
  from retakes_step [OF Cons.prems(2-4) s1(1)] obtain H1 where H1: "run_inv s1 H1" "retakes (H1 ! i) (snd s1 ! i)" by blast
  from step_inv [OF Cons.prems(2) s1(1)] have "length (snd s1) = length (snd s)" by blast
  with Cons.IH [OF s1(2) H1(1) _ H1(2)] Cons.prems(3) show ?case by simp
qed auto

lemma retakes_later: "nested G u \<Longrightarrow> retakes H r \<Longrightarrow> retakes (G @ H) (u @ r)"
proof (induction u arbitrary: G)
  case (Cons a u)
  show ?case
  proof (cases a)
    case (Acq m l)
    with Cons.IH [of "(m, l) # G"] Cons.prems show ?thesis by simp
  next
    case (Rel m l)
    with Cons.prems obtain G' where "G = (m, l) # G'" "nested G' u" by (auto split: list.splits)
    with Cons.IH [of G'] Cons.prems Rel show ?thesis by simp
  qed
qed simp

lemma nested_later: "nested G u \<Longrightarrow> nested (G @ H) (u @ r) \<longleftrightarrow> nested H r"
proof (induction u arbitrary: G)
  case (Cons a u)
  show ?case
  proof (cases a)
    case (Acq m l)
    with Cons.IH [of "(m, l) # G"] Cons.prems show ?thesis by simp
  next
    case (Rel m l)
    with Cons.prems obtain G' where "G = (m, l) # G'" "nested G' u" by (auto split: list.splits)
    with Cons.IH [of G'] Cons.prems Rel show ?thesis by simp
  qed
qed simp

lemma nested_append: "nested [] t \<Longrightarrow> nested [] u \<Longrightarrow> nested [] (t @ u)"
  using nested_later [of "[]" t "[]" u] by simp

lemma nested_scoped: "nested [] t \<Longrightarrow> nested [] (scoped m l t)"
  using nested_later [of "[]" t "[(m, l)]" "[Rel m l]"] by (simp add: scoped_def)

lemma retakes_scoped:
  assumes "nested [] u" and "clash m' m" and "\<exists>r. w = Acq m' l # r"
  shows "retakes H (scoped m l (u @ w) @ z)"
  using assms retakes_later [of "[]" u "(m, l) # H" "w @ Rel m l # z"] by (auto simp: scoped_def)

lemma retakes_never_ends:
  assumes "\<forall>x\<in>set ths. nested [] x" and "i < length ths" and "retakes [] (ths ! i)"
    and "locks_run is (no_locks, ths) = Some (t, rest)"
  shows "rest ! i \<noteq> []"
  using retakes_run [OF assms(4) run_inv_new [OF assms(1)], of i] assms(2,3) by simp

section \<open>Exclusion\<close>

text \<open>What a thread that has done \<open>t\<close> holds, if it held \<open>H\<close> before; what it has done is what it no longer has to do.\<close>

fun holding :: "(lock_mode \<times> 'l) list \<Rightarrow> 'l lock_act list \<Rightarrow> (lock_mode \<times> 'l) list" where
  "holding H [] = H"
| "holding H (Acq m l # r) = holding ((m, l) # H) r"
| "holding H (Rel m l # r) = holding (tl H) r"

definition done_of :: "'l lock_act list \<Rightarrow> 'l lock_act list \<Rightarrow> 'l lock_act list" where
  "done_of t rest = take (length t - length rest) t"

lemma holding_append: "holding H (t @ u) = holding (holding H t) u"
  by (induction H t rule: holding.induct) simp_all

text \<open>The trace of a thread splits into what it has done, to hold \<open>H\<close>, and its rest.\<close>

definition split_at :: "'l lock_act list \<Rightarrow> (lock_mode \<times> 'l) list \<Rightarrow> 'l lock_act list \<Rightarrow> bool" where
  "split_at t H r \<longleftrightarrow> t = done_of t r @ r \<and> holding [] (done_of t r) = H"

lemma split_atI: "t = p @ r \<Longrightarrow> holding [] p = H \<Longrightarrow> split_at t H r"
  by (simp add: split_at_def done_of_def)

lemma split_at_step:
  assumes "split_at t H (a # r)"
  shows "split_at t (holding H [a]) r"
proof -
  have "t = (done_of t (a # r) @ [a]) @ r" using assms by (simp add: split_at_def)
  then show ?thesis by (rule split_atI) (use assms in \<open>simp add: split_at_def holding_append\<close>)
qed

lemma run_split:
  assumes "locks_run is s = Some s'" and "run_inv s Hs" and "\<forall>i < length ths. split_at (ths ! i) (Hs ! i) (snd s ! i)"
    and "length (snd s) = length ths"
  shows "\<exists>Hs'. run_inv s' Hs' \<and> (\<forall>i < length ths. split_at (ths ! i) (Hs' ! i) (snd s' ! i)) \<and>
    length (snd s') = length ths"
  using assms
proof (induction "is" arbitrary: s Hs)
  case (Cons j js)
  obtain t rest where s: "s = (t, rest)" by (cases s)
  from Cons.prems(1) obtain s1 where s1: "locks_step j s = Some s1" "locks_run js s1 = Some s'"
    by (auto split: option.splits)
  have inv: "agrees t Hs" "list_all2 nested Hs rest" using Cons.prems(2) s by (simp_all add: run_inv_def)
  have len: "length Hs = length rest" using inv(2) by (rule list_all2_lengthD)
  have sj: "split_at (ths ! j) (Hs ! j) (rest ! j)" if "j < length rest"
    using Cons.prems(3,4) s that by simp
  from s1(1) [unfolded s] obtain H1 where "run_inv s1 H1"
    "\<forall>i < length ths. split_at (ths ! i) (H1 ! i) (snd s1 ! i)" "length (snd s1) = length ths"
  proof (cases rule: locks_step_cases)
    case (1 m l r t')
    let ?Hs = "Hs[j := (m, l) # Hs ! j]"
    have "nested (Hs ! j) (rest ! j)" using inv(2) 1(1) by (simp add: list_all2_conv_all_nth)
    with 1 inv len have "run_inv s1 ?Hs" by (auto simp: run_inv_def agrees_acquire list_all2_update_cong)
    moreover have "split_at (ths ! j) ((m, l) # Hs ! j) r"
      using sj 1(1,2) split_at_step [of "ths ! j" "Hs ! j" "Acq m l" r] by simp
    then have "\<forall>i < length ths. split_at (ths ! i) (?Hs ! i) (snd s1 ! i)"
      using Cons.prems(3,4) 1(1,4) s len by (simp add: nth_list_update)
    ultimately show ?thesis using that 1(4) Cons.prems(4) s by simp
  next
    case (2 m l r)
    have "nested (Hs ! j) (rest ! j)" using inv(2) 2(1) by (simp add: list_all2_conv_all_nth)
    with 2(2) obtain H where H: "Hs ! j = (m, l) # H" "nested H r" by (auto split: list.splits)
    have "run_inv s1 (Hs[j := H])" using 2 inv len H by (auto simp: run_inv_def agrees_release list_all2_update_cong)
    moreover have "split_at (ths ! j) H r"
      using sj 2(1,2) H(1) split_at_step [of "ths ! j" "Hs ! j" "Rel m l" r] by simp
    then have "\<forall>i < length ths. split_at (ths ! i) (Hs[j := H] ! i) (snd s1 ! i)"
      using Cons.prems(3,4) 2(1,3) s len by (simp add: nth_list_update)
    ultimately show ?thesis using that 2(3) Cons.prems(4) s by simp
  qed
  with Cons.IH [OF s1(2)] show ?case by blast
qed auto

lemma held_two:
  assumes "i < length Hs" and "j < length Hs" and "i \<noteq> j" and "(m, l) \<in> set (Hs ! i)" and "(m, l) \<in> set (Hs ! j)"
  shows "2 \<le> held m l Hs"
proof -
  have c: "1 \<le> count_list (Hs ! k) (m, l)" if "(m, l) \<in> set (Hs ! k)" for k
    using that by (metis One_nat_def Suc_leI count_list_0_iff neq0_conv)
  have "held m l (Hs[i := []]) + count_list (Hs ! i) (m, l) = held m l Hs"
    using held_update [OF assms(1), of m l "[]"] by simp
  moreover have "1 \<le> held m l (Hs[i := []])"
    using held_pos_nth [of j "Hs[i := []]" m l] assms by simp
  ultimately show ?thesis using c [OF assms(4)] by simp
qed

lemma agrees_exclude:
  assumes "agrees t Hs" and "i < length Hs" and "j < length Hs" and "i \<noteq> j"
    and "(m, l) \<in> set (Hs ! i)" and "(m', l) \<in> set (Hs ! j)"
  shows "\<not> clash m m'"
proof
  assume "clash m m'"
  have h: "held m l Hs > 0" "held m' l Hs > 0"
    by (rule held_pos_nth [OF assms(2,5)], rule held_pos_nth [OF assms(3,6)])
  have two: "2 \<le> held m l Hs" if "m = m'" using held_two [OF assms(2-5)] assms(6) that by simp
  have lk: "held LK l Hs \<le> 1" using agreesD(1) [OF assms(1), of l] by simp
  have rw: "held WR l Hs = 0 \<or> held WR l Hs = 1 \<and> held RD l Hs = 0"
    using agreesD(2,3) [OF assms(1), of l] by (cases "rw_of t l") auto
  from \<open>clash m m'\<close> consider "m = LK" "m' = LK" | "m = RD" "m' = WR" | "m = WR" "m' = RD" | "m = WR" "m' = WR"
    by (cases m; cases m') auto
  then show False by cases (use h two lk rw in auto)
qed

section \<open>Properties\<close>

text \<open>
  C20. Scopes exclude: let any number of threads run any code whose locks are taken by scoped locks. Under every
  interleaving, when two of them are inside scopes of the same \<open>Mutex\<close> or \<open>Spinlock\<close> they are one thread, and when
  they are inside scopes of the same \<open>RWMutex\<close> both are readers.
\<close>

theorem scopes_exclude:
  assumes "\<forall>x\<in>set ths. nested [] x" and "locks_run is (no_locks, ths) = Some (t, rest)"
    and "i < length ths" and "j < length ths" and "i \<noteq> j"
    and "(m, l) \<in> set (holding [] (done_of (ths ! i) (rest ! i)))"
    and "(m', l) \<in> set (holding [] (done_of (ths ! j) (rest ! j)))"
  shows "\<not> clash m m'"
proof -
  have "\<forall>i < length ths. split_at (ths ! i) (replicate (length ths) [] ! i) (ths ! i)"
    by (simp add: split_at_def done_of_def)
  with run_split [OF assms(2) run_inv_new [OF assms(1)], of ths] obtain Hs where
    Hs: "run_inv (t, rest) Hs" "\<forall>i < length ths. split_at (ths ! i) (Hs ! i) (rest ! i)" "length rest = length ths" by auto
  have "length Hs = length ths" using Hs(1,3) by (auto simp: run_inv_def dest: list_all2_lengthD)
  with agrees_exclude [of t Hs i j m l m'] Hs(1,2) assms(3-7) show ?thesis by (simp add: run_inv_def split_at_def)
qed

theorem scopes_exclude_witness:
  "\<exists>t rest. locks_run [0, 1] (no_locks, [scoped RD (0 :: nat) [], scoped RD 0 [], scoped WR 0 []]) = Some (t, rest) \<and>
    locks_step 2 (t, rest) = None \<and> \<not> clash RD RD"
proof -
  let ?ths = "[scoped RD (0 :: nat) [], scoped RD 0 [], scoped WR 0 []]"
  obtain t rest where t: "locks_run [0, 1] (no_locks, ?ths) = Some (t, rest)" "locks_step 2 (t, rest) = None"
    "rest = [[Rel RD 0], [Rel RD 0], scoped WR 0 []]"
    by (simp add: locks_step_def scoped_def no_locks_def RWMutex_new_def RWMutex_rdlock_def RWMutex_wrlock_def)
  have "\<not> clash RD RD"
    by (rule scopes_exclude [OF _ t(1), of 0 1 RD 0 RD]) (use t(3) in \<open>simp_all add: scoped_def done_of_def\<close>)
  with t show ?thesis by blast
qed

section \<open>Scopes\<close>

text \<open>
  \<open>balanced rank k t\<close>: \<open>t\<close> releases what it takes, in scopes, and takes only locks of rank \<open>k\<close> or more, each
  below those inside its scope. The rules build the traces of functions from those they call.
\<close>

definition balanced :: "('l \<Rightarrow> nat) \<Rightarrow> nat \<Rightarrow> 'l lock_act list \<Rightarrow> bool" where
  "balanced rank k t \<longleftrightarrow> (\<forall>H r. (\<forall>h\<in>set H. rank (snd h) < k) \<longrightarrow>
     (nested H (t @ r) \<longleftrightarrow> nested H r) \<and> (ordered rank H (t @ r) \<longleftrightarrow> ordered rank H r))"

lemma balanced_Nil: "balanced rank k []"
  by (simp add: balanced_def)

lemma balanced_append:
  "balanced rank k t \<Longrightarrow> balanced rank k u \<Longrightarrow> balanced rank k (t @ u)"
  by (simp add: balanced_def)

lemma balanced_mono: "balanced rank k t \<Longrightarrow> k' \<le> k \<Longrightarrow> balanced rank k' t"
  by (simp add: balanced_def) (meson less_le_trans)

lemma balanced_concat: "(\<And>x. x \<in> set xs \<Longrightarrow> balanced rank k (f x)) \<Longrightarrow> balanced rank k (concat (map f xs))"
  by (induction xs) (simp_all add: balanced_Nil balanced_append)

lemma balanced_scoped:
  assumes "k \<le> rank l" and "balanced rank (Suc (rank l)) t"
  shows "balanced rank k (scoped m l t)"
  unfolding balanced_def
proof (intro allI impI)
  fix H :: "(lock_mode \<times> 'a) list" and r assume H: "\<forall>h\<in>set H. rank (snd h) < k"
  then have "\<forall>h\<in>set ((m, l) # H). rank (snd h) < Suc (rank l)" using assms(1) by auto
  with assms(2) have "nested ((m, l) # H) (t @ Rel m l # r) \<longleftrightarrow> nested ((m, l) # H) (Rel m l # r)"
    "ordered rank ((m, l) # H) (t @ Rel m l # r) \<longleftrightarrow> ordered rank ((m, l) # H) (Rel m l # r)"
    unfolding balanced_def by blast+
  with H assms(1) show "(nested H (scoped m l t @ r) \<longleftrightarrow> nested H r) \<and>
      (ordered rank H (scoped m l t @ r) \<longleftrightarrow> ordered rank H r)"
    by (auto simp: scoped_def)
qed

lemma balanced_ok:
  assumes "balanced rank k t"
  shows "nested [] t" and "ordered rank [] t"
  using assms [unfolded balanced_def, rule_format, of "[]" "[]"] by simp_all

text \<open>
  The contract between code that takes locks and this theory: whatever a program of the code does to locks, it
  does in scopes and in the order of the ranks. Then no number of such programs deadlocks.
\<close>

locale lock_order =
  fixes rank :: "'l \<Rightarrow> nat" and runs :: "'c \<Rightarrow> 'l lock_act list \<Rightarrow> bool" and ok :: "'c \<Rightarrow> bool"
  assumes in_order: "ok c \<Longrightarrow> runs c t \<Longrightarrow> balanced rank 0 t"
begin

lemma never_stuck:
  assumes "list_all2 runs progs ths" and "\<forall>c\<in>set progs. ok c" and "locks_run is (no_locks, ths) = Some (t, rest)"
  shows "\<exists>js. locks_run js (t, rest) = Some (no_locks, map (\<lambda>_. []) ths) \<and> length is + length js = acts_left ths"
proof (rule ordered_run_ends [OF _ assms(3)])
  show "\<forall>x\<in>set ths. nested [] x \<and> ordered rank [] x"
  proof
    fix x assume "x \<in> set ths"
    then obtain c where "c \<in> set progs" "runs c x" using assms(1) by (metis list_all2_conv_all_nth in_set_conv_nth)
    with assms(2) in_order have "balanced rank 0 x" by blast
    then show "nested [] x \<and> ordered rank [] x" by (simp add: balanced_ok)
  qed
qed

end

end
