(* ===== verification/LockOrder.thy ===== *)
theory LockOrder imports LogConfig ConfigModel LockRun begin

text \<open>
  The locks that logging and configuration take: the \<open>Spinlock\<close>s of \<open>Logger\<close>, \<open>LogAppender\<close> and
  \<open>LoggerManager\<close> (\<open>log.h\<close>, \<open>log.cc\<close>), the \<open>RWMutex\<close> of every \<open>ConfigVar\<close> and of the registry (\<open>config.h\<close>),
  the \<open>Mutex\<close> of \<open>LoadFromConfDir\<close> (\<open>config.cc\<close>). For each function \<open>f\<close>, \<open>f_locks\<close> is what it does to locks,
  in the order of its text; what it reads of the loggers it reads in the state \<open>s\<close>. Getters and setters
  of levels, and \<open>getRoot\<close>, take no lock.
\<close>

section \<open>Logging\<close>

datatype lock_id = Registry | ConfVar nat | Manager | LoggerMutex nat | AppenderMutex nat | FileTimes

type_synonym locks = "lock_id lock_act list"

definition LogAppender_setFormatter_locks :: "nat \<Rightarrow> locks" where
  "LogAppender_setFormatter_locks a = scoped LK (AppenderMutex a) []"

definition LogAppender_getFormatter_locks :: "nat \<Rightarrow> locks" where
  "LogAppender_getFormatter_locks a = scoped LK (AppenderMutex a) []"

text \<open>\<open>toYamlString\<close> of both appender classes.\<close>

definition LogAppender_toYamlString_locks :: "nat \<Rightarrow> locks" where
  "LogAppender_toYamlString_locks a = scoped LK (AppenderMutex a) []"

definition FileLogAppender_reopen_locks :: "nat \<Rightarrow> locks" where
  "FileLogAppender_reopen_locks a = scoped LK (AppenderMutex a) []"

definition StdoutLogAppender_log_locks :: "log_level \<Rightarrow> nat \<Rightarrow> appender \<Rightarrow> locks" where
  "StdoutLogAppender_log_locks level a x = (if level \<ge> a_level x then scoped LK (AppenderMutex a) [] else [])"

text \<open>The reopening is over, and its lock released, when \<open>log\<close> takes the lock for the writing.\<close>

definition FileLogAppender_log_locks :: "log_level \<Rightarrow> log_event \<Rightarrow> nat \<Rightarrow> appender \<Rightarrow> locks" where
  "FileLogAppender_log_locks level e a x =
     (if level \<ge> a_level x then
        (if e_time e \<ge> a_lastTime x + 3 then FileLogAppender_reopen_locks a else []) @
        scoped LK (AppenderMutex a) []
      else [])"

definition LogAppender_log_locks :: "log_level \<Rightarrow> log_event \<Rightarrow> log_sys \<Rightarrow> nat \<Rightarrow> locks" where
  "LogAppender_log_locks level e s a = (case appenders s a of
       None \<Rightarrow> []
     | Some x \<Rightarrow> (case a_kind x of
           StdoutLogAppender \<Rightarrow> StdoutLogAppender_log_locks level a x
         | FileLogAppender \<Rightarrow> FileLogAppender_log_locks level e a x))"

definition Logger_setFormatter_locks :: "nat \<Rightarrow> log_sys \<Rightarrow> locks" where
  "Logger_setFormatter_locks l s = (case loggers s l of
       None \<Rightarrow> []
     | Some x \<Rightarrow> scoped LK (LoggerMutex l) (concat (map (\<lambda>i. scoped LK (AppenderMutex i) []) (l_appenders x))))"

definition Logger_setFormatter_string_locks :: "nat \<Rightarrow> string \<Rightarrow> log_sys \<Rightarrow> locks" where
  "Logger_setFormatter_string_locks l val s =
     (if isError (LogFormatter_new val) then [] else Logger_setFormatter_locks l s)"

definition Logger_getFormatter_locks :: "nat \<Rightarrow> locks" where
  "Logger_getFormatter_locks l = scoped LK (LoggerMutex l) []"

text \<open>\<open>f\<close> is the formatter that the appender has.\<close>

definition Logger_addAppender_locks :: "nat \<Rightarrow> nat \<Rightarrow> formatter option \<Rightarrow> locks" where
  "Logger_addAppender_locks l a f = scoped LK (LoggerMutex l)
     (LogAppender_getFormatter_locks a @ (if f = None then LogAppender_setFormatter_locks a else []))"

definition Logger_delAppender_locks :: "nat \<Rightarrow> locks" where
  "Logger_delAppender_locks l = scoped LK (LoggerMutex l) []"

definition Logger_clearAppenders_locks :: "nat \<Rightarrow> locks" where
  "Logger_clearAppenders_locks l = scoped LK (LoggerMutex l) []"

definition Logger_toYamlString_locks :: "log_sys \<Rightarrow> nat \<Rightarrow> locks" where
  "Logger_toYamlString_locks s l = (case loggers s l of
       None \<Rightarrow> []
     | Some x \<Rightarrow> scoped LK (LoggerMutex l) (concat (map LogAppender_toYamlString_locks (l_appenders x))))"

text \<open>
  The loop over the appenders; \<open>after_log\<close> is the state the next one finds, which differs where the same file
  appender comes again and has just been reopened.
\<close>

definition after_log :: "log_level \<Rightarrow> log_event \<Rightarrow> nat \<Rightarrow> log_sys \<Rightarrow> log_sys" where
  "after_log level e a s = (case appenders s a of
       None \<Rightarrow> s
     | Some x \<Rightarrow> if a_kind x = FileLogAppender \<and> level \<ge> a_level x \<and> e_time e \<ge> a_lastTime x + 3
         then put_appender a (x\<lparr>a_lastTime := e_time e\<rparr>) s else s)"

fun appenders_log_locks :: "log_level \<Rightarrow> log_event \<Rightarrow> nat list \<Rightarrow> log_sys \<Rightarrow> locks" where
  "appenders_log_locks level e [] s = []"
| "appenders_log_locks level e (a # as) s =
     LogAppender_log_locks level e s a @ appenders_log_locks level e as (after_log level e a s)"

text \<open>The lock of the logger is held while the appenders, or the root logger, log.\<close>

fun Logger_log_locks :: "nat \<Rightarrow> log_level \<Rightarrow> log_event \<Rightarrow> nat \<Rightarrow> log_sys \<Rightarrow> locks" where
  "Logger_log_locks fuel level e l s = (case loggers s l of
       None \<Rightarrow> []
     | Some x \<Rightarrow>
         if level \<ge> l_level x then
           scoped LK (LoggerMutex l)
             (if l_appenders x \<noteq> [] then appenders_log_locks level e (l_appenders x) s
              else (case l_root x of
                  None \<Rightarrow> []
                | Some r \<Rightarrow> (case fuel of 0 \<Rightarrow> [] | Suc n \<Rightarrow> Logger_log_locks n level e r s)))
         else [])"

declare Logger_log_locks.simps [simp del]

text \<open>The macro: \<open>t\<close> is what the evaluation of the streamed operands does, the destructor of the wrapper logs.\<close>

definition LIONET_LOG_LEVEL_locks :: "log_event \<Rightarrow> locks \<Rightarrow> log_sys \<Rightarrow> locks" where
  "LIONET_LOG_LEVEL_locks e t s = (case loggers s (e_logger e) of
       None \<Rightarrow> []
     | Some x \<Rightarrow> if l_level x \<le> e_level e then t @ Logger_log_locks 1 (e_level e) e (e_logger e) s else [])"

text \<open>
  The two appenders of \<open>applyDefaultConfig\<close> are new, so \<open>addAppender\<close> finds them without a formatter;
  the constructor of the second opens its file.
\<close>

definition applyDefaultConfig_locks :: "nat \<Rightarrow> nat \<Rightarrow> locks" where
  "applyDefaultConfig_locks l a =
     Logger_addAppender_locks l a None @ FileLogAppender_reopen_locks (Suc a) @ Logger_addAppender_locks l (Suc a) None"

definition getLogger_locks :: "string \<Rightarrow> log_sys \<Rightarrow> locks" where
  "getLogger_locks name s = scoped LK Manager
     (if map_of (m_loggers s) name \<noteq> None then [] else applyDefaultConfig_locks (next_obj s) (Suc (next_obj s)))"

definition LoggerManager_toYamlString_locks :: "log_sys \<Rightarrow> locks" where
  "LoggerManager_toYamlString_locks s =
     scoped LK Manager (concat (map (Logger_toYamlString_locks s) (map snd (m_loggers s))))"

text \<open>The calls a program can make on the logging system.\<close>

datatype log_call =
    LogMacro log_event | LoggerLog log_level log_event nat
  | SetFormatter nat | SetFormatterString nat string | GetFormatter nat
  | AddAppender nat nat | DelAppender nat | ClearAppenders nat | LoggerYaml nat
  | GetLogger string | ManagerYaml
  | AppenderSetFormatter nat | AppenderGetFormatter nat | AppenderYaml nat | FileReopen nat

fun log_call_locks :: "log_sys \<Rightarrow> log_call \<Rightarrow> locks" where
  "log_call_locks s (LogMacro e) = LIONET_LOG_LEVEL_locks e [] s"
| "log_call_locks s (LoggerLog level e l) = Logger_log_locks 1 level e l s"
| "log_call_locks s (SetFormatter l) = Logger_setFormatter_locks l s"
| "log_call_locks s (SetFormatterString l val) = Logger_setFormatter_string_locks l val s"
| "log_call_locks s (GetFormatter l) = Logger_getFormatter_locks l"
| "log_call_locks s (AddAppender l a) = Logger_addAppender_locks l a (Option.bind (appenders s a) a_formatter)"
| "log_call_locks s (DelAppender l) = Logger_delAppender_locks l"
| "log_call_locks s (ClearAppenders l) = Logger_clearAppenders_locks l"
| "log_call_locks s (LoggerYaml l) = Logger_toYamlString_locks s l"
| "log_call_locks s (GetLogger name) = getLogger_locks name s"
| "log_call_locks s ManagerYaml = LoggerManager_toYamlString_locks s"
| "log_call_locks s (AppenderSetFormatter a) = LogAppender_setFormatter_locks a"
| "log_call_locks s (AppenderGetFormatter a) = LogAppender_getFormatter_locks a"
| "log_call_locks s (AppenderYaml a) = LogAppender_toYamlString_locks a"
| "log_call_locks s (FileReopen a) = FileLogAppender_reopen_locks a"

text \<open>
  The calls of the listener of \<open>LogIniter\<close>, by its loops over the new and the old definitions. \<open>lg\<close> gives the
  logger of a name, \<open>n\<close> and \<open>new_at\<close> the addresses of the appenders it makes.
\<close>

fun appender_calls :: "bool \<Rightarrow> nat \<Rightarrow> nat \<Rightarrow> log_appender_define list \<Rightarrow> log_call list" where
  "appender_calls daemon l n [] = []"
| "appender_calls daemon l n (a # as) =
     (if lad_type a = 1 \<or> lad_type a = 2 \<and> \<not> daemon then
        (if lad_type a = 1 then [FileReopen n] else []) @
        (if lad_formatter a \<noteq> '''' \<and> \<not> isError (LogFormatter_new (lad_formatter a))
         then [AppenderSetFormatter n] else []) @
        AddAppender l n # appender_calls daemon l (Suc n) as
      else if lad_type a = 2 then appender_calls daemon l n as
      else [])"

definition define_calls :: "bool \<Rightarrow> nat \<Rightarrow> nat \<Rightarrow> log_define \<Rightarrow> log_call list" where
  "define_calls daemon l n i =
     GetLogger (ld_name i) #
     (if ld_formatter i \<noteq> '''' then [SetFormatterString l (ld_formatter i)] else []) @
     ClearAppenders l # appender_calls daemon l n (ld_appenders i)"

definition on_logger_conf_changed_calls ::
    "(string \<Rightarrow> nat) \<Rightarrow> (string \<Rightarrow> nat) \<Rightarrow> log_event \<Rightarrow> env \<Rightarrow> log_define list \<Rightarrow> log_define list \<Rightarrow> log_call list" where
  "on_logger_conf_changed_calls lg new_at ev e old new =
     LogMacro ev #
     concat (map (\<lambda>i. if (case find_define i old of None \<Rightarrow> True | Some it \<Rightarrow> \<not> LogDefine_eq i it)
       then define_calls (Env_has ''d'' e) (lg (ld_name i)) (new_at (ld_name i)) i else []) new) @
     concat (map (\<lambda>i. if find_define i new = None
       then [GetLogger (ld_name i), ClearAppenders (lg (ld_name i))] else []) old)"

section \<open>Configuration\<close>

text \<open>\<open>getValue\<close>, \<open>getListener\<close> and \<open>clearListener\<close> take the read lock, \<open>addListener\<close> and \<open>delListener\<close> the write lock.\<close>

definition getValue_locks :: "nat \<Rightarrow> locks" where
  "getValue_locks v = scoped RD (ConfVar v) []"

definition addListener_locks :: "nat \<Rightarrow> locks" where
  "addListener_locks v = scoped WR (ConfVar v) []"

definition delListener_locks :: "nat \<Rightarrow> locks" where
  "delListener_locks v = scoped WR (ConfVar v) []"

definition getListener_locks :: "nat \<Rightarrow> locks" where
  "getListener_locks v = scoped RD (ConfVar v) []"

definition clearListener_locks :: "nat \<Rightarrow> locks" where
  "clearListener_locks v = scoped RD (ConfVar v) []"

text \<open>
  \<open>setValue\<close>: \<open>same\<close> tells if the new value equals the present one, \<open>t\<close> is what the listeners do, \<open>threw\<close> that
  one of them ended with an exception. They run under the read lock.
\<close>

definition setValue_locks :: "nat \<Rightarrow> bool \<Rightarrow> locks \<Rightarrow> bool \<Rightarrow> locks" where
  "setValue_locks v same t threw =
     (if same then scoped RD (ConfVar v) []
      else scoped RD (ConfVar v) t @ (if threw then [] else scoped WR (ConfVar v) []))"

text \<open>\<open>toString\<close> and \<open>fromString\<close>; \<open>log\<close> is what the logging of an exception does.\<close>

definition toString_locks :: "nat \<Rightarrow> bool \<Rightarrow> locks \<Rightarrow> locks" where
  "toString_locks v threw log = scoped RD (ConfVar v) [] @ (if threw then log else [])"

definition fromString_locks :: "nat \<Rightarrow> bool \<Rightarrow> bool \<Rightarrow> locks \<Rightarrow> bool \<Rightarrow> locks \<Rightarrow> locks" where
  "fromString_locks v cast_ok same t threw log =
     (if \<not> cast_ok then log
      else setValue_locks v same t threw @ (if \<not> same \<and> threw then log else []))"

text \<open>
  \<open>Lookup(name, default, desc)\<close> logs under the write lock of the registry. Where the name is registered with
  another type, \<open>toString\<close> of that variable is an operand of the logged line.
\<close>

definition Config_Lookup_locks :: "string \<Rightarrow> string \<Rightarrow> ('v, 'cb) datas \<Rightarrow> log_event \<Rightarrow> log_event \<Rightarrow> locks \<Rightarrow> log_sys \<Rightarrow> locks" where
  "Config_Lookup_locks type name ds info err ts s = scoped WR Registry
     (case map_of ds name of
        Some x \<Rightarrow> if cv_type x = type then LIONET_LOG_LEVEL_locks info [] s else LIONET_LOG_LEVEL_locks info ts s
      | None \<Rightarrow> if has_char_not_in valid_name_chars name then LIONET_LOG_LEVEL_locks err [] s else [])"

definition Config_Lookup_name_locks :: locks where
  "Config_Lookup_name_locks = scoped RD Registry []"

definition LookupBase_locks :: locks where
  "LookupBase_locks = scoped RD Registry []"

text \<open>\<open>Visit\<close>: the callbacks, which do \<open>t\<close>, run under the read lock of the registry.\<close>

definition Visit_locks :: "locks \<Rightarrow> locks" where
  "Visit_locks t = scoped RD Registry t"

text \<open>The section of \<open>LoadFromConfDir\<close> that compares modification times.\<close>

definition check_file_locks :: locks where
  "check_file_locks = scoped LK FileTimes []"

text \<open>
  The calls a program can make, with what the listeners of the variable and the callbacks of \<open>Visit\<close>
  call in turn.
\<close>

datatype call =
    Log log_call
  | GetValue nat | ToString nat | SetValue nat "call list" | FromString nat "call list"
  | AddListener nat | DelListener nat | GetListener nat | ClearListener nat
  | Lookup nat string | LookupName | LookupBaseName | Visit "call list" | CheckFile

text \<open>A logger leads to no other logger than the root, which has the address 0 and leads to none.\<close>

definition roots_ok :: "log_sys \<Rightarrow> bool" where
  "roots_ok s \<longleftrightarrow> (\<forall>l x. loggers s l = Some x \<longrightarrow> l_root x = None \<or> l \<noteq> 0 \<and> l_root x = Some 0)"

text \<open>
  The locks of a call: one trace for every state of the loggers it may find, and for every outcome of the
  comparisons and conversions. No lock depends on the values of the variables, so the registry in the rule for
  \<open>Lookup\<close> has variables without values.
\<close>

inductive call_runs :: "call \<Rightarrow> locks \<Rightarrow> bool" and calls_run :: "call list \<Rightarrow> locks \<Rightarrow> bool" where
  cr_log: "roots_ok s \<Longrightarrow> call_runs (Log c) (log_call_locks s c)"
| cr_getValue: "call_runs (GetValue v) (getValue_locks v)"
| cr_toString: "roots_ok s \<Longrightarrow> call_runs (ToString v) (toString_locks v threw (LIONET_LOG_LEVEL_locks e [] s))"
| cr_setValue: "calls_run cs t \<Longrightarrow> call_runs (SetValue v cs) (setValue_locks v same t threw)"
| cr_fromString: "calls_run cs t \<Longrightarrow> roots_ok s \<Longrightarrow>
    call_runs (FromString v cs) (fromString_locks v cast_ok same t threw (LIONET_LOG_LEVEL_locks e [] s))"
| cr_addListener: "call_runs (AddListener v) (addListener_locks v)"
| cr_delListener: "call_runs (DelListener v) (delListener_locks v)"
| cr_getListener: "call_runs (GetListener v) (getListener_locks v)"
| cr_clearListener: "call_runs (ClearListener v) (clearListener_locks v)"
| cr_lookup: "roots_ok s \<Longrightarrow> roots_ok s' \<Longrightarrow>
    call_runs (Lookup v name) (Config_Lookup_locks type name (ds :: (unit, unit) datas) info err
      (toString_locks v threw (LIONET_LOG_LEVEL_locks e [] s)) s')"
| cr_lookupName: "call_runs LookupName Config_Lookup_name_locks"
| cr_lookupBase: "call_runs LookupBaseName LookupBase_locks"
| cr_visit: "calls_run cs t \<Longrightarrow> call_runs (Visit cs) (Visit_locks t)"
| cr_checkFile: "call_runs CheckFile check_file_locks"
| cr_Nil: "calls_run [] []"
| cr_Cons: "call_runs c t \<Longrightarrow> calls_run cs u \<Longrightarrow> calls_run (c # cs) (t @ u)"


section \<open>The order\<close>

text \<open>
  The order in which the locks are taken: the registry, a variable, the manager, a logger, the root logger,
  an appender.
\<close>

fun rank :: "lock_id \<Rightarrow> nat" where
  "rank Registry = 0"
| "rank (ConfVar v) = 1"
| "rank Manager = 2"
| "rank (LoggerMutex l) = (if l = 0 then 4 else 3)"
| "rank (AppenderMutex a) = 5"
| "rank FileTimes = 6"

text \<open>The lowest lock that a call takes, and the calls that listeners and callbacks may make.\<close>

fun lowest :: "call \<Rightarrow> nat" where
  "lowest (Log c) = 2"
| "lowest (Lookup v name) = 0"
| "lowest LookupName = 0"
| "lowest LookupBaseName = 0"
| "lowest (Visit cs) = 0"
| "lowest CheckFile = 6"
| "lowest c = 1"

fun callbacks_ok :: "call \<Rightarrow> bool" where
  "callbacks_ok (SetValue v cs) \<longleftrightarrow> (\<forall>c\<in>set cs. callbacks_ok c \<and> lowest c \<ge> 2)"
| "callbacks_ok (FromString v cs) \<longleftrightarrow> (\<forall>c\<in>set cs. callbacks_ok c \<and> lowest c \<ge> 2)"
| "callbacks_ok (Visit cs) \<longleftrightarrow> (\<forall>c\<in>set cs. callbacks_ok c \<and> lowest c \<ge> 1)"
| "callbacks_ok c \<longleftrightarrow> True"

lemmas bal = balanced_Nil balanced_append balanced_scoped balanced_concat

lemma bal_appender: "balanced rank 5 (scoped LK (AppenderMutex a) t)" if "balanced rank 6 t"
  using that by (intro bal) (simp_all add: eval_nat_numeral)

lemma bal_appender_log: "balanced rank 5 (LogAppender_log_locks level e s a)"
  by (auto simp: LogAppender_log_locks_def StdoutLogAppender_log_locks_def FileLogAppender_log_locks_def
      FileLogAppender_reopen_locks_def intro!: bal(1,2,4) bal_appender split: option.split appender_kind.split)

lemma bal_appenders_log: "balanced rank 5 (appenders_log_locks level e as s)"
  by (induction as arbitrary: s) (simp_all add: bal(1,2) bal_appender_log)

lemma bal_logger: "balanced rank 5 t \<Longrightarrow> balanced rank 3 (scoped LK (LoggerMutex l) t)"
  by (rule balanced_scoped) (auto elim: balanced_mono)

lemma log_locks_root:
  assumes "roots_ok s"
  shows "balanced rank 4 (Logger_log_locks n level e 0 s)"
proof -
  have "balanced rank 5 (appenders_log_locks level e as s)" for as by (rule bal_appenders_log)
  moreover have "l_root x = None" if "loggers s 0 = Some x" for x
    using assms that by (auto simp: roots_ok_def)
  ultimately show ?thesis
    by (subst Logger_log_locks.simps) (auto intro!: bal(1,3) split: option.split)
qed

lemma bal_log:
  assumes "roots_ok s"
  shows "balanced rank 3 (Logger_log_locks n level e l s)"
proof (cases "l = 0")
  case True
  with balanced_mono [OF log_locks_root [OF assms], of 3] show ?thesis by simp
next
  case False
  have "balanced rank 4 (appenders_log_locks level e as s)" for as
    by (rule balanced_mono [OF bal_appenders_log]) simp
  moreover have "l_root x = None \<or> l_root x = Some 0" if "loggers s l = Some x" for x
    using assms that by (auto simp: roots_ok_def)
  ultimately show ?thesis using False log_locks_root [OF assms]
    by (subst Logger_log_locks.simps) (fastforce intro!: bal(1,3) split: option.split nat.split)
qed

text \<open>One level of fuel is enough: more does not change the trace.\<close>

lemma Logger_log_locks_fuel:
  assumes "roots_ok s"
  shows "Logger_log_locks (Suc n) level e l s = Logger_log_locks 1 level e l s"
proof -
  have "l_root x = None" if "loggers s 0 = Some x" for x using assms that by (auto simp: roots_ok_def)
  then have 0: "Logger_log_locks n level e 0 s = Logger_log_locks 0 level e 0 s"
    by (subst (1 2) Logger_log_locks.simps) (auto split: option.split)
  have "l_root x = None \<or> l_root x = Some 0" if "loggers s l = Some x" for x
    using assms that by (auto simp: roots_ok_def)
  with 0 show ?thesis
    by (subst (1 2) Logger_log_locks.simps) (fastforce split: option.split)
qed


lemma bal_macro:
  assumes "roots_ok s" and "balanced rank k t" and "k \<le> 3"
  shows "balanced rank k (LIONET_LOG_LEVEL_locks e t s)"
  using balanced_mono [OF bal_log [OF assms(1)] assms(3)] assms(2)
  by (auto simp: LIONET_LOG_LEVEL_locks_def intro!: bal(1,2) split: option.split)

lemma bal_addAppender: "balanced rank 3 (Logger_addAppender_locks l a f)"
  unfolding Logger_addAppender_locks_def LogAppender_getFormatter_locks_def LogAppender_setFormatter_locks_def
  by (intro bal_logger bal(2) bal_appender bal(1)) (simp add: bal_appender bal(1))

lemma bal_appender_ops:
  "balanced rank 5 (LogAppender_setFormatter_locks a)" "balanced rank 5 (LogAppender_getFormatter_locks a)"
  "balanced rank 5 (LogAppender_toYamlString_locks a)" "balanced rank 5 (FileLogAppender_reopen_locks a)"
  by (simp_all add: LogAppender_setFormatter_locks_def LogAppender_getFormatter_locks_def
      LogAppender_toYamlString_locks_def FileLogAppender_reopen_locks_def bal_appender bal(1))

lemma bal_logger_ops:
  "balanced rank 3 (Logger_setFormatter_locks l s)" "balanced rank 3 (Logger_toYamlString_locks s l)"
  "balanced rank 3 (Logger_setFormatter_string_locks l val s)" "balanced rank 3 (Logger_getFormatter_locks l)"
  "balanced rank 3 (Logger_delAppender_locks l)" "balanced rank 3 (Logger_clearAppenders_locks l)"
  by (auto simp: Logger_setFormatter_locks_def Logger_toYamlString_locks_def Logger_setFormatter_string_locks_def
      Logger_getFormatter_locks_def Logger_delAppender_locks_def Logger_clearAppenders_locks_def bal_appender_ops
      intro!: bal_logger bal(1,4) bal_appender split: option.split)

lemma bal_manager_ops:
  "balanced rank 2 (getLogger_locks name s)" "balanced rank 2 (LoggerManager_toYamlString_locks s)"
proof -
  have "balanced rank 3 (applyDefaultConfig_locks l a)" for l a
    unfolding applyDefaultConfig_locks_def
    by (intro bal(2) bal_addAppender balanced_mono [OF bal_appender_ops(4)]) simp
  then show "balanced rank 2 (getLogger_locks name s)"
    unfolding getLogger_locks_def by (intro balanced_scoped) (auto simp: bal(1) eval_nat_numeral)
  show "balanced rank 2 (LoggerManager_toYamlString_locks s)"
    unfolding LoggerManager_toYamlString_locks_def
    by (intro balanced_scoped bal(4)) (auto intro: balanced_mono [OF bal_logger_ops(2)])
qed

lemma bal_log_call: "roots_ok s \<Longrightarrow> balanced rank 2 (log_call_locks s c)"
  by (cases c) (simp_all add: bal_manager_ops bal_macro bal(1) balanced_mono [OF bal_log]
      balanced_mono [OF bal_addAppender] balanced_mono [OF bal_appender_ops(1)] balanced_mono [OF bal_appender_ops(2)]
      balanced_mono [OF bal_appender_ops(3)] balanced_mono [OF bal_appender_ops(4)] balanced_mono [OF bal_logger_ops(1)]
      balanced_mono [OF bal_logger_ops(2)] balanced_mono [OF bal_logger_ops(3)] balanced_mono [OF bal_logger_ops(4)]
      balanced_mono [OF bal_logger_ops(5)] balanced_mono [OF bal_logger_ops(6)])

lemma bal_var: "balanced rank 2 t \<Longrightarrow> balanced rank (Suc 0) (scoped m (ConfVar v) t)"
  by (rule balanced_scoped) (simp_all add: eval_nat_numeral)

lemma bal_registry: "balanced rank (Suc 0) t \<Longrightarrow> balanced rank 0 (scoped m Registry t)"
  by (rule balanced_scoped) simp_all

lemma bal_setValue: "balanced rank 2 t \<Longrightarrow> balanced rank (Suc 0) (setValue_locks v same t threw)"
  by (auto simp: setValue_locks_def intro!: bal(1,2) bal_var)

text \<open>Every call takes its locks in the order.\<close>

lemma runs_balanced:
  "call_runs c t \<Longrightarrow> callbacks_ok c \<Longrightarrow> balanced rank (lowest c) t"
  "calls_run cs t \<Longrightarrow> \<forall>c\<in>set cs. callbacks_ok c \<and> k \<le> lowest c \<Longrightarrow> balanced rank k t"
proof (induction arbitrary: and k rule: call_runs_calls_run.inducts)
  case (cr_log s c)
  then show ?case by (simp add: bal_log_call)
next
  case (cr_toString s v threw e)
  then show ?case by (auto simp: toString_locks_def intro!: bal(1,2) bal_var bal_macro)
next
  case (cr_setValue cs t v same threw)
  then show ?case by (auto intro!: bal_setValue)
next
  case (cr_fromString cs t s v cast_ok same threw e)
  then show ?case by (auto simp: fromString_locks_def intro!: bal(1,2) bal_setValue bal_macro)
next
  case (cr_lookup s s' v name type ds info err threw e)
  then show ?case
    by (auto simp: Config_Lookup_locks_def toString_locks_def intro!: bal(1,2) bal_registry bal_var bal_macro split: option.split)
next
  case (cr_visit cs t)
  then show ?case by (auto simp: Visit_locks_def intro!: bal_registry)
next
  case (cr_Cons c t cs u)
  then show ?case by (auto intro!: bal(2) intro: balanced_mono)
qed (auto simp: getValue_locks_def addListener_locks_def delListener_locks_def getListener_locks_def
    clearListener_locks_def Config_Lookup_name_locks_def LookupBase_locks_def check_file_locks_def
    intro!: bal(1) bal_var bal_registry balanced_scoped)


text \<open>Whatever its callbacks do, a call releases what it takes.\<close>

lemma runs_nested:
  "call_runs c t \<Longrightarrow> nested [] t" "calls_run cs t \<Longrightarrow> nested [] t"
proof (induction rule: call_runs_calls_run.inducts)
  case (cr_log s c)
  then show ?case by (rule balanced_ok(1) [OF bal_log_call])
next
  case (cr_toString s v threw e)
  then show ?case using balanced_ok(1) [OF bal_macro [OF cr_toString bal(1) order_refl]]
    by (auto simp: toString_locks_def intro!: nested_append nested_scoped)
next
  case (cr_setValue cs t v same threw)
  then show ?case by (auto simp: setValue_locks_def intro!: nested_append nested_scoped)
next
  case (cr_fromString cs t s v cast_ok same threw e)
  then show ?case using balanced_ok(1) [OF bal_macro [OF cr_fromString(2) bal(1) order_refl]]
    by (auto simp: fromString_locks_def setValue_locks_def intro!: nested_append nested_scoped)
next
  case (cr_lookup s s' v name type ds info err threw e)
  have "call_runs (Lookup v name) (Config_Lookup_locks type name ds info err
      (toString_locks v threw (LIONET_LOG_LEVEL_locks e [] s)) s')"
    using cr_lookup by (rule call_runs_calls_run.cr_lookup)
  from runs_balanced(1) [OF this] show ?case by (simp add: balanced_ok(1))
next
  case (cr_visit cs t)
  then show ?case by (auto simp: Visit_locks_def intro!: nested_scoped)
qed (auto simp: getValue_locks_def addListener_locks_def delListener_locks_def getListener_locks_def
    clearListener_locks_def Config_Lookup_name_locks_def LookupBase_locks_def check_file_locks_def
    intro!: nested_append nested_scoped)

text \<open>The states that programs reach are such states.\<close>

lemma log_inv_roots:
  assumes "log_inv s" and "mgr_root s = Some 0"
  shows "roots_ok s"
proof -
  obtain x0 where "loggers s 0 = Some x0" "l_root x0 = None" using assms unfolding log_inv_def by auto
  with assms show ?thesis unfolding roots_ok_def log_inv_def logger_ok_def by (metis option.inject)
qed

interpretation calls: lock_order rank calls_run "\<lambda>cs. \<forall>c\<in>set cs. callbacks_ok c"
  by unfold_locales (auto intro!: runs_balanced(2))

section \<open>Properties\<close>

text \<open>
  C11. Logging and configuration never deadlock: let any number of threads make any calls on loggers, appenders,
  the manager, configuration variables and the registry, where the listeners of variables only log and
  configure loggers (as the listener of \<open>logs\<close> does) and the callbacks of \<open>Visit\<close> keep off the registry. However the threads have been
  interleaved so far, they can be run on until every call has returned, every lock is free then, and the
  number of steps is the number of the lock operations of the calls.
\<close>

theorem calls_never_deadlock:
  assumes "list_all2 calls_run progs ths" and "\<forall>cs\<in>set progs. \<forall>c\<in>set cs. callbacks_ok c"
    and "locks_run is (no_locks, ths) = Some (t, rest)"
  shows "\<exists>js. locks_run js (t, rest) = Some (no_locks, map (\<lambda>_. []) ths) \<and> length is + length js = acts_left ths"
  by (rule calls.never_stuck [OF assms])

text \<open>
  One thread loads a value of a variable whose listener is that of \<open>logs\<close>, and another writes to the root
  logger; both have begun.
\<close>

definition demo_progs :: "call list list" where
  "demo_progs = [[FromString 0 (map Log (on_logger_conf_changed_calls (\<lambda>_. 1) (\<lambda>_. 9) demo_event env_new [] [ex_define]))],
     [Log (LoggerLog ERROR demo_event 0)]]"

theorem calls_never_deadlock_witness:
  "\<exists>ths t rest js. list_all2 calls_run demo_progs ths \<and> locks_run [0, 1] (no_locks, ths) = Some (t, rest) \<and>
    spin_of t (LoggerMutex 0) = Some 1 \<and> rw_of t (ConfVar 0) = RW_readers 1 \<and>
    locks_run js (t, rest) = Some (no_locks, [[], []])"
proof -
  obtain s where s: "LoggerManager_new (\<lambda>_. True) (\<lambda>_. True) (\<lambda>_. True) = Inr s" by (rule manager_starts)
  note sel = manager_sel [OF s]
  have ok: "roots_ok s" by (rule log_inv_roots [OF sel(1,2)])
  have all: "\<exists>t. calls_run (map Log cs) t" for cs
    by (induction cs) (auto intro: cr_Nil cr_Cons cr_log [OF ok])
  obtain u where u: "calls_run (map Log (on_logger_conf_changed_calls (\<lambda>_. 1) (\<lambda>_. 9) demo_event env_new [] [ex_define])) u"
    using all by blast
  let ?l = "scoped LK (LoggerMutex 0) (appenders_log_locks ERROR demo_event [1, 2, 3, 4] s)"
  let ?v = "setValue_locks 0 False u False"
  have "call_runs (Log (LoggerLog ERROR demo_event 0)) ?l"
    using cr_log [OF ok, of "LoggerLog ERROR demo_event 0"] sel(5)
    by (simp add: Logger_log_locks.simps Logger_new_def less_eq_log_level_def del: appenders_log_locks.simps)
  moreover have "call_runs (FromString 0 (map Log (on_logger_conf_changed_calls (\<lambda>_. 1) (\<lambda>_. 9) demo_event env_new [] [ex_define]))) ?v"
    using cr_fromString [OF u ok, of 0 True False False demo_event] by (simp add: fromString_locks_def)
  ultimately have r: "list_all2 calls_run demo_progs [?v, ?l]"
    using cr_Cons [OF _ cr_Nil] by (fastforce simp: demo_progs_def)
  have c: "\<forall>cs\<in>set demo_progs. \<forall>c\<in>set cs. callbacks_ok c" by (auto simp: demo_progs_def)
  obtain t rest where t: "locks_run [0, 1] (no_locks, [?v, ?l]) = Some (t, rest)"
      "spin_of t (LoggerMutex 0) = Some 1" "rw_of t (ConfVar 0) = RW_readers 1"
    by (simp add: locks_step_def scoped_def setValue_locks_def no_locks_def Spinlock_new_def Spinlock_lock_def
        RWMutex_new_def RWMutex_rdlock_def)
  from calls_never_deadlock [OF r c t(1)] r t show ?thesis by fastforce
qed

text \<open>
  C37. \<open>setValue\<close> holds the read lock of the variable while its listeners run, so a listener that adds a listener
  to the variable, removes one (itself, for example) or gives it another value waits for its own thread for ever: whatever other
  threads do and whatever it did before, the call never returns.
\<close>

theorem listener_on_own_variable_hangs:
  assumes "calls_run cs u" and "x = addListener_locks v \<or> x = delListener_locks v \<or> x = setValue_locks v False [] False"
    and "calls_run ds w" and "calls_run es z" and "list_all2 calls_run progs ths"
    and "locks_run is (no_locks, (setValue_locks v False (u @ x @ w) threw @ z) # ths) = Some (t, rest)"
  shows "rest ! 0 \<noteq> []"
proof -
  have n: "nested [] u" "nested [] w" "nested [] z" using assms(1,3,4) runs_nested(2) by blast+
  have x: "nested [] x" using assms(2)
    by (auto simp: addListener_locks_def delListener_locks_def setValue_locks_def intro!: nested_append nested_scoped)
  have "\<forall>y\<in>set ths. nested [] y"
    using assms(5) runs_nested(2) by (metis list_all2_conv_all_nth in_set_conv_nth)
  moreover have "nested [] (setValue_locks v False (u @ x @ w) threw @ z)"
    using n x by (auto simp: setValue_locks_def intro!: nested_append nested_scoped)
  moreover have "retakes [] (setValue_locks v False (u @ x @ w) threw @ z)"
  proof -
    have x2: "x = scoped RD (ConfVar v) [] @ scoped WR (ConfVar v) [] \<or> x = scoped WR (ConfVar v) []"
      using assms(2) by (auto simp: addListener_locks_def delListener_locks_def setValue_locks_def)
    then obtain a r where a: "nested [] a" "x = a @ Acq WR (ConfVar v) # r"
      by (metis append_Nil nested.simps(1) nested_scoped scoped_def)
    from retakes_scoped [OF nested_append [OF n(1) a(1)], of WR RD "Acq WR (ConfVar v) # r @ w"] a(2)
    show ?thesis by (auto simp: setValue_locks_def)
  qed
  ultimately show ?thesis by (intro retakes_never_ends [OF _ _ _ assms(6)]) auto
qed

theorem listener_on_own_variable_hangs_witness:
  "\<exists>t rest. locks_run [0, 1, 1] (no_locks, [setValue_locks 0 False (delListener_locks 0) False, getValue_locks 0]) = Some (t, rest) \<and>
    rest ! 0 \<noteq> [] \<and> rest ! 1 = [] \<and> locks_step 0 (t, rest) = None"
proof -
  let ?ths = "[setValue_locks 0 False (delListener_locks 0) False, getValue_locks 0]"
  obtain t rest where t: "locks_run [0, 1, 1] (no_locks, ?ths) = Some (t, rest)" "rest ! 1 = []" "locks_step 0 (t, rest) = None"
    by (simp add: locks_step_def scoped_def setValue_locks_def delListener_locks_def getValue_locks_def no_locks_def
        RWMutex_new_def RWMutex_rdlock_def RWMutex_wrlock_def RWMutex_unlock_def)
  have "calls_run [GetValue 0] (getValue_locks 0)" using cr_Cons [OF cr_getValue cr_Nil, of 0] by simp
  then have g: "list_all2 calls_run [[GetValue 0]] [getValue_locks 0]" by simp
  from listener_on_own_variable_hangs [OF cr_Nil _ cr_Nil cr_Nil g, of "delListener_locks 0" 0 "[0, 1, 1]" False t rest] t
  show ?thesis by auto
qed

end
