(* ===== verification/ProgRun.thy ===== *)
theory ProgRun imports LockRun begin

text \<open>
  Threads that share a state as well as locks. A program is a resumption: it stops, does something to a lock
  object, or acts once on the shared state and goes on as the state told it to. The theory says what a run of
  several programs is and proves two facts on programs in general: scoped locks in the order of a rank
  exclude deadlock, and what is done under one mutex looks as if it was done at once.
\<close>

section \<open>Programs and their runs\<close>

datatype ('l, 's) prog =
    Halt
  | Sync "'l lock_act" "('l, 's) prog"
  | Act "'s \<Rightarrow> ('s \<times> ('l, 's) prog) res"

type_synonym ('l, 's) prog_state = "'l lock_table \<times> 's \<times> ('l, 's) prog list"

text \<open>One step of thread \<open>i\<close>: \<open>None\<close> where it has ended, has to wait, or runs into a fault.\<close>

definition prog_step :: "nat \<Rightarrow> ('l, 's) prog_state \<Rightarrow> ('l, 's) prog_state option" where
  "prog_step i c =
     (let (t, s, ps) = c
      in if i < length ps then
           (case ps ! i of
              Halt \<Rightarrow> None
            | Sync (Acq m l) p \<Rightarrow> map_option (\<lambda>t'. (t', s, ps[i := p])) (acquire i m l t)
            | Sync (Rel m l) p \<Rightarrow> Some (release m l t, s, ps[i := p])
            | Act f \<Rightarrow> (case f s of Inl _ \<Rightarrow> None | Inr (s', p) \<Rightarrow> Some (t, s', ps[i := p])))
         else None)"

fun prog_run :: "nat list \<Rightarrow> ('l, 's) prog_state \<Rightarrow> ('l, 's) prog_state option" where
  "prog_run [] c = Some c"
| "prog_run (i # is) c = (case prog_step i c of None \<Rightarrow> None | Some c' \<Rightarrow> prog_run is c')"

text \<open>Thread \<open>i\<close> is about to run into a fault.\<close>

definition prog_faults :: "nat \<Rightarrow> ('l, 's) prog_state \<Rightarrow> bool" where
  "prog_faults i c =
     (let (t, s, ps) = c
      in i < length ps \<and> (case ps ! i of Act f \<Rightarrow> (case f s of Inl _ \<Rightarrow> True | Inr _ \<Rightarrow> False) | _ \<Rightarrow> False))"

text \<open>A scoped lock: \<open>body\<close> and what comes after the scope are given as programs with a continuation.\<close>

definition in_scope ::
    "lock_mode \<Rightarrow> 'l \<Rightarrow> (('l, 's) prog \<Rightarrow> ('l, 's) prog) \<Rightarrow> ('l, 's) prog \<Rightarrow> ('l, 's) prog" where
  "in_scope m l body k = Sync (Acq m l) (body (Sync (Rel m l) k))"

lemma prog_run_append:
  "prog_run (is @ js) c = (case prog_run is c of None \<Rightarrow> None | Some c' \<Rightarrow> prog_run js c')"
  by (induction "is" arbitrary: c) (auto split: option.splits)

lemma prog_step_cases:
  assumes "prog_step i (t, s, ps) = Some c'"
  obtains m l p t' where "i < length ps" and "ps ! i = Sync (Acq m l) p" and "acquire i m l t = Some t'"
      and "c' = (t', s, ps[i := p])"
    | m l p where "i < length ps" and "ps ! i = Sync (Rel m l) p" and "c' = (release m l t, s, ps[i := p])"
    | f s' p where "i < length ps" and "ps ! i = Act f" and "f s = Inr (s', p)" and "c' = (t, s', ps[i := p])"
  using assms
  by (fastforce simp: prog_step_def split: if_splits prog.splits lock_act.splits sum.splits)

text \<open>A thread that runs alone.\<close>

lemma prog_step_sel:
  assumes "i < length ps"
  shows "ps ! i = Sync (Rel m l) p \<Longrightarrow> prog_step i (t, s, ps) = Some (release m l t, s, ps[i := p])"
    and "ps ! i = Sync (Acq m l) p \<Longrightarrow> prog_step i (t, s, ps) = map_option (\<lambda>t'. (t', s, ps[i := p])) (acquire i m l t)"
    and "ps ! i = Act f \<Longrightarrow> f s = Inr (s', p) \<Longrightarrow> prog_step i (t, s, ps) = Some (t, s', ps[i := p])"
  using assms by (simp_all add: prog_step_def)

section \<open>No deadlock\<close>

text \<open>
  \<open>disciplined rank I H p\<close>: a program that holds \<open>H\<close> takes locks in the order of the ranks and releases them in
  the order of scopes, and from states in \<open>I\<close> it stays in \<open>I\<close> and meets no fault.
\<close>

inductive disciplined ::
    "('l \<Rightarrow> nat) \<Rightarrow> ('s \<Rightarrow> bool) \<Rightarrow> (lock_mode \<times> 'l) list \<Rightarrow> ('l, 's) prog \<Rightarrow> bool" for rank I where
  d_halt: "disciplined rank I [] Halt"
| d_acq: "\<forall>h\<in>set H. rank (snd h) < rank l \<Longrightarrow> disciplined rank I ((m, l) # H) p \<Longrightarrow>
    disciplined rank I H (Sync (Acq m l) p)"
| d_rel: "disciplined rank I H p \<Longrightarrow> disciplined rank I ((m, l) # H) (Sync (Rel m l) p)"
| d_act: "(\<And>s. I s \<Longrightarrow> \<exists>s' p. f s = Inr (s', p) \<and> I s' \<and> disciplined rank I H p) \<Longrightarrow> disciplined rank I H (Act f)"

inductive_cases d_acqE: "disciplined rank I H (Sync (Acq m l) p)"
inductive_cases d_relE: "disciplined rank I H (Sync (Rel m l) p)"
inductive_cases d_actE: "disciplined rank I H (Act f)"
inductive_cases d_haltE: "disciplined rank I H Halt"

definition prog_inv ::
    "('l \<Rightarrow> nat) \<Rightarrow> ('s \<Rightarrow> bool) \<Rightarrow> ('l, 's) prog_state \<Rightarrow> (lock_mode \<times> 'l) list list \<Rightarrow> bool" where
  "prog_inv rank I c Hs \<longleftrightarrow>
     (case c of (t, s, ps) \<Rightarrow> agrees t Hs \<and> I s \<and> list_all2 (disciplined rank I) Hs ps)"

lemma prog_inv_new:
  assumes "\<forall>p\<in>set ps. disciplined rank I [] p" and "I s"
  shows "prog_inv rank I (no_locks, s, ps) (replicate (length ps) [])"
proof -
  have "run_inv (no_locks, map (\<lambda>_. []) ps) (replicate (length ps) [])"
    using run_inv_new [of "map (\<lambda>_. []) ps"] by simp
  with assms show ?thesis by (auto simp: prog_inv_def run_inv_def list_all2_conv_all_nth)
qed

text \<open>The programs get smaller with every step.\<close>

definition succ_of :: "(('l, 's) prog \<times> ('l, 's) prog) set" where
  "succ_of = {(q, p). (\<exists>a. p = Sync a q) \<or> (\<exists>f s s'. p = Act f \<and> f s = Inr (s', q))}"

lemma wf_succ_of: "wf (succ_of :: (('l, 's) prog \<times> ('l, 's) prog) set)"
proof (rule wfUNIVI)
  fix P :: "('l, 's) prog \<Rightarrow> bool" and p
  assume "\<forall>p. (\<forall>q. (q, p) \<in> succ_of \<longrightarrow> P q) \<longrightarrow> P p"
  then have h: "(\<And>q. (q, p) \<in> succ_of \<Longrightarrow> P q) \<Longrightarrow> P p" for p by blast
  show "P p"
  proof (induction p)
    case Halt
    show ?case by (rule h) (simp add: succ_of_def)
  next
    case (Sync a p)
    show ?case by (rule h) (use Sync in \<open>simp add: succ_of_def\<close>)
  next
    case (Act f)
    show ?case
    proof (rule h)
      fix q assume "(q, Act f) \<in> succ_of"
      then obtain s s' where q: "f s = Inr (s', q)" by (auto simp: succ_of_def)
      show "P q" by (rule Act.IH [of "f s" "(s', q)"]) (use q in \<open>auto intro: setr.intros rangeI simp: q [symmetric]\<close>)
    qed
  qed
qed

lemma prog_step_inv:
  assumes "prog_inv rank I c Hs" and "prog_step i c = Some c'"
  shows "\<exists>Hs'. prog_inv rank I c' Hs' \<and> (snd (snd c'), snd (snd c)) \<in> listrel1 succ_of"
proof -
  obtain t s ps where c: "c = (t, s, ps)" by (cases c)
  have inv: "agrees t Hs" "I s" "list_all2 (disciplined rank I) Hs ps" using assms(1) c by (simp_all add: prog_inv_def)
  have len: "length Hs = length ps" using inv(3) by (rule list_all2_lengthD)
  have smaller: "(ps[i := q], ps) \<in> listrel1 succ_of" if "i < length ps" and "(q, ps ! i) \<in> succ_of" for q
    unfolding listrel1_def
    using that id_take_nth_drop [of i ps] upd_conv_take_nth_drop [of i ps q] by blast
  have d: "disciplined rank I (Hs ! i) (ps ! i)" if "i < length ps" using inv(3) that by (simp add: list_all2_conv_all_nth)
  from assms(2) [unfolded c] show ?thesis
  proof (cases rule: prog_step_cases)
    case (1 m l p t')
    then have "disciplined rank I ((m, l) # Hs ! i) p" using d by (auto elim: d_acqE)
    with 1 inv len have "prog_inv rank I c' (Hs[i := (m, l) # Hs ! i])"
      by (auto simp: prog_inv_def agrees_acquire list_all2_update_cong)
    with 1 c smaller show ?thesis by (auto simp: succ_of_def)
  next
    case (2 m l p)
    with d obtain H where H: "Hs ! i = (m, l) # H" "disciplined rank I H p" by (auto elim: d_relE)
    with 2 inv len have "prog_inv rank I c' (Hs[i := H])"
      by (auto simp: prog_inv_def agrees_release list_all2_update_cong)
    with 2 c smaller show ?thesis by (auto simp: succ_of_def)
  next
    case (3 f s' p)
    with d inv(2) have "I s'" "disciplined rank I (Hs ! i) p" by (fastforce elim: d_actE)+
    with inv(3) have "list_all2 (disciplined rank I) (Hs[i := Hs ! i]) (ps[i := p])"
      by (intro list_all2_update_cong)
    with 3 inv \<open>I s'\<close> have "prog_inv rank I c' Hs" by (simp add: prog_inv_def)
    with 3 c smaller show ?thesis by (auto simp: succ_of_def)
  qed
qed

lemma prog_runs_inv:
  "prog_run is c = Some c' \<Longrightarrow> prog_inv rank I c Hs \<Longrightarrow>
    \<exists>Hs'. prog_inv rank I c' Hs' \<and> length (snd (snd c')) = length (snd (snd c))"
proof (induction "is" arbitrary: c Hs)
  case (Cons i js)
  then obtain c1 where c1: "prog_step i c = Some c1" "prog_run js c1 = Some c'" by (auto split: option.splits)
  from prog_step_inv [OF Cons.prems(2) c1(1)] obtain H1 where "prog_inv rank I c1 H1"
    "(snd (snd c1), snd (snd c)) \<in> listrel1 succ_of" by blast
  with Cons.IH [OF c1(2)] listrel1_eq_len show ?case by metis
qed auto

text \<open>
  Some thread can always step: where all wait, each behaves like a thread of theory LockRun that would go on
  to release what it holds.
\<close>

definition waiting :: "(lock_mode \<times> 'l) list \<Rightarrow> ('l, 's) prog \<Rightarrow> 'l lock_act list" where
  "waiting H p = (case p of Sync (Acq m l) q \<Rightarrow> Acq m l # map (\<lambda>(m, l). Rel m l) ((m, l) # H) | _ \<Rightarrow> map (\<lambda>(m, l). Rel m l) H)"

lemma releases_ok: "nested H (map (\<lambda>(m, l). Rel m l) H)" "ordered rank H (map (\<lambda>(m, l). Rel m l) H)"
  by (induction H) auto

lemma prog_progress:
  assumes "prog_inv rank I (t, s, ps) Hs" and "\<exists>p\<in>set ps. p \<noteq> Halt"
  shows "\<exists>i. prog_step i (t, s, ps) \<noteq> None"
proof (rule ccontr)
  assume stuck: "\<nexists>i. prog_step i (t, s, ps) \<noteq> None"
  have inv: "agrees t Hs" "I s" "length Hs = length ps" "\<And>i. i < length ps \<Longrightarrow> disciplined rank I (Hs ! i) (ps ! i)"
    using assms(1) by (auto simp: prog_inv_def list_all2_conv_all_nth)
  have w: "ps ! i = Halt \<and> Hs ! i = [] \<or> (\<exists>m l p. ps ! i = Sync (Acq m l) p \<and> (\<forall>h\<in>set (Hs ! i). rank (snd h) < rank l))"
    if "i < length ps" for i
  proof -
    have "prog_step i (t, s, ps) = None" using stuck by blast
    from inv(4) [OF that] show ?thesis
    proof cases
      case (d_act f)
      with inv(2) \<open>prog_step i (t, s, ps) = None\<close> that show ?thesis by (fastforce simp: prog_step_def)
    qed (use \<open>prog_step i (t, s, ps) = None\<close> that in \<open>auto simp: prog_step_def\<close>)
  qed
  let ?ths = "map2 waiting Hs ps"
  have "run_inv (t, ?ths) Hs"
    unfolding run_inv_def list_all2_conv_all_nth using inv w by (fastforce simp: waiting_def releases_ok)
  moreover have "run_ordered rank ?ths Hs"
    unfolding run_ordered_def list_all2_conv_all_nth using inv w by (fastforce simp: waiting_def releases_ok)
  moreover have "\<exists>x\<in>set ?ths. x \<noteq> []"
  proof -
    from assms(2) obtain i where i: "i < length ps" "ps ! i \<noteq> Halt" by (metis in_set_conv_nth)
    with w [OF i(1)] have "?ths ! i \<noteq> []" using inv(3) by (auto simp: waiting_def)
    with i(1) inv(3) show ?thesis by (metis length_map length_zip min.idem nth_mem)
  qed
  ultimately obtain i where i: "locks_step i (t, ?ths) \<noteq> None" using ordered_progress by blast
  then have "i < length ps" using inv(3) by (auto simp: locks_step_def split: if_splits)
  with i w [OF this] inv(3) have "prog_step i (t, s, ps) \<noteq> None"
    by (auto simp: locks_step_def prog_step_def waiting_def split: option.splits)
  with stuck show False by blast
qed

lemma prog_ended_free:
  assumes "prog_inv rank I (t, s, ps) Hs" and "\<forall>p\<in>set ps. p = Halt"
  shows "t = no_locks"
proof (rule ended_free)
  have "Hs ! i = []" if "i < length ps" for i
  proof -
    have "disciplined rank I (Hs ! i) (ps ! i)" using assms(1) that by (simp add: prog_inv_def list_all2_conv_all_nth)
    moreover have "ps ! i = Halt" using assms(2) that by simp
    ultimately show ?thesis by (auto elim: d_haltE)
  qed
  with assms(1) show "run_inv (t, map (\<lambda>_. []) ps) Hs"
    by (auto simp: prog_inv_def run_inv_def list_all2_conv_all_nth)
qed simp

lemma prog_finishes:
  assumes "prog_inv rank I (t, s, ps) Hs"
  shows "\<exists>js s'. prog_run js (t, s, ps) = Some (no_locks, s', map (\<lambda>_. Halt) ps) \<and> I s'"
  using assms
proof (induction ps arbitrary: t s Hs rule: wf_induct_rule [OF wf_listrel1_iff [THEN iffD2, OF wf_succ_of]])
  case (1 ps)
  show ?case
  proof (cases "\<exists>p\<in>set ps. p \<noteq> Halt")
    case True
    from prog_progress [OF 1(2) this] obtain i t1 s1 ps1 where st: "prog_step i (t, s, ps) = Some (t1, s1, ps1)" by fastforce
    from prog_step_inv [OF 1(2) st] obtain H1 where H1: "prog_inv rank I (t1, s1, ps1) H1" "(ps1, ps) \<in> listrel1 succ_of" by auto
    from 1(1) [OF H1(2,1)] obtain js s' where js: "prog_run js (t1, s1, ps1) = Some (no_locks, s', map (\<lambda>_. Halt) ps1)" "I s'" by blast
    have "map (\<lambda>_. Halt) ps1 = map (\<lambda>_. Halt) ps" using listrel1_eq_len [OF H1(2)] by (simp add: list_eq_iff_nth_eq)
    with st js show ?thesis by (intro exI [of _ "i # js"] exI [of _ s']) simp
  next
    case False
    then have "map (\<lambda>_. Halt) ps = ps" by (induction ps) auto
    with False prog_ended_free [OF 1(2)] 1(2) show ?thesis
      by (intro exI [of _ "[]"] exI [of _ s]) (auto simp: prog_inv_def)
  qed
qed

lemma prog_never_stuck:
  assumes "\<forall>p\<in>set ps. disciplined rank I [] p" and "I s" and "prog_run is (no_locks, s, ps) = Some (t, s1, rest)"
  shows "\<not> prog_faults i (t, s1, rest) \<and>
    (\<exists>js s'. prog_run js (t, s1, rest) = Some (no_locks, s', map (\<lambda>_. Halt) ps) \<and> I s')"
proof -
  from prog_runs_inv [OF assms(3) prog_inv_new [OF assms(1,2)]] obtain Hs where
    Hs: "prog_inv rank I (t, s1, rest) Hs" "length rest = length ps" by auto
  have "map (\<lambda>_. Halt) rest = map (\<lambda>_. Halt) ps" using Hs(2) by (simp add: list_eq_iff_nth_eq)
  moreover have "\<not> prog_faults i (t, s1, rest)"
    using Hs(1) by (fastforce simp: prog_faults_def prog_inv_def list_all2_conv_all_nth elim: d_actE split: prog.splits sum.splits)
  ultimately show ?thesis using prog_finishes [OF Hs(1)] by metis
qed

section \<open>Interleavings\<close>

text \<open>\<open>merge xss ys\<close>: \<open>ys\<close> is an interleaving of the lists \<open>xss\<close>.\<close>

inductive merge :: "'a list list \<Rightarrow> 'a list \<Rightarrow> bool" where
  merge_done: "\<forall>xs\<in>set xss. xs = [] \<Longrightarrow> merge xss []"
| merge_step: "i < length xss \<Longrightarrow> xss ! i = x # xs \<Longrightarrow> merge (xss[i := xs]) ys \<Longrightarrow> merge xss (x # ys)"

text \<open>An interleaving of parts of the lists can be completed with what was left out.\<close>

lemma merge_filter:
  "merge yss ts \<Longrightarrow> yss = map (filter P) xss \<Longrightarrow> \<exists>us. merge xss us \<and> filter P us = ts"
proof (induction "sum_list (map length xss)" arbitrary: xss yss ts rule: less_induct)
  case less
  show ?case
  proof (cases "\<exists>i < length xss. \<exists>x xs. xss ! i = x # xs \<and> \<not> P x")
    case True
    then obtain i x xs where i: "i < length xss" "xss ! i = x # xs" "\<not> P x" by blast
    have "sum_list (map length (xss[i := xs])) < sum_list (map length xss)"
      using sum_list_map_update [OF i(1), of length xs] i(2) by simp
    moreover have "yss = map (filter P) (xss[i := xs])"
      using less.prems(2) i list_update_id [of "map (filter P) xss" i] by (simp add: map_update)
    ultimately obtain us where "merge (xss[i := xs]) us" "filter P us = ts"
      using less.hyps less.prems(1) by blast
    with i show ?thesis by (intro exI [of _ "x # us"]) (auto intro: merge_step)
  next
    case False
    from less.prems(1) show ?thesis
    proof cases
      case merge_done
      have "\<forall>xs\<in>set xss. xs = []"
      proof
        fix xs assume "xs \<in> set xss"
        then obtain i where i: "i < length xss" "xss ! i = xs" by (auto simp: in_set_conv_nth)
        have "filter P xs = []" using merge_done less.prems(2) \<open>xs \<in> set xss\<close> by simp
        with i False show "xs = []" by (cases xs) (auto split: if_splits)
      qed
      then have "merge xss []" by (rule merge.merge_done)
      with merge_done show ?thesis by auto
    next
      case (merge_step i x ys zs)
      then have i: "i < length xss" "filter P (xss ! i) = x # ys" using less.prems(2) by auto
      then obtain xs where xs: "xss ! i = x # xs" "filter P xs = ys" "P x"
        using False by (cases "xss ! i") (auto split: if_splits)
      have "sum_list (map length (xss[i := xs])) < sum_list (map length xss)"
        using sum_list_map_update [OF i(1), of length xs] xs(1) by simp
      moreover have "yss[i := ys] = map (filter P) (xss[i := xs])" using less.prems(2) xs(2) by (simp add: map_update)
      ultimately obtain us where "merge (xss[i := xs]) us" "filter P us = zs"
        using less.hyps merge_step(4) by blast
      with i(1) xs merge_step(1) show ?thesis by (intro exI [of _ "x # us"]) (auto intro: merge.merge_step)
    qed
  qed
qed

lemma mset_concat_update:
  "i < length css \<Longrightarrow> css ! i = x # xs \<Longrightarrow> mset (concat css) = {#x#} + mset (concat (css[i := xs]))"
proof (induction css arbitrary: i)
  case (Cons c css)
  then show ?case by (cases i) auto
qed simp

lemma merge_mset: "merge css ys \<Longrightarrow> mset ys = mset (concat css)"
proof (induction rule: merge.induct)
  case (merge_step i css x xs ys)
  then show ?case using mset_concat_update [OF merge_step(1,2)] by simp
qed auto

lemma merge_Nil: "merge xss ys \<Longrightarrow> merge ([] # xss) ys"
proof (induction rule: merge.induct)
  case (merge_step i xss x xs ys)
  then show ?case by (intro merge.merge_step [of "Suc i"]) auto
qed (simp add: merge_done)

lemma merge_concat: "merge css (concat css)"
proof (induction css)
  case Nil
  show ?case by (simp add: merge_done)
next
  case (Cons c css)
  show ?case
  proof (induction c)
    case Nil
    show ?case by (simp add: merge_Nil Cons.IH)
  next
    case (Cons x c)
    then show ?case by (auto intro: merge_step [of 0])
  qed
qed

section \<open>What is done under one mutex\<close>

text \<open>
  \<open>sections L I exec p cs\<close>: outside the mutex \<open>L\<close>, in states of \<open>I\<close>, the program \<open>p\<close> only reads, and its sections
  under \<open>L\<close> have the effects of the calls \<open>cs\<close>, in that order. \<open>section_to L I exec p s s' cs\<close>: \<open>p\<close> is inside
  such a section; from \<open>s\<close> it leaves it in \<open>s'\<close>, with the calls \<open>cs\<close> still to come.
\<close>

inductive sections ::
    "'l \<Rightarrow> ('s \<Rightarrow> bool) \<Rightarrow> ('c \<Rightarrow> 's \<Rightarrow> 's) \<Rightarrow> ('l, 's) prog \<Rightarrow> 'c list \<Rightarrow> bool"
  and section_to ::
    "'l \<Rightarrow> ('s \<Rightarrow> bool) \<Rightarrow> ('c \<Rightarrow> 's \<Rightarrow> 's) \<Rightarrow> ('l, 's) prog \<Rightarrow> 's \<Rightarrow> 's \<Rightarrow> 'c list \<Rightarrow> bool"
  for L I exec where
  sec_halt: "sections L I exec Halt []"
| sec_sync: "a \<noteq> Acq LK L \<Longrightarrow> a \<noteq> Rel LK L \<Longrightarrow> sections L I exec p cs \<Longrightarrow> sections L I exec (Sync a p) cs"
| sec_read: "(\<And>s. I s \<Longrightarrow> \<exists>p. f s = Inr (s, p) \<and> sections L I exec p cs) \<Longrightarrow> sections L I exec (Act f) cs"
| sec_enter: "(\<And>s. I s \<Longrightarrow> section_to L I exec p s (exec c s) cs) \<Longrightarrow>
    sections L I exec (Sync (Acq LK L) p) (c # cs)"
| in_leave: "sections L I exec p cs \<Longrightarrow> section_to L I exec (Sync (Rel LK L) p) s s cs"
| in_sync: "a \<noteq> Acq LK L \<Longrightarrow> a \<noteq> Rel LK L \<Longrightarrow> section_to L I exec p s s' cs \<Longrightarrow>
    section_to L I exec (Sync a p) s s' cs"
| in_act: "f s = Inr (s1, p) \<Longrightarrow> I s1 \<Longrightarrow> section_to L I exec p s1 s' cs \<Longrightarrow> section_to L I exec (Act f) s s' cs"

inductive_cases sec_haltE: "sections L I exec Halt cs"
inductive_cases sec_syncE: "sections L I exec (Sync a p) cs"
inductive_cases sec_actE: "sections L I exec (Act f) cs"
inductive_cases in_haltE: "section_to L I exec Halt s s' cs"
inductive_cases in_syncE: "section_to L I exec (Sync a p) s s' cs"
inductive_cases in_actE: "section_to L I exec (Act f) s s' cs"

text \<open>What holds of threads while one of them, or none, is inside; \<open>s1\<close> is the state at the end of that section.\<close>

definition serial_ok ::
    "'l \<Rightarrow> ('s \<Rightarrow> bool) \<Rightarrow> ('c \<Rightarrow> 's \<Rightarrow> 's) \<Rightarrow> ('l, 's) prog_state \<Rightarrow> 'c list list \<Rightarrow> 's \<Rightarrow> bool" where
  "serial_ok L I exec c css s1 \<longleftrightarrow>
     (case c of (t, s, ps) \<Rightarrow> length css = length ps \<and> I s \<and>
        (\<forall>i < length ps. spin_of t L \<noteq> Some i \<longrightarrow> sections L I exec (ps ! i) (css ! i)) \<and>
        (case spin_of t L of None \<Rightarrow> s1 = s | Some h \<Rightarrow> h < length ps \<and> section_to L I exec (ps ! h) s s1 (css ! h)))"

lemma acquire_spin:
  "acquire i m l t = Some t' \<Longrightarrow> (m, l) \<noteq> (LK, L) \<Longrightarrow> spin_of t' L = spin_of t L"
  "acquire i LK L t = Some t' \<Longrightarrow> spin_of t L = None \<and> spin_of t' L = Some i"
  by (cases m) (auto simp: Spinlock_lock_def split: if_splits)

lemma release_spin:
  "(m, l) \<noteq> (LK, L) \<Longrightarrow> spin_of (release m l t) L = spin_of t L" "spin_of (release LK L t) L = None"
  by (cases m) (auto simp: Spinlock_unlock_def)

lemma serial_step:
  assumes ok: "serial_ok L I exec c css s1" and st: "prog_step i c = Some c'"
  shows "serial_ok L I exec c' css s1 \<or>
    (\<exists>x xs. i < length css \<and> css ! i = x # xs \<and> serial_ok L I exec c' (css[i := xs]) (exec x s1))"
proof -
  obtain t s ps where c: "c = (t, s, ps)" by (cases c)
  have len: "length css = length ps" and I: "I s"
    and out: "\<And>j. j < length ps \<Longrightarrow> spin_of t L \<noteq> Some j \<Longrightarrow> sections L I exec (ps ! j) (css ! j)"
    and ins: "\<And>h. spin_of t L = Some h \<Longrightarrow> h < length ps \<and> section_to L I exec (ps ! h) s s1 (css ! h)"
    and free: "spin_of t L = None \<Longrightarrow> s1 = s"
    using ok by (auto simp: c serial_ok_def split: option.splits)
  from st [unfolded c] show ?thesis
  proof (cases rule: prog_step_cases)
    case (1 m l p t')
    show ?thesis
    proof (cases "(m, l) = (LK, L)")
      case True
      then have "acquire i LK L t = Some t'" using 1(3) by simp
      then have sp: "spin_of t L = None" "spin_of t' L = Some i" using acquire_spin(2) [of i L t t'] by simp_all
      from out [OF 1(1)] sp(1) 1(2) True obtain x xs where x: "css ! i = x # xs"
        "\<And>s. I s \<Longrightarrow> section_to L I exec p s (exec x s) xs" by (auto elim: sec_syncE)
      have "serial_ok L I exec c' (css[i := xs]) (exec x s1)"
        using 1(1,4) sp x(2) len I out free by (auto simp: serial_ok_def nth_list_update)
      with 1(1) len x(1) show ?thesis by auto
    next
      case False
      then have sp: "spin_of t' L = spin_of t L" using acquire_spin(1) [OF 1(3)] by simp
      have "sections L I exec p (css ! i)" if "spin_of t L \<noteq> Some i"
        using out [OF 1(1) that] 1(2) False by (auto elim: sec_syncE)
      moreover have "section_to L I exec p s s1 (css ! i)" if "spin_of t L = Some i"
        using ins [OF that] 1(2) False by (auto elim: in_syncE)
      ultimately have "serial_ok L I exec c' css s1"
        using 1(1,4) sp len I out ins free by (auto simp: serial_ok_def nth_list_update split: option.splits)
      then show ?thesis ..
    qed
  next
    case (2 m l p)
    show ?thesis
    proof (cases "(m, l) = (LK, L)")
      case True
      have sp: "spin_of t L = Some i" using out [OF 2(1)] 2(2) True by (auto elim: sec_syncE)
      from ins [OF sp] 2(2) True have "sections L I exec p (css ! i)" "s1 = s" by (auto elim: in_syncE)
      then have "serial_ok L I exec c' css s1"
        using 2(1,3) True sp len I out by (auto simp: serial_ok_def nth_list_update Spinlock_unlock_def)
      then show ?thesis ..
    next
      case False
      then have sp: "spin_of (release m l t) L = spin_of t L" by (rule release_spin(1))
      have "sections L I exec p (css ! i)" if "spin_of t L \<noteq> Some i"
        using out [OF 2(1) that] 2(2) False by (auto elim: sec_syncE)
      moreover have "section_to L I exec p s s1 (css ! i)" if "spin_of t L = Some i"
        using ins [OF that] 2(2) False by (auto elim: in_syncE)
      ultimately have "serial_ok L I exec c' css s1"
        using 2(1,3) sp len I out ins free by (auto simp: serial_ok_def nth_list_update split: option.splits)
      then show ?thesis ..
    qed
  next
    case (3 f s' p)
    have "serial_ok L I exec c' css s1"
    proof (cases "spin_of t L = Some i")
      case True
      from ins [OF True] 3(2,3) have "I s'" "section_to L I exec p s' s1 (css ! i)" by (auto elim: in_actE)
      with True 3(1,4) len out show ?thesis by (auto simp: serial_ok_def nth_list_update)
    next
      case False
      from out [OF 3(1) False] 3(2,3) I have "s' = s" "sections L I exec p (css ! i)" by (fastforce elim: sec_actE)+
      with False 3(1,4) len I out ins free show ?thesis
        by (auto simp: serial_ok_def nth_list_update split: option.splits)
    qed
    then show ?thesis ..
  qed
qed

lemma serial_run:
  assumes "prog_run is c = Some (t, s', ps)" and "\<forall>p\<in>set ps. p = Halt" and "serial_ok L I exec c css s1"
  shows "\<exists>ts. merge css ts \<and> s' = fold exec ts s1"
  using assms
proof (induction "is" arbitrary: c css s1)
  case Nil
  from Nil.prems(2) have halt: "ps ! i = Halt" if "i < length ps" for i using that by simp
  have ok: "serial_ok L I exec (t, s', ps) css s1" using Nil.prems by simp
  then have h: "spin_of t L \<noteq> Some h" for h
    using halt in_haltE [of L I exec s' s1 "css ! h"] by (auto simp: serial_ok_def)
  then have "spin_of t L = None" by (cases "spin_of t L") auto
  with ok halt have n: "length css = length ps" "\<And>i. i < length ps \<Longrightarrow> sections L I exec Halt (css ! i)" and s1: "s1 = s'"
    by (auto simp: serial_ok_def)
  have "\<forall>cs\<in>set css. cs = []" using n by (fastforce simp: in_set_conv_nth elim: sec_haltE)
  with s1 merge_done show ?case by (intro exI [of _ "[]"]) simp
next
  case (Cons i js)
  then obtain c1 where c1: "prog_step i c = Some c1" "prog_run js c1 = Some (t, s', ps)" by (auto split: option.splits)
  from serial_step [OF Cons.prems(3) c1(1)] show ?case
  proof
    assume "serial_ok L I exec c1 css s1"
    with Cons.IH [OF c1(2) assms(2)] show ?thesis .
  next
    assume "\<exists>x xs. i < length css \<and> css ! i = x # xs \<and> serial_ok L I exec c1 (css[i := xs]) (exec x s1)"
    then obtain x xs where x: "i < length css" "css ! i = x # xs" "serial_ok L I exec c1 (css[i := xs]) (exec x s1)" by blast
    from Cons.IH [OF c1(2) assms(2) x(3)] obtain ts where "merge (css[i := xs]) ts" "s' = fold exec ts (exec x s1)" by blast
    with x show ?thesis by (intro exI [of _ "x # ts"]) (auto intro: merge_step)
  qed
qed

text \<open>
  The contract between calls that do their work under one mutex and this theory. \<open>prog_of c k\<close> is the call
  followed by \<open>k\<close>, \<open>exec c\<close> its effect when it runs alone; a call that is not \<open>loud\<close> leaves the mutex alone
  and changes nothing. Then whatever interleaving the threads run in, the calls took effect one after the other.
\<close>

definition run_calls :: "('c \<Rightarrow> ('l, 's) prog \<Rightarrow> ('l, 's) prog) \<Rightarrow> 'c list \<Rightarrow> ('l, 's) prog" where
  "run_calls prog_of cs = foldr prog_of cs Halt"

lemma run_calls_simps [simp]:
  "run_calls prog_of [] = Halt" "run_calls prog_of (c # cs) = prog_of c (run_calls prog_of cs)"
  by (simp_all add: run_calls_def)

locale mutex_calls =
  fixes L :: 'l and I :: "'s \<Rightarrow> bool" and exec :: "'c \<Rightarrow> 's \<Rightarrow> 's" and loud :: "'c \<Rightarrow> bool"
    and prog_of :: "'c \<Rightarrow> ('l, 's) prog \<Rightarrow> ('l, 's) prog" and ok :: "'c \<Rightarrow> bool"
  assumes enters: "ok c \<Longrightarrow> loud c \<Longrightarrow> sections L I exec k cs \<Longrightarrow> sections L I exec (prog_of c k) (c # cs)"
    and silent: "ok c \<Longrightarrow> \<not> loud c \<Longrightarrow> sections L I exec k cs \<Longrightarrow> sections L I exec (prog_of c k) cs"
    and quiet: "ok c \<Longrightarrow> \<not> loud c \<Longrightarrow> I s \<Longrightarrow> exec c s = s"
    and keeps: "ok c \<Longrightarrow> I s \<Longrightarrow> I (exec c s)"
begin

lemma run_calls_sections: "\<forall>c\<in>set cs. ok c \<Longrightarrow> sections L I exec (run_calls prog_of cs) (filter loud cs)"
  by (induction cs) (auto intro: sec_halt enters silent)

lemma fold_loud: "\<forall>c\<in>set cs. ok c \<Longrightarrow> I s \<Longrightarrow> fold exec (filter loud cs) s = fold exec cs s"
  by (induction cs arbitrary: s) (auto simp: quiet keeps)

lemma merge_set: "merge css us \<Longrightarrow> c \<in> set us \<Longrightarrow> \<exists>cs\<in>set css. c \<in> set cs"
  by (auto dest!: merge_mset mset_eq_setD)

lemma serial:
  assumes "\<forall>cs\<in>set css. \<forall>c\<in>set cs. ok c" and "I s"
    and "prog_run is (no_locks, s, map (run_calls prog_of) css) = Some (t, s', map (\<lambda>_. Halt) css)"
  shows "\<exists>us. merge css us \<and> s' = fold exec us s"
proof -
  have "sections L I exec (run_calls prog_of (css ! i)) (filter loud (css ! i))" if "i < length css" for i
    using assms(1) that by (intro run_calls_sections) (metis nth_mem)
  then have "serial_ok L I exec (no_locks, s, map (run_calls prog_of) css) (map (filter loud) css) s"
    using assms(2) by (simp add: serial_ok_def no_locks_def Spinlock_new_def)
  from serial_run [OF assms(3) _ this] obtain ts where ts: "merge (map (filter loud) css) ts" "s' = fold exec ts s"
    by auto
  from merge_filter [OF ts(1) refl] obtain us where us: "merge css us" "filter loud us = ts" by blast
  have "\<forall>c\<in>set us. ok c" using merge_set [OF us(1)] assms(1) by blast
  with fold_loud [of us s] us ts(2) assms(2) show ?thesis by auto
qed

end

end
