(* ===== verification/LogConcurrent.thy ===== *)
theory LogConcurrent imports LockOrder ProgRun begin

text \<open>
  \<open>Logger::log\<close> of several threads at once. The functions of theory LogCore are written again as programs of
  theory ProgRun, every test of shared data, every lock operation and every piece of output a step of its own,
  in the order of \<open>log.cc\<close>: between two steps other threads may do what they like.
\<close>

section \<open>The programs\<close>

type_synonym log_prog = "(lock_id, log_sys) prog"

text \<open>\<open>LogFormatter::format\<close> to \<open>std::cout\<close> and to the stream of the file appender \<open>a\<close>, an item at a time.\<close>

fun format_cout ::
    "time_str \<Rightarrow> string \<Rightarrow> log_level \<Rightarrow> log_event \<Rightarrow> format_item list \<Rightarrow> log_prog \<Rightarrow> log_prog" where
  "format_cout tstr name level e [] k = k"
| "format_cout tstr name level e (it # its) k = Act (\<lambda>s.
     res_bind (item_format tstr name level e it) (\<lambda>u.
       Inr (s\<lparr>console := console s @ u\<rparr>, format_cout tstr name level e its k)))"

definition file_put :: "nat \<Rightarrow> string \<Rightarrow> log_sys \<Rightarrow> log_sys res" where
  "file_put a u s = res_bind (get_appender a s) (\<lambda>x.
     if failed (a_filestream x) \<or> u = '''' then Inr s
     else if is_open (a_filestream x) \<and> sys_writes s (a_filename x)
     then Inr (s\<lparr>files := (files s)(a_filename x := files s (a_filename x) @ u)\<rparr>)
     else Inr (put_appender a (x\<lparr>a_filestream := (a_filestream x)\<lparr>failed := True\<rparr>\<rparr>) s))"

fun format_file ::
    "time_str \<Rightarrow> string \<Rightarrow> log_level \<Rightarrow> log_event \<Rightarrow> nat \<Rightarrow> format_item list \<Rightarrow> log_prog \<Rightarrow> log_prog" where
  "format_file tstr name level e a [] k = k"
| "format_file tstr name level e a (it # its) k = Act (\<lambda>s.
     res_bind (item_format tstr name level e it) (\<lambda>u.
       res_bind (file_put a u s) (\<lambda>s'. Inr (s', format_file tstr name level e a its k))))"

definition StdoutLogAppender_log_prog ::
    "time_str \<Rightarrow> string \<Rightarrow> log_level \<Rightarrow> log_event \<Rightarrow> nat \<Rightarrow> log_prog \<Rightarrow> log_prog" where
  "StdoutLogAppender_log_prog tstr name level e a k = Act (\<lambda>s.
     res_bind (get_appender a s) (\<lambda>x.
       if level \<ge> a_level x then
         Inr (s, in_scope LK (AppenderMutex a) (\<lambda>k'. Act (\<lambda>s.
           res_bind (get_appender a s) (\<lambda>x. case a_formatter x of
               None \<Rightarrow> Inl NullDeref
             | Some f \<Rightarrow> Inr (s, format_cout tstr name level e (m_items f) k')))) k)
       else Inr (s, k)))"

definition FileLogAppender_reopen_prog :: "nat \<Rightarrow> log_prog \<Rightarrow> log_prog" where
  "FileLogAppender_reopen_prog a = in_scope LK (AppenderMutex a) (\<lambda>k. Act (\<lambda>s.
     res_bind (get_appender a s) (\<lambda>x.
       Inr (put_appender a (snd (FileLogAppender_reopen (sys_opens s) (sys_opens_dir s) x)) s, k))))"

text \<open>The test of \<open>is_open\<close>, and the part under the lock with the test of the stream at its end.\<close>

definition file_complain :: "nat \<Rightarrow> log_prog \<Rightarrow> log_prog" where
  "file_complain a k = Act (\<lambda>s. res_bind (get_appender a s) (\<lambda>x.
     Inr (s\<lparr>console := console s @ (if \<not> is_open (a_filestream x) then not_open_line else '''')\<rparr>, k)))"

definition file_write ::
    "time_str \<Rightarrow> string \<Rightarrow> log_level \<Rightarrow> log_event \<Rightarrow> nat \<Rightarrow> log_prog \<Rightarrow> log_prog" where
  "file_write tstr name level e a = in_scope LK (AppenderMutex a) (\<lambda>k. Act (\<lambda>s.
     res_bind (get_appender a s) (\<lambda>x. case a_formatter x of
         None \<Rightarrow> Inl NullDeref
       | Some f \<Rightarrow> Inr (s, format_file tstr name level e a (m_items f) (Act (\<lambda>s.
           res_bind (get_appender a s) (\<lambda>x.
             Inr (s\<lparr>console := console s @ (if failed (a_filestream x) then file_error_line else '''')\<rparr>, k))))))))"

definition FileLogAppender_log_prog ::
    "time_str \<Rightarrow> string \<Rightarrow> log_level \<Rightarrow> log_event \<Rightarrow> nat \<Rightarrow> log_prog \<Rightarrow> log_prog" where
  "FileLogAppender_log_prog tstr name level e a k = Act (\<lambda>s. res_bind (get_appender a s) (\<lambda>x.
     if level \<ge> a_level x then
       Inr (s, Act (\<lambda>s. res_bind (get_appender a s) (\<lambda>x.
         let rest = file_complain a (file_write tstr name level e a k)
         in Inr (s, if e_time e \<ge> a_lastTime x + 3
              then FileLogAppender_reopen_prog a (Act (\<lambda>s. res_bind (get_appender a s) (\<lambda>x.
                     Inr (put_appender a (x\<lparr>a_lastTime := e_time e\<rparr>) s, rest))))
              else rest))))
     else Inr (s, k)))"

definition LogAppender_log_prog ::
    "time_str \<Rightarrow> string \<Rightarrow> log_level \<Rightarrow> log_event \<Rightarrow> nat \<Rightarrow> log_prog \<Rightarrow> log_prog" where
  "LogAppender_log_prog tstr name level e a k = Act (\<lambda>s. res_bind (get_appender a s) (\<lambda>x.
     Inr (s, case a_kind x of
         StdoutLogAppender \<Rightarrow> StdoutLogAppender_log_prog tstr name level e a k
       | FileLogAppender \<Rightarrow> FileLogAppender_log_prog tstr name level e a k)))"

fun appenders_log_prog ::
    "time_str \<Rightarrow> string \<Rightarrow> log_level \<Rightarrow> log_event \<Rightarrow> nat list \<Rightarrow> log_prog \<Rightarrow> log_prog" where
  "appenders_log_prog tstr name level e [] k = k"
| "appenders_log_prog tstr name level e (a # as) k =
     LogAppender_log_prog tstr name level e a (appenders_log_prog tstr name level e as k)"

text \<open>
  \<open>Logger::log\<close>, with the part under the lock; \<open>via_root\<close> is the call of the root logger. Out of fuel is a fault
  here, so that the theorems on faults show that the fuel is enough.
\<close>

definition Logger_log_locked ::
    "time_str \<Rightarrow> log_level \<Rightarrow> log_event \<Rightarrow> nat \<Rightarrow> (nat \<Rightarrow> log_prog \<Rightarrow> log_prog res) \<Rightarrow> log_prog \<Rightarrow> log_prog" where
  "Logger_log_locked tstr level e l via_root k = Act (\<lambda>s. res_bind (get_logger l s) (\<lambda>x.
     if l_appenders x \<noteq> [] then Inr (s, appenders_log_prog tstr (l_name x) level e (l_appenders x) k)
     else (case l_root x of
         None \<Rightarrow> Inr (s, k)
       | Some r \<Rightarrow> res_bind (via_root r k) (\<lambda>p. Inr (s, p)))))"

fun Logger_log_prog :: "nat \<Rightarrow> time_str \<Rightarrow> log_level \<Rightarrow> log_event \<Rightarrow> nat \<Rightarrow> log_prog \<Rightarrow> log_prog" where
  "Logger_log_prog fuel tstr level e l k = Act (\<lambda>s. res_bind (get_logger l s) (\<lambda>x.
     if level \<ge> l_level x then
       Inr (s, in_scope LK (LoggerMutex l) (Logger_log_locked tstr level e l (\<lambda>r k'. case fuel of
           0 \<Rightarrow> Inl (Thrown ''fuel'')
         | Suc n \<Rightarrow> Inr (Logger_log_prog n tstr level e r k'))) k)
     else Inr (s, k)))"

declare Logger_log_prog.simps [simp del]

text \<open>The calls a thread makes, a level, an event and a logger each, and the effect of one that runs alone.\<close>

type_synonym log_request = "log_level \<times> log_event \<times> nat"

definition request_prog :: "time_str \<Rightarrow> log_request \<Rightarrow> log_prog \<Rightarrow> log_prog" where
  "request_prog tstr = (\<lambda>(level, e, l). Logger_log_prog 1 tstr level e l)"

definition request_exec :: "time_str \<Rightarrow> log_request \<Rightarrow> log_sys \<Rightarrow> log_sys" where
  "request_exec tstr = (\<lambda>(level, e, l) s. case Logger_log 1 tstr level e l s of Some (Inr s') \<Rightarrow> s' | _ \<Rightarrow> s)"

text \<open>The threads: each makes its calls in order and ends.\<close>

definition log_threads :: "time_str \<Rightarrow> log_request list list \<Rightarrow> log_prog list" where
  "log_threads tstr = map (run_calls (request_prog tstr))"

section \<open>States of concurrent logging\<close>

text \<open>The states that logging goes through, from the state \<open>s0\<close> of a started manager.\<close>

definition logging_from :: "time_str \<Rightarrow> log_sys \<Rightarrow> log_sys \<Rightarrow> bool" where
  "logging_from tstr s0 s \<longleftrightarrow>
     (\<forall>fmt t. tstr fmt t \<noteq> None) \<and> log_inv s0 \<and> mgr_root s0 = Some 0 \<and> log_frame s0 s"

lemma logging_fromD:
  assumes "logging_from tstr s0 s"
  shows "\<forall>fmt t. tstr fmt t \<noteq> None" and "log_inv s0" and "log_inv s" and "log_frame s0 s" and "loggers s = loggers s0"
    and "mgr_root s = Some 0" and "mgr_root s0 = Some 0"
  using assms log_inv_frame by (auto simp: logging_from_def log_frame_def)

lemma logging_from_trans: "logging_from tstr s0 s \<Longrightarrow> log_frame s s' \<Longrightarrow> logging_from tstr s0 s'"
  unfolding logging_from_def using log_frame_trans by blast

lemma log_frame_console: "log_frame s (s\<lparr>console := u\<rparr>)"
  by (simp add: log_frame_def option.rel_refl same_config_refl)

lemma log_frame_put: "appenders s a = Some x \<Longrightarrow> same_config x y \<Longrightarrow> log_frame s (put_appender a y s)"
  by (auto simp: log_frame_def put_appender_def same_config_refl intro: option.rel_refl)

lemma log_frame_files: "log_frame s (s\<lparr>files := u\<rparr>)"
  by (simp add: log_frame_def option.rel_refl same_config_refl)

lemmas logging_steps = log_frame_console log_frame_files log_frame_put log_frame_refl

text \<open>An appender of the system has a formatter wherever the logging has got to.\<close>

definition writes_to :: "log_sys \<Rightarrow> nat \<Rightarrow> bool" where
  "writes_to s0 a \<longleftrightarrow> (\<exists>y. appenders s0 a = Some y \<and> a_formatter y \<noteq> None)"

lemma writes_toE:
  assumes "writes_to s0 a" and "logging_from tstr s0 s"
  obtains x f where "appenders s a = Some x" and "a_formatter x = Some f"
proof -
  from assms(1) obtain y where y: "appenders s0 a = Some y" "a_formatter y \<noteq> None" by (auto simp: writes_to_def)
  with log_frame_appender [OF logging_fromD(4) [OF assms(2)] y(1)] that show ?thesis by (auto simp: same_config_def)
qed

lemma appenders_write:
  assumes "logging_from tstr s0 s" and "loggers s0 l = Some x" and "a \<in> set (l_appenders x)"
  shows "writes_to s0 a"
  using log_invD [OF logging_fromD(2) [OF assms(1)] assms(2)] assms(3) by (auto simp: logger_ok_def writes_to_def)

section \<open>Locks and faults\<close>

abbreviation safe_prog :: "time_str \<Rightarrow> log_sys \<Rightarrow> (lock_mode \<times> lock_id) list \<Rightarrow> log_prog \<Rightarrow> bool" where
  "safe_prog tstr s0 \<equiv> disciplined rank (logging_from tstr s0)"

lemma safe_act:
  assumes "\<And>s. logging_from tstr s0 s \<Longrightarrow> \<exists>s' p. f s = Inr (s', p) \<and> log_frame s s' \<and> safe_prog tstr s0 H p"
  shows "safe_prog tstr s0 H (Act f)"
  using assms logging_from_trans by (intro d_act) metis

lemma safe_scope:
  assumes "\<forall>h\<in>set H. rank (snd h) < rank l" and "safe_prog tstr s0 H k"
    and "\<And>k'. safe_prog tstr s0 ((m, l) # H) k' \<Longrightarrow> safe_prog tstr s0 ((m, l) # H) (body k')"
  shows "safe_prog tstr s0 H (in_scope m l body k)"
  unfolding in_scope_def by (intro d_acq assms d_rel)

text \<open>A read or change of an appender, as all the steps of the appenders are.\<close>

lemma safe_appender:
  assumes "writes_to s0 a"
    and "\<And>s x f. logging_from tstr s0 s \<Longrightarrow> appenders s a = Some x \<Longrightarrow> a_formatter x = Some f \<Longrightarrow>
      \<exists>s' p. g x s = Inr (s', p) \<and> log_frame s s' \<and> safe_prog tstr s0 H p"
  shows "safe_prog tstr s0 H (Act (\<lambda>s. res_bind (get_appender a s) (\<lambda>x. g x s)))"
proof (rule safe_act)
  fix s assume s: "logging_from tstr s0 s"
  then obtain x f where x: "appenders s a = Some x" "a_formatter x = Some f" by (rule writes_toE [OF assms(1)])
  with assms(2) [OF s x] show "\<exists>s' p. res_bind (get_appender a s) (\<lambda>x. g x s) = Inr (s', p) \<and> log_frame s s' \<and> safe_prog tstr s0 H p"
    by (simp add: get_appender_def)
qed

lemma file_put_frame:
  assumes "appenders s a = Some x"
  shows "\<exists>s'. file_put a u s = Inr s' \<and> log_frame s s'"
  using assms log_frame_put [OF assms, of "x\<lparr>a_filestream := (a_filestream x)\<lparr>failed := True\<rparr>\<rparr>"]
  by (auto simp: file_put_def get_appender_def same_config_def log_frame_files log_frame_refl)

lemma safe_format_cout: "safe_prog tstr s0 H k \<Longrightarrow> safe_prog tstr s0 H (format_cout tstr name level e its k)"
proof (induction its)
  case (Cons it its)
  show ?case unfolding format_cout.simps
  proof (rule safe_act)
    fix s assume "logging_from tstr s0 s"
    then obtain u where "item_format tstr name level e it = Inr u" using item_format_total logging_fromD(1) by metis
    with Cons show "\<exists>s' p. res_bind (item_format tstr name level e it) (\<lambda>u. Inr (s\<lparr>console := console s @ u\<rparr>,
        format_cout tstr name level e its k)) = Inr (s', p) \<and> log_frame s s' \<and> safe_prog tstr s0 H p"
      by (simp add: log_frame_console)
  qed
qed simp

lemma safe_format_file:
  assumes "writes_to s0 a"
  shows "safe_prog tstr s0 H k \<Longrightarrow> safe_prog tstr s0 H (format_file tstr name level e a its k)"
proof (induction its)
  case (Cons it its)
  show ?case unfolding format_file.simps
  proof (rule safe_act)
    fix s assume s: "logging_from tstr s0 s"
    then obtain u where u: "item_format tstr name level e it = Inr u" using item_format_total logging_fromD(1) by metis
    from s obtain x f where "appenders s a = Some x" "a_formatter x = Some f" by (rule writes_toE [OF assms])
    from file_put_frame [OF this(1), of u] obtain s1 where "file_put a u s = Inr s1" "log_frame s s1" by blast
    with u Cons show "\<exists>s' p. res_bind (item_format tstr name level e it) (\<lambda>u. res_bind (file_put a u s)
        (\<lambda>s'. Inr (s', format_file tstr name level e a its k))) = Inr (s', p) \<and> log_frame s s' \<and> safe_prog tstr s0 H p"
      by simp
  qed
qed simp

lemma reopen_frame:
  "appenders s a = Some x \<Longrightarrow> log_frame s (put_appender a (snd (FileLogAppender_reopen o1 o2 x)) s)"
  by (rule log_frame_put) (simp_all add: same_config_def)

lemma safe_StdoutLogAppender_log:
  assumes "writes_to s0 a" and "\<forall>h\<in>set H. rank (snd h) < 5" and "safe_prog tstr s0 H k"
  shows "safe_prog tstr s0 H (StdoutLogAppender_log_prog tstr name level e a k)"
  unfolding StdoutLogAppender_log_prog_def
proof (rule safe_appender [OF assms(1)])
  fix s x f
  let ?body = "in_scope LK (AppenderMutex a) (\<lambda>k'. Act (\<lambda>s. res_bind (get_appender a s) (\<lambda>x. case a_formatter x of
      None \<Rightarrow> Inl NullDeref | Some f \<Rightarrow> Inr (s, format_cout tstr name level e (m_items f) k')))) k"
  have "safe_prog tstr s0 H ?body"
    using assms(2,3) by (intro safe_scope safe_appender [OF assms(1)]) (auto intro: safe_format_cout log_frame_refl)
  with assms(3) show "\<exists>s' p. (if level \<ge> a_level x then Inr (s, ?body) else Inr (s, k)) = Inr (s', p) \<and>
      log_frame s s' \<and> safe_prog tstr s0 H p"
    by (auto intro: log_frame_refl)
qed

lemma safe_FileLogAppender_log:
  assumes w: "writes_to s0 a" and H: "\<forall>h\<in>set H. rank (snd h) < 5" and k: "safe_prog tstr s0 H k"
  shows "safe_prog tstr s0 H (FileLogAppender_log_prog tstr name level e a k)"
proof -
  have wr: "safe_prog tstr s0 H (file_write tstr name level e a k)"
    unfolding file_write_def using H k
    by (intro safe_scope safe_appender [OF w])
      (auto intro!: safe_format_file [OF w] safe_appender [OF w] intro: log_frame_console log_frame_refl)
  have rest: "safe_prog tstr s0 H (file_complain a (file_write tstr name level e a k))"
    unfolding file_complain_def by (intro safe_appender [OF w]) (auto intro: wr log_frame_console log_frame_refl)
  have stamp: "safe_prog tstr s0 H (Act (\<lambda>s. res_bind (get_appender a s) (\<lambda>x.
      Inr (put_appender a (x\<lparr>a_lastTime := e_time e\<rparr>) s, file_complain a (file_write tstr name level e a k)))))"
    by (intro safe_appender [OF w]) (auto intro: rest log_frame_put simp: same_config_def)
  have reopen: "safe_prog tstr s0 H (FileLogAppender_reopen_prog a q)" if "safe_prog tstr s0 H q" for q
    unfolding FileLogAppender_reopen_prog_def using H that
    by (intro safe_scope safe_appender [OF w]) (auto intro: reopen_frame)
  show ?thesis
    unfolding FileLogAppender_log_prog_def Let_def
    by (intro safe_appender [OF w]) (auto intro!: safe_appender [OF w] reopen stamp rest k log_frame_refl)
qed

lemma safe_appenders_log:
  assumes "\<forall>a\<in>set as. writes_to s0 a" and "\<forall>h\<in>set H. rank (snd h) < 5" and "safe_prog tstr s0 H k"
  shows "safe_prog tstr s0 H (appenders_log_prog tstr name level e as k)"
  using assms(1)
proof (induction as)
  case (Cons a as)
  then have "writes_to s0 a" "safe_prog tstr s0 H (appenders_log_prog tstr name level e as k)" by simp_all
  then show ?case
    using safe_StdoutLogAppender_log safe_FileLogAppender_log assms(2)
    unfolding appenders_log_prog.simps LogAppender_log_prog_def
    by (intro safe_appender) (auto intro: log_frame_refl split: appender_kind.split)
qed (use assms(3) in simp)

text \<open>A read of a logger: loggers are as they were at the start.\<close>

lemma safe_logger:
  assumes "loggers s0 l = Some x"
    and "logging_from tstr s0 s0 \<Longrightarrow> \<exists>p. \<forall>s. g x s = Inr (s, p) \<and> safe_prog tstr s0 H p"
  shows "safe_prog tstr s0 H (Act (\<lambda>s. res_bind (get_logger l s) (\<lambda>x. g x s)))"
proof (rule safe_act)
  fix s assume s: "logging_from tstr s0 s"
  then have "logging_from tstr s0 s0" by (simp add: logging_from_def log_frame_refl)
  with assms(2) obtain p where "g x s = Inr (s, p)" "safe_prog tstr s0 H p" by blast
  with assms(1) logging_fromD(5) [OF s] show "\<exists>s' p. res_bind (get_logger l s) (\<lambda>x. g x s) = Inr (s', p) \<and> log_frame s s' \<and> safe_prog tstr s0 H p"
    by (simp add: get_logger_def log_frame_refl)
qed

lemma safe_Logger_log:
  assumes x: "loggers s0 l = Some x" and H: "\<forall>h\<in>set H. rank (snd h) < rank (LoggerMutex l)" and k: "safe_prog tstr s0 H k"
    and root: "\<And>r k'. logging_from tstr s0 s0 \<Longrightarrow> l_root x = Some r \<Longrightarrow> safe_prog tstr s0 ((LK, LoggerMutex l) # H) k' \<Longrightarrow>
      \<exists>m. n = Suc m \<and> safe_prog tstr s0 ((LK, LoggerMutex l) # H) (Logger_log_prog m tstr level e r k')"
  shows "safe_prog tstr s0 H (Logger_log_prog n tstr level e l k)"
proof -
  let ?via = "\<lambda>r k'. case n of 0 \<Rightarrow> Inl (Thrown ''fuel'') | Suc n \<Rightarrow> Inr (Logger_log_prog n tstr level e r k')"
  have body: "safe_prog tstr s0 ((LK, LoggerMutex l) # H) (Logger_log_locked tstr level e l ?via k')"
    if k': "safe_prog tstr s0 ((LK, LoggerMutex l) # H) k'" for k'
    unfolding Logger_log_locked_def
  proof (rule safe_logger [OF x])
    assume s0: "logging_from tstr s0 s0"
    have "\<forall>a\<in>set (l_appenders x). writes_to s0 a" using appenders_write [OF s0 x] by blast
    moreover have "\<forall>h\<in>set ((LK, LoggerMutex l) # H). rank (snd h) < 5"
      using H by (auto intro: less_trans split: if_splits)
    ultimately have "safe_prog tstr s0 ((LK, LoggerMutex l) # H) (appenders_log_prog tstr (l_name x) level e (l_appenders x) k')"
      using k' by (intro safe_appenders_log)
    then show "\<exists>p. \<forall>s. (if l_appenders x \<noteq> [] then Inr (s, appenders_log_prog tstr (l_name x) level e (l_appenders x) k')
        else case l_root x of None \<Rightarrow> Inr (s, k') | Some r \<Rightarrow> res_bind (?via r k') (\<lambda>p. Inr (s, p))) = Inr (s, p) \<and>
        safe_prog tstr s0 ((LK, LoggerMutex l) # H) p"
      using k' root [OF s0 _ k'] by (cases "l_root x"; cases "l_appenders x = []") fastforce+
  qed
  have "safe_prog tstr s0 H (in_scope LK (LoggerMutex l) (Logger_log_locked tstr level e l ?via) k)"
    by (rule safe_scope [OF H k body])
  with k show ?thesis
    unfolding Logger_log_prog.simps [of n] by (intro safe_logger [OF x]) (auto intro: exI [of _ k])
qed

lemma safe_request:
  assumes "loggers s0 l = Some x" and "safe_prog tstr s0 [] k"
  shows "safe_prog tstr s0 [] (request_prog tstr (level, e, l) k)"
  unfolding request_prog_def prod.case
proof (rule safe_Logger_log [OF assms(1) _ assms(2)])
  fix r k'
  assume s0: "logging_from tstr s0 s0" and r: "l_root x = Some r" and k': "safe_prog tstr s0 [(LK, LoggerMutex l)] k'"
  have "r = 0" using log_invD [OF logging_fromD(2) [OF s0] assms(1)] logging_fromD(7) [OF s0] r by (simp add: logger_ok_def)
  obtain z where z: "loggers s0 0 = Some z" "l_root z = None" using logging_fromD(2,7) [OF s0] by (auto simp: log_inv_def)
  then have "l \<noteq> 0" using assms(1) r by (metis option.distinct(1) option.inject)
  with z k' have "safe_prog tstr s0 [(LK, LoggerMutex l)] (Logger_log_prog 0 tstr level e 0 k')"
    by (intro safe_Logger_log) auto
  with \<open>r = 0\<close> show "\<exists>m. 1 = Suc m \<and> safe_prog tstr s0 [(LK, LoggerMutex l)] (Logger_log_prog m tstr level e r k')"
    by simp
qed simp

lemma safe_threads:
  assumes "\<forall>cs\<in>set css. \<forall>(level, e, l)\<in>set cs. loggers s0 l \<noteq> None"
  shows "\<forall>p\<in>set (log_threads tstr css). safe_prog tstr s0 [] p"
proof -
  have "safe_prog tstr s0 [] (run_calls (request_prog tstr) cs)" if "\<forall>(level, e, l)\<in>set cs. loggers s0 l \<noteq> None" for cs
    using that
  proof (induction cs)
    case Nil
    show ?case by (simp add: d_halt)
  next
    case (Cons c cs)
    obtain level e l where c: "c = (level, e, l)" by (cases c)
    with Cons.prems obtain x where "loggers s0 l = Some x" by auto
    with Cons c show ?case by (auto intro: safe_request)
  qed
  with assms show ?thesis by (auto simp: log_threads_def)
qed

section \<open>What one thread does alone\<close>

text \<open>
  Inside a section of the mutex \<open>L\<close>, which is not that of an appender, the program of an appender has the effect that
  theory LogCore gives its \<open>log\<close>.
\<close>

lemma alone_act:
  assumes "logging_from tstr s0 s" and "f s = Inr (s1, p)" and "log_frame s s1"
    and "logging_from tstr s0 s1 \<Longrightarrow> section_to L (logging_from tstr s0) X p s1 s' cs"
  shows "section_to L (logging_from tstr s0) X (Act f) s s' cs"
  using assms(2-4) logging_from_trans [OF assms(1,3)] by (auto intro: in_act)

lemma alone_format_cout:
  assumes "logging_from tstr s0 s" and "LogFormatter_format tstr name level e its = Inr u"
    and "logging_from tstr s0 (s\<lparr>console := console s @ u\<rparr>) \<Longrightarrow>
      section_to L (logging_from tstr s0) X k (s\<lparr>console := console s @ u\<rparr>) s' cs"
  shows "section_to L (logging_from tstr s0) X (format_cout tstr name level e its k) s s' cs"
  using assms
proof (induction its arbitrary: s u)
  case (Cons it its)
  from Cons.prems(2) obtain v w where v: "item_format tstr name level e it = Inr v"
    "LogFormatter_format tstr name level e its = Inr w" "u = v @ w" by (auto simp: res_bind_Inr_iff)
  show ?case unfolding format_cout.simps
    by (rule alone_act [OF Cons.prems(1)])
      (use v Cons.prems(3) in \<open>auto intro: Cons.IH [OF _ v(2)] log_frame_console\<close>)
qed simp

lemma file_put_append:
  "file_put a u s = Inr s1 \<Longrightarrow> file_put a v s1 = Inr s2 \<Longrightarrow> file_put a (u @ v) s = Inr s2"
  by (auto simp: file_put_def get_appender_def put_appender_def split: if_splits option.splits)

lemma file_put_total: "appenders s a \<noteq> None \<Longrightarrow> \<exists>s'. file_put a u s = Inr s' \<and> appenders s' a \<noteq> None"
  by (auto simp: file_put_def get_appender_def put_appender_def)

lemma alone_format_file:
  assumes "logging_from tstr s0 s" and "appenders s a \<noteq> None" and "LogFormatter_format tstr name level e its = Inr u"
    and "file_put a u s = Inr s1"
    and "logging_from tstr s0 s1 \<Longrightarrow> section_to L (logging_from tstr s0) X k s1 s' cs"
  shows "section_to L (logging_from tstr s0) X (format_file tstr name level e a its k) s s' cs"
  using assms
proof (induction its arbitrary: s u)
  case Nil
  then have "s1 = s" by (auto simp: file_put_def get_appender_def split: option.splits)
  with Nil show ?case by simp
next
  case (Cons it its)
  from Cons.prems(3) obtain v w where v: "item_format tstr name level e it = Inr v"
    "LogFormatter_format tstr name level e its = Inr w" "u = v @ w" by (auto simp: res_bind_Inr_iff)
  obtain s2 where s2: "file_put a v s = Inr s2" "appenders s2 a \<noteq> None" using file_put_total [OF Cons.prems(2)] by blast
  obtain s3 where s3: "file_put a w s2 = Inr s3" using file_put_total [OF s2(2)] by blast
  with file_put_append [OF s2(1) s3] Cons.prems(4) v(3) have "s3 = s1" by simp
  obtain x where "appenders s a = Some x" using Cons.prems(2) by auto
  from file_put_frame [OF this, of v] s2(1) have "log_frame s s2" by simp
  then show ?case unfolding format_file.simps
    by (intro alone_act [OF Cons.prems(1)])
      (use v s2 s3 \<open>s3 = s1\<close> Cons.prems(5) in \<open>auto intro: Cons.IH [OF _ s2(2) v(2)]\<close>)
qed

lemma alone_scope:
  assumes "l \<noteq> L" and "section_to L I X (body (Sync (Rel m l) k)) s s' cs"
  shows "section_to L I X (in_scope m l body k) s s' cs"
  unfolding in_scope_def using assms by (intro in_sync) auto

lemma alone_release: "l \<noteq> L \<Longrightarrow> section_to L I X k s s' cs \<Longrightarrow> section_to L I X (Sync (Rel m l) k) s s' cs"
  by (rule in_sync) auto

lemma alone_stdout:
  assumes s: "logging_from tstr s0 s" and x: "appenders s a = Some x" and L: "AppenderMutex a \<noteq> L"
    and out: "StdoutLogAppender_log tstr name level e x (console s) = Inr u"
    and k: "logging_from tstr s0 (s\<lparr>console := u\<rparr>) \<Longrightarrow> section_to L (logging_from tstr s0) X k (s\<lparr>console := u\<rparr>) s' cs"
  shows "section_to L (logging_from tstr s0) X (StdoutLogAppender_log_prog tstr name level e a k) s s' cs"
proof (cases "level \<ge> a_level x")
  case True
  with out obtain f t where f: "a_formatter x = Some f" "LogFormatter_format tstr name level e (m_items f) = Inr t"
    "u = console s @ t" by (auto simp: StdoutLogAppender_log_def res_bind_Inr_iff split: option.splits)
  show ?thesis unfolding StdoutLogAppender_log_prog_def
    by (rule alone_act [OF s])
      (use x True f L k in \<open>auto simp: get_appender_def log_frame_refl intro!: alone_scope alone_act [OF s] alone_format_cout alone_release\<close>)
next
  case False
  with out have "u = console s" by (simp add: StdoutLogAppender_log_def)
  with x False k s show ?thesis unfolding StdoutLogAppender_log_prog_def
    by (auto simp: get_appender_def log_frame_refl intro!: alone_act [OF s])
qed

text \<open>The state after the part of the file appender under its lock.\<close>

definition file_written :: "string \<Rightarrow> nat \<Rightarrow> appender \<Rightarrow> log_sys \<Rightarrow> log_sys" where
  "file_written t a x s =
     (if \<not> failed (a_filestream x) \<and> (t = '''' \<or> is_open (a_filestream x) \<and> sys_writes s (a_filename x))
      then s\<lparr>files := (files s)(a_filename x := files s (a_filename x) @ t)\<rparr>
      else (put_appender a (x\<lparr>a_filestream := (a_filestream x)\<lparr>failed := True\<rparr>\<rparr>) s)
             \<lparr>console := console s @ file_error_line\<rparr>)"

lemma stream_failed: "failed st \<Longrightarrow> st\<lparr>failed := True\<rparr> = st"
  by (cases st) simp

lemma put_same: "appenders s a = Some x \<Longrightarrow> put_appender a x s = s"
  by (cases s) (simp add: put_appender_def fun_upd_idem)

lemma file_put_written:
  assumes "appenders s a = Some x"
  shows "\<exists>s1 y. file_put a t s = Inr s1 \<and> log_frame s s1 \<and> appenders s1 a = Some y \<and>
    s1\<lparr>console := console s1 @ (if failed (a_filestream y) then file_error_line else '''')\<rparr> = file_written t a x s"
proof -
  consider "failed (a_filestream x)" | "\<not> failed (a_filestream x)" "t = ''''"
    | "\<not> failed (a_filestream x)" "t \<noteq> ''''" "is_open (a_filestream x) \<and> sys_writes s (a_filename x)"
    | "\<not> failed (a_filestream x)" "t \<noteq> ''''" "\<not> (is_open (a_filestream x) \<and> sys_writes s (a_filename x))" by blast
  then show ?thesis
  proof cases
    case 1
    then have "file_put a t s = Inr s" using assms by (simp add: file_put_def get_appender_def)
    with 1 assms show ?thesis by (auto simp: file_written_def stream_failed put_same log_frame_refl)
  next
    case 2
    then have "file_put a t s = Inr s" using assms by (simp add: file_put_def get_appender_def)
    with 2 assms show ?thesis by (auto simp: file_written_def log_frame_refl)
  next
    case 3
    then have "file_put a t s = Inr (file_written t a x s)"
      using assms by (simp add: file_put_def get_appender_def file_written_def)
    with 3 assms show ?thesis by (auto simp: file_written_def log_frame_files)
  next
    case 4
    let ?y = "x\<lparr>a_filestream := (a_filestream x)\<lparr>failed := True\<rparr>\<rparr>"
    have "file_put a t s = Inr (put_appender a ?y s)" using 4 assms by (auto simp: file_put_def get_appender_def)
    moreover have "log_frame s (put_appender a ?y s)" by (rule log_frame_put [OF assms]) (simp add: same_config_def)
    moreover have "file_written t a x s = (put_appender a ?y s)\<lparr>console := console s @ file_error_line\<rparr>"
      using 4 by (auto simp: file_written_def)
    ultimately show ?thesis by (simp add: put_appender_def)
  qed
qed

lemma alone_file_write:
  assumes s: "logging_from tstr s0 s" and x: "appenders s a = Some x" "a_formatter x = Some f" and L: "AppenderMutex a \<noteq> L"
    and t: "LogFormatter_format tstr name level e (m_items f) = Inr t"
    and k: "logging_from tstr s0 (file_written t a x s) \<Longrightarrow> section_to L (logging_from tstr s0) X k (file_written t a x s) s' cs"
  shows "section_to L (logging_from tstr s0) X (file_write tstr name level e a k) s s' cs"
proof -
  obtain s1 y where s1: "file_put a t s = Inr s1" "log_frame s s1" "appenders s1 a = Some y"
    "s1\<lparr>console := console s1 @ (if failed (a_filestream y) then file_error_line else '''')\<rparr> = file_written t a x s"
    using file_put_written [OF x(1), of t] by blast
  have "section_to L (logging_from tstr s0) X (Act (\<lambda>s. res_bind (get_appender a s) (\<lambda>x.
      Inr (s\<lparr>console := console s @ (if failed (a_filestream x) then file_error_line else '''')\<rparr>,
        Sync (Rel LK (AppenderMutex a)) k)))) s1 s' cs"
  proof (rule alone_act [OF logging_from_trans [OF s s1(2)]])
    show "res_bind (get_appender a s1) (\<lambda>x. Inr (s1\<lparr>console := console s1 @ (if failed (a_filestream x) then file_error_line else '''')\<rparr>,
        Sync (Rel LK (AppenderMutex a)) k)) = Inr (file_written t a x s, Sync (Rel LK (AppenderMutex a)) k)"
      using s1(3) by (simp only: get_appender_def option.case res_bind_simps s1(4))
    show "log_frame s1 (file_written t a x s)" unfolding s1(4) [symmetric] by (rule log_frame_console)
  qed (rule alone_release [OF L k])
  note format = alone_format_file [OF s _ t s1(1) this]
  show ?thesis unfolding file_write_def
    by (intro alone_scope [OF L] alone_act [OF s, where ?s1.0 = s, OF _ log_frame_refl format]) (simp_all add: x get_appender_def)
qed

lemma if_InrD: "(if b then Inr x else Inr y) = Inr z \<Longrightarrow> z = (if b then x else y)"
  by (simp split: if_splits)

lemma alone_file:
  assumes s: "logging_from tstr s0 s" and x: "appenders s a = Some x" and L: "AppenderMutex a \<noteq> L"
    and out: "FileLogAppender_log tstr (sys_opens s) (sys_opens_dir s) (sys_writes s) name level e x = Inr (t, out, x')"
    and s1: "s1 = (put_appender a x' s)\<lparr>console := console s @ out,
      files := (files s)(a_filename x := files s (a_filename x) @ t)\<rparr>"
    and k: "logging_from tstr s0 s1 \<Longrightarrow> section_to L (logging_from tstr s0) X k s1 s' cs"
  shows "section_to L (logging_from tstr s0) X (FileLogAppender_log_prog tstr name level e a k) s s' cs"
proof (cases "level \<ge> a_level x")
  case False
  with out have "s1 = s" unfolding s1 using put_same [of s a x] x by (simp add: FileLogAppender_log_def)
  with x False k s show ?thesis unfolding FileLogAppender_log_prog_def
    by (auto simp: get_appender_def log_frame_refl intro!: alone_act [OF s])
next
  case True
  let ?r = "snd (FileLogAppender_reopen (sys_opens s) (sys_opens_dir s) x)"
  define x1 where "x1 = (if e_time e \<ge> a_lastTime x + 3 then ?r\<lparr>a_lastTime := e_time e\<rparr> else x)"
  have cfg: "same_config x x1" "a_filename x1 = a_filename x" by (simp_all add: x1_def same_config_def)
  let ?line = "if \<not> is_open (a_filestream x1) then not_open_line else ''''"
  define sB where "sB = (put_appender a x1 s)\<lparr>console := console s @ ?line\<rparr>"
  have A: "logging_from tstr s0 (put_appender a x1 s)" by (rule logging_from_trans [OF s log_frame_put [OF x cfg(1)]])
  have B: "logging_from tstr s0 sB" unfolding sB_def by (rule logging_from_trans [OF A log_frame_console])
  have xB: "appenders sB a = Some x1" by (simp add: sB_def put_appender_def)
  have "FileLogAppender_log tstr (sys_opens s) (sys_opens_dir s) (sys_writes s) name level e x =
      (case a_formatter x1 of None \<Rightarrow> Inl NullDeref
       | Some f \<Rightarrow> res_bind (LogFormatter_format tstr name level e (m_items f)) (\<lambda>u.
           if \<not> failed (a_filestream x1) \<and> (u = '''' \<or> is_open (a_filestream x1) \<and> sys_writes s (a_filename x1))
           then Inr (u, ?line, x1)
           else Inr ('''', ?line @ file_error_line, x1\<lparr>a_filestream := (a_filestream x1)\<lparr>failed := True\<rparr>\<rparr>)))"
    unfolding FileLogAppender_log_def Let_def x1_def [symmetric] using True by simp
  note log = this
  obtain f where f1: "a_formatter x1 = Some f" using out unfolding log by (cases "a_formatter x1") simp_all
  obtain u where f: "a_formatter x1 = Some f" "LogFormatter_format tstr name level e (m_items f) = Inr u"
    using out unfolding log f1 option.case by (rule res_bind_InrE) (use f1 in blast)
  have res: "(t, out, x') = (if \<not> failed (a_filestream x1) \<and> (u = '''' \<or> is_open (a_filestream x1) \<and> sys_writes s (a_filename x1))
       then (u, ?line, x1) else ('''', ?line @ file_error_line, x1\<lparr>a_filestream := (a_filestream x1)\<lparr>failed := True\<rparr>\<rparr>))"
    using out unfolding log f option.case res_bind_simps by (rule if_InrD)

  have fin: "file_written u a x1 sB = s1"
    using res unfolding s1 file_written_def by (auto simp: sB_def put_appender_def cfg(2) split: if_splits)
  have wr: "section_to L (logging_from tstr s0) X (file_write tstr name level e a k) sB s' cs"
    by (rule alone_file_write [OF B xB f(1) L f(2)]) (use k fin in simp)
  have rest: "section_to L (logging_from tstr s0) X (file_complain a (file_write tstr name level e a k)) (put_appender a x1 s) s' cs"
    unfolding file_complain_def
    by (rule alone_act [OF A _ log_frame_console wr [unfolded sB_def]]) (simp add: get_appender_def put_appender_def)
  have "section_to L (logging_from tstr s0) X
      (if e_time e \<ge> a_lastTime x + 3 then FileLogAppender_reopen_prog a (Act (\<lambda>s. res_bind (get_appender a s) (\<lambda>x.
           Inr (put_appender a (x\<lparr>a_lastTime := e_time e\<rparr>) s, file_complain a (file_write tstr name level e a k)))))
       else file_complain a (file_write tstr name level e a k)) s s' cs"
  proof (cases "e_time e \<ge> a_lastTime x + 3")
    case False
    then have "put_appender a x1 s = s" using put_same [OF x] by (simp add: x1_def)
    with False rest show ?thesis by simp
  next
    case due: True
    let ?s2 = "put_appender a ?r s"
    have R: "logging_from tstr s0 ?s2" by (rule logging_from_trans [OF s reopen_frame [OF x]])
    have two: "put_appender a (?r\<lparr>a_lastTime := e_time e\<rparr>) ?s2 = put_appender a x1 s"
      using due by (simp add: put_appender_def x1_def)
    have got: "get_appender a ?s2 = Inr ?r" by (simp add: get_appender_def put_appender_def)
    have "log_frame ?s2 (put_appender a x1 s)"
      unfolding two [symmetric] by (rule log_frame_put [where x = ?r]) (simp_all add: put_appender_def same_config_def)
    then have "section_to L (logging_from tstr s0) X (Act (\<lambda>s. res_bind (get_appender a s) (\<lambda>x.
        Inr (put_appender a (x\<lparr>a_lastTime := e_time e\<rparr>) s, file_complain a (file_write tstr name level e a k))))) ?s2 s' cs"
      by (rule alone_act [OF R _ _ rest, rotated]) (simp only: got res_bind_simps two)
    note stamp = alone_release [OF L this]
    show ?thesis unfolding FileLogAppender_reopen_prog_def if_P [OF due]
      by (rule alone_scope [OF L alone_act [OF s _ reopen_frame [OF x] stamp]]) (simp add: get_appender_def x)
  qed
  note body = this
  have got: "get_appender a s = Inr x" using x by (simp add: get_appender_def)
  have "section_to L (logging_from tstr s0) X (Act (\<lambda>s. res_bind (get_appender a s) (\<lambda>x. Inr (s,
      if e_time e \<ge> a_lastTime x + 3 then FileLogAppender_reopen_prog a (Act (\<lambda>s. res_bind (get_appender a s) (\<lambda>x.
           Inr (put_appender a (x\<lparr>a_lastTime := e_time e\<rparr>) s, file_complain a (file_write tstr name level e a k)))))
       else file_complain a (file_write tstr name level e a k))))) s s' cs"
    by (rule alone_act [OF s _ log_frame_refl body]) (simp only: got res_bind_simps)
  note inner = this
  show ?thesis unfolding FileLogAppender_log_prog_def Let_def
    by (rule alone_act [OF s _ log_frame_refl inner]) (simp only: got res_bind_simps True if_True)
qed

lemma alone_appender:
  assumes s: "logging_from tstr s0 s" and L: "AppenderMutex a \<noteq> L"
    and out: "LogAppender_log tstr name level e a s = Inr s1"
    and k: "logging_from tstr s0 s1 \<Longrightarrow> section_to L (logging_from tstr s0) X k s1 s' cs"
  shows "section_to L (logging_from tstr s0) X (LogAppender_log_prog tstr name level e a k) s s' cs"
proof -
  from out obtain x where x: "appenders s a = Some x" by (auto simp: LogAppender_log_def get_appender_def split: option.splits)
  have "section_to L (logging_from tstr s0) X (case a_kind x of
      StdoutLogAppender \<Rightarrow> StdoutLogAppender_log_prog tstr name level e a k
    | FileLogAppender \<Rightarrow> FileLogAppender_log_prog tstr name level e a k) s s' cs"
  proof (cases "a_kind x")
    case StdoutLogAppender
    with out x obtain u where "StdoutLogAppender_log tstr name level e x (console s) = Inr u" "s1 = s\<lparr>console := u\<rparr>"
      by (auto simp: LogAppender_log_def get_appender_def res_bind_Inr_iff)
    with StdoutLogAppender k show ?thesis by (auto intro: alone_stdout [OF s x L])
  next
    case FileLogAppender
    with out x obtain t u x' where
      fl: "FileLogAppender_log tstr (sys_opens s) (sys_opens_dir s) (sys_writes s) name level e x = Inr (t, u, x')"
      "s1 = (put_appender a x' s)\<lparr>console := console s @ u, files := (files s)(a_filename x := files s (a_filename x) @ t)\<rparr>"
      by (auto simp: LogAppender_log_def get_appender_def res_bind_Inr_iff)
    from alone_file [OF s x L fl k] FileLogAppender show ?thesis by simp
  qed
  then show ?thesis unfolding LogAppender_log_prog_def
    by (rule alone_act [OF s _ log_frame_refl, rotated]) (simp add: get_appender_def x)
qed

lemma alone_appenders:
  assumes "logging_from tstr s0 s" and "\<forall>a. AppenderMutex a \<noteq> L" and "appenders_log tstr name level e as s = Inr s1"
    and "logging_from tstr s0 s1 \<Longrightarrow> section_to L (logging_from tstr s0) X k s1 s' cs"
  shows "section_to L (logging_from tstr s0) X (appenders_log_prog tstr name level e as k) s s' cs"
  using assms
proof (induction as arbitrary: s)
  case (Cons a as)
  then obtain s2 where s2: "LogAppender_log tstr name level e a s = Inr s2" "appenders_log tstr name level e as s2 = Inr s1"
    by (auto simp: res_bind_Inr_iff)
  have a: "AppenderMutex a \<noteq> L" using Cons.prems(2) by simp
  show ?case unfolding appenders_log_prog.simps
    by (rule alone_appender [OF Cons.prems(1) a s2(1)]) (rule Cons.IH [OF _ Cons.prems(2) s2(2) Cons.prems(4)])
qed simp

section \<open>Calls that share a logger\<close>

text \<open>
  The logger whose appenders do the writing: the logger itself, or the root in its place when it has no
  appenders. A request is loud when its level passes, so that it takes the lock of that logger.
\<close>

definition writer :: "log_sys \<Rightarrow> nat \<Rightarrow> nat option" where
  "writer s l = (case loggers s l of
       None \<Rightarrow> None
     | Some x \<Rightarrow> (case l_root x of Some r \<Rightarrow> if l_appenders x = [] then Some r else Some l | None \<Rightarrow> Some l))"

definition passes :: "log_sys \<Rightarrow> log_request \<Rightarrow> bool" where
  "passes s = (\<lambda>(level, e, l). case loggers s l of
       None \<Rightarrow> False
     | Some x \<Rightarrow> level \<ge> l_level x \<and> (case l_root x of
           Some r \<Rightarrow> if l_appenders x = [] then (case loggers s r of None \<Rightarrow> False | Some z \<Rightarrow> level \<ge> l_level z) else True
         | None \<Rightarrow> True))"

lemma request_runs:
  assumes "logging_from tstr s0 s" and "loggers s0 l = Some x"
  shows "Logger_log 1 tstr level e l s = Some (Inr (request_exec tstr (level, e, l) s))"
    and "logging_from tstr s0 (request_exec tstr (level, e, l) s)"
proof -
  note D = logging_fromD [OF assms(1)]
  have "loggers s l = Some x" using assms(2) D(5) by simp
  from log_inv_log [OF D(3,1) this, of 0 level e] obtain s' where s': "Logger_log 1 tstr level e l s = Some (Inr s')" "log_frame s s'"
    by auto
  then show "Logger_log 1 tstr level e l s = Some (Inr (request_exec tstr (level, e, l) s))" by (simp add: request_exec_def)
  from logging_from_trans [OF assms(1) s'(2)] s'(1) show "logging_from tstr s0 (request_exec tstr (level, e, l) s)"
    by (simp add: request_exec_def)
qed

text \<open>Outside the lock of the writer a call only reads loggers, which are as they were at the start.\<close>

lemma outside_logger:
  assumes "logging_from tstr s0 s0 \<Longrightarrow> loggers s0 l = Some x"
    and "logging_from tstr s0 s0 \<Longrightarrow> \<exists>p. \<forall>s. g x s = Inr (s, p) \<and> sections L (logging_from tstr s0) X p cs"
  shows "sections L (logging_from tstr s0) X (Act (\<lambda>s. res_bind (get_logger l s) (\<lambda>x. g x s))) cs"
proof (rule sec_read)
  fix s assume s: "logging_from tstr s0 s"
  then have s0: "logging_from tstr s0 s0" by (simp add: logging_from_def log_frame_refl)
  from assms(2) [OF s0] obtain p where "g x s = Inr (s, p)" "sections L (logging_from tstr s0) X p cs" by blast
  with assms(1) [OF s0] logging_fromD(5) [OF s] show "\<exists>p. res_bind (get_logger l s) (\<lambda>x. g x s) = Inr (s, p) \<and> sections L (logging_from tstr s0) X p cs"
    by (simp add: get_logger_def)
qed

text \<open>The part under the lock has the effect of the call.\<close>

lemma alone_locked:
  assumes s: "logging_from tstr s0 s" and x: "loggers s0 l = Some x" "level \<ge> l_level x"
    and via: "l_appenders x = [] \<Longrightarrow> l_root x = None"
    and k: "sections (LoggerMutex l) (logging_from tstr s0) X k cs"
  shows "section_to (LoggerMutex l) (logging_from tstr s0) X (Logger_log_locked tstr level e l v (Sync (Rel LK (LoggerMutex l)) k))
    s (request_exec tstr (level, e, l) s) cs"
proof -
  have xs: "loggers s l = Some x" using x(1) logging_fromD(5) [OF s] by simp
  note R = request_runs(1) [OF s x(1), of level e]
  show ?thesis
  proof (cases "l_appenders x = []")
    case True
    with R xs x(2) via have "request_exec tstr (level, e, l) s = s" by (simp add: get_logger_def)
    with True via xs show ?thesis unfolding Logger_log_locked_def
      by (intro alone_act [OF s _ log_frame_refl, where p = "Sync (Rel LK (LoggerMutex l)) k"])
        (simp_all add: get_logger_def in_leave k)
  next
    case False
    with R xs x(2) have out: "appenders_log tstr (l_name x) level e (l_appenders x) s = Inr (request_exec tstr (level, e, l) s)"
      by (simp add: get_logger_def)
    have "section_to (LoggerMutex l) (logging_from tstr s0) X
        (appenders_log_prog tstr (l_name x) level e (l_appenders x) (Sync (Rel LK (LoggerMutex l)) k)) s (request_exec tstr (level, e, l) s) cs"
      by (rule alone_appenders [OF s _ out]) (simp_all add: in_leave k)
    note body = this
    show ?thesis unfolding Logger_log_locked_def
      by (rule alone_act [OF s _ log_frame_refl body]) (simp add: get_logger_def xs False)
  qed
qed

lemma writer_sections:
  assumes x: "loggers s0 l = Some x" "l_appenders x = [] \<Longrightarrow> l_root x = None"
    and c: "\<And>s. logging_from tstr s0 s \<Longrightarrow> X c s = request_exec tstr (level, e, l) s"
    and k: "sections (LoggerMutex l) (logging_from tstr s0) X k cs"
  shows "level \<ge> l_level x \<Longrightarrow> sections (LoggerMutex l) (logging_from tstr s0) X (Logger_log_prog n tstr level e l k) (c # cs)"
    and "\<not> level \<ge> l_level x \<Longrightarrow> sections (LoggerMutex l) (logging_from tstr s0) X (Logger_log_prog n tstr level e l k) cs"
proof -
  assume lv: "level \<ge> l_level x"
  let ?via = "\<lambda>r k'. case n of 0 \<Rightarrow> Inl (Thrown ''fuel'') | Suc n \<Rightarrow> Inr (Logger_log_prog n tstr level e r k')"
  have "sections (LoggerMutex l) (logging_from tstr s0) X
      (in_scope LK (LoggerMutex l) (Logger_log_locked tstr level e l ?via) k) (c # cs)"
    unfolding in_scope_def by (rule sec_enter) (simp add: c alone_locked [OF _ x(1) lv x(2) k])
  with lv show "sections (LoggerMutex l) (logging_from tstr s0) X (Logger_log_prog n tstr level e l k) (c # cs)"
    unfolding Logger_log_prog.simps [of n] by (intro outside_logger [OF x(1)]) auto
next
  assume "\<not> level \<ge> l_level x"
  with k show "sections (LoggerMutex l) (logging_from tstr s0) X (Logger_log_prog n tstr level e l k) cs"
    unfolding Logger_log_prog.simps [of n] by (intro outside_logger [OF x(1)]) auto
qed

lemma outer_sections:
  assumes x: "loggers s0 l = Some x" "l_appenders x = []" "l_root x = Some r" "l \<noteq> r" "level \<ge> l_level x"
    and inner: "\<And>k'. sections (LoggerMutex r) I X k' cs \<Longrightarrow> sections (LoggerMutex r) I X (Logger_log_prog 0 tstr level e r k') ds"
    and k: "sections (LoggerMutex r) I X k cs" and I: "I = logging_from tstr s0"
  shows "sections (LoggerMutex r) I X (Logger_log_prog 1 tstr level e l k) ds"
proof -
  have "sections (LoggerMutex r) I X (Sync (Rel LK (LoggerMutex l)) k) cs" using x(4) k by (intro sec_sync) auto
  note tail = inner [OF this]
  let ?via = "\<lambda>r k'. case 1 of 0 \<Rightarrow> Inl (Thrown ''fuel'') | Suc n \<Rightarrow> Inr (Logger_log_prog n tstr level e r k')"
  have "sections (LoggerMutex r) I X (Logger_log_locked tstr level e l ?via (Sync (Rel LK (LoggerMutex l)) k)) ds"
    unfolding Logger_log_locked_def I by (intro outside_logger [OF x(1)]) (use x tail in \<open>simp add: I\<close>)
  then have "sections (LoggerMutex r) I X (in_scope LK (LoggerMutex l) (Logger_log_locked tstr level e l ?via) k) ds"
    unfolding in_scope_def using x(4) by (intro sec_sync) auto
  with x(5) show ?thesis unfolding Logger_log_prog.simps [of 1] I by (intro outside_logger [OF x(1)]) auto
qed

lemma request_sections:
  assumes s0: "logging_from tstr s0 s0" and w: "writer s0 l = Some r"
    and k: "sections (LoggerMutex r) (logging_from tstr s0) (request_exec tstr) k cs"
  shows "sections (LoggerMutex r) (logging_from tstr s0) (request_exec tstr) (request_prog tstr (level, e, l) k)
    (if passes s0 (level, e, l) then (level, e, l) # cs else cs)"
proof -
  let ?S = "sections (LoggerMutex r) (logging_from tstr s0) (request_exec tstr)"
  obtain x where x: "loggers s0 l = Some x" using w by (auto simp: writer_def split: option.splits)
  show ?thesis
  proof (cases "l_appenders x = [] \<and> l_root x \<noteq> None")
    case False
    then have r: "r = l" "l_appenders x = [] \<Longrightarrow> l_root x = None" using w x by (auto simp: writer_def split: option.splits)
    have "passes s0 (level, e, l) \<longleftrightarrow> level \<ge> l_level x" using False x by (auto simp: passes_def split: option.splits)
    with writer_sections [OF x r(2), where X = "request_exec tstr" and c = "(level, e, l)" and level = level] k show ?thesis
      unfolding r(1) request_prog_def prod.case by auto
  next
    case True
    then have r: "l_root x = Some r" "l_appenders x = []" using w x by (auto simp: writer_def)
    then have "r = 0" using log_invD [OF logging_fromD(2) [OF s0] x] logging_fromD(7) [OF s0] by (simp add: logger_ok_def)
    with logging_fromD(2,7) [OF s0] obtain z where z: "loggers s0 r = Some z" "l_root z = None" by (auto simp: log_inv_def)
    then have "l \<noteq> r" using x r(1) by auto
    have p: "passes s0 (level, e, l) \<longleftrightarrow> level \<ge> l_level x \<and> level \<ge> l_level z" using r x z by (simp add: passes_def)
    have same: "request_exec tstr (level, e, l) s = request_exec tstr (level, e, r) s"
      if s: "logging_from tstr s0 s" and lv: "level \<ge> l_level x" for s
    proof -
      have "loggers s = loggers s0" by (rule logging_fromD(5) [OF s])
      with x r z lv have "Logger_log 1 tstr level e l s = Logger_log 1 tstr level e r s"
        by (simp add: get_logger_def)
      then show ?thesis by (simp add: request_exec_def)
    qed
    show ?thesis
    proof (cases "level \<ge> l_level x")
      case True
      have in_root: "?S (Logger_log_prog 0 tstr level e r k') (if passes s0 (level, e, l) then (level, e, l) # cs else cs)"
        if "?S k' cs" for k'
        using writer_sections [OF z(1), of tstr "request_exec tstr" "(level, e, l)" level e k' cs 0] that z(2) True p same by auto
      show ?thesis unfolding request_prog_def prod.case
        by (rule outer_sections [OF x r(2,1) \<open>l \<noteq> r\<close> True in_root k refl])
    next
      case False
      with k p x show ?thesis unfolding request_prog_def prod.case Logger_log_prog.simps [of 1]
        by (intro outside_logger [OF x]) auto
    qed
  qed
qed

lemma request_quiet:
  assumes "\<not> passes s0 (level, e, l)" and "logging_from tstr s0 s" and "loggers s0 l = Some x"
  shows "request_exec tstr (level, e, l) s = s"
proof -
  have ls: "loggers s = loggers s0" by (rule logging_fromD(5) [OF assms(2)])
  from assms(1,3) request_runs(1) [OF assms(2,3), of level e] show ?thesis
    by (auto simp: passes_def get_logger_def ls split: if_splits option.splits)
qed

text \<open>The requests of loggers that write through \<open>r\<close> satisfy the contract of theory ProgRun, for the lock of \<open>r\<close>.\<close>

definition through :: "time_str \<Rightarrow> log_sys \<Rightarrow> nat \<Rightarrow> log_request \<Rightarrow> bool" where
  "through tstr s0 r = (\<lambda>(level, e, l). logging_from tstr s0 s0 \<and> writer s0 l = Some r)"

interpretation one_logger: mutex_calls "LoggerMutex r" "logging_from tstr s0" "request_exec tstr" "passes s0"
  "request_prog tstr" "through tstr s0 r"
proof
  fix c :: log_request and k cs s
  obtain level e l where c: "c = (level, e, l)" by (cases c)
  assume "through tstr s0 r c"
  then have t: "logging_from tstr s0 s0" "writer s0 l = Some r" by (simp_all add: c through_def)
  then obtain x where x: "loggers s0 l = Some x" by (auto simp: writer_def split: option.splits)
  note S = request_sections [OF t, of k cs level e]
  show "passes s0 c \<Longrightarrow> sections (LoggerMutex r) (logging_from tstr s0) (request_exec tstr) k cs \<Longrightarrow>
      sections (LoggerMutex r) (logging_from tstr s0) (request_exec tstr) (request_prog tstr c k) (c # cs)"
    and "\<not> passes s0 c \<Longrightarrow> sections (LoggerMutex r) (logging_from tstr s0) (request_exec tstr) k cs \<Longrightarrow>
      sections (LoggerMutex r) (logging_from tstr s0) (request_exec tstr) (request_prog tstr c k) cs"
    using S by (simp_all add: c)
  show "\<not> passes s0 c \<Longrightarrow> logging_from tstr s0 s \<Longrightarrow> request_exec tstr c s = s"
    unfolding c by (rule request_quiet [OF _ _ x])
  show "logging_from tstr s0 s \<Longrightarrow> logging_from tstr s0 (request_exec tstr c s)"
    unfolding c by (rule request_runs(2) [OF _ x])
qed

section \<open>Two consoles\<close>

text \<open>\<open>leads c c'\<close>: some schedule leads from \<open>c\<close> to \<open>c'\<close>.\<close>

definition leads :: "('l, 's) prog_state \<Rightarrow> ('l, 's) prog_state \<Rightarrow> bool" where
  "leads c c' \<longleftrightarrow> (\<exists>is. prog_run is c = Some c')"

lemma leads_refl: "leads c c"
  unfolding leads_def by (rule exI [of _ "[]"]) simp

lemma leads_step: "prog_step i c = Some c1 \<Longrightarrow> leads c1 c' \<Longrightarrow> leads c c'"
  unfolding leads_def by (metis option.case(2) prog_run.simps(2))

lemma leads_act:
  assumes "i < length ps" and "f s = Inr (s', p)" and "leads (t, s', ps[i := p]) c'"
  shows "leads (t, s, ps[i := Act f]) c'"
  by (rule leads_step [of i, OF _ assms(3)]) (use assms(1,2) in \<open>simp add: prog_step_def\<close>)

lemma leads_acq:
  assumes "i < length ps" and "spin_of t l = None"
    and "leads (t\<lparr>spin_of := (spin_of t)(l := Some i)\<rparr>, s, ps[i := p]) c'"
  shows "leads (t, s, ps[i := Sync (Acq LK l) p]) c'"
  by (rule leads_step [of i, OF _ assms(3)]) (use assms(1,2) in \<open>simp add: prog_step_def Spinlock_lock_def\<close>)

lemma leads_rel:
  assumes "i < length ps" and "leads (t\<lparr>spin_of := (spin_of t)(l := None)\<rparr>, s, ps[i := p]) c'"
  shows "leads (t, s, ps[i := Sync (Rel LK l) p]) c'"
  by (rule leads_step [of i, OF _ assms(2)]) (use assms(1) in \<open>simp add: prog_step_def Spinlock_unlock_def\<close>)

lemma format_cout_append:
  "format_cout tstr name level e (its @ jts) k = format_cout tstr name level e its (format_cout tstr name level e jts k)"
  by (induction its) simp_all

lemma leads_format_cout:
  assumes "i < length ps" and "LogFormatter_format tstr name level e its = Inr u"
    and "leads (t, s\<lparr>console := console s @ u\<rparr>, ps[i := k]) c'"
  shows "leads (t, s, ps[i := format_cout tstr name level e its k]) c'"
  using assms(2,3)
proof (induction its arbitrary: s u)
  case (Cons it its)
  from Cons.prems(1) obtain v w where v: "item_format tstr name level e it = Inr v"
    "LogFormatter_format tstr name level e its = Inr w" "u = v @ w" by (auto simp: res_bind_Inr_iff)
  have "leads (t, s\<lparr>console := console s @ v\<rparr>, ps[i := format_cout tstr name level e its k]) c'"
    by (rule Cons.IH [OF v(2)]) (use v(3) Cons.prems(2) in simp)
  then show ?case unfolding format_cout.simps by (rule leads_act [OF assms(1), rotated]) (simp add: v(1))
qed simp

text \<open>A logger with one console appender, and a call that both let through.\<close>

definition to_one_console :: "log_sys \<Rightarrow> nat \<Rightarrow> log_level \<Rightarrow> nat \<Rightarrow> formatter \<Rightarrow> string \<Rightarrow> bool" where
  "to_one_console s l level a f name \<longleftrightarrow>
     (\<exists>x y. loggers s l = Some x \<and> l_appenders x = [a] \<and> l_level x \<le> level \<and> l_name x = name \<and>
        appenders s a = Some y \<and> a_kind y = StdoutLogAppender \<and> a_level y \<le> level \<and> a_formatter y = Some f)"

text \<open>The call up to its first item of output, and after its last.\<close>

lemma leads_request:
  assumes i: "i < length ps" and c: "to_one_console s l level a f name"
    and free: "spin_of t (LoggerMutex l) = None" "spin_of t (AppenderMutex a) = None"
    and go: "leads (t\<lparr>spin_of := (spin_of t)(LoggerMutex l := Some i, AppenderMutex a := Some i)\<rparr>, s,
      ps[i := format_cout tstr name level e (m_items f) (Sync (Rel LK (AppenderMutex a)) (Sync (Rel LK (LoggerMutex l)) k))]) c'"
  shows "leads (t, s, ps[i := Logger_log_prog n tstr level e l k]) c'"
proof -
  from c obtain x y where x: "get_logger l s = Inr x" "l_appenders x = [a]" "l_level x \<le> level" "l_name x = name"
    and y: "get_appender a s = Inr y" "a_kind y = StdoutLogAppender" "a_level y \<le> level" "a_formatter y = Some f"
    by (auto simp: to_one_console_def get_logger_def get_appender_def)
  let ?k = "Sync (Rel LK (LoggerMutex l)) k" and ?t = "t\<lparr>spin_of := (spin_of t)(LoggerMutex l := Some i)\<rparr>"
  have "leads (?t, s, ps[i := StdoutLogAppender_log_prog tstr name level e a ?k]) c'"
    unfolding StdoutLogAppender_log_prog_def in_scope_def
    apply (rule leads_act [OF i], simp add: y)
    apply (rule leads_acq [OF i], simp add: free)
    apply (rule leads_act [OF i], simp add: y)
    using go by simp
  then have "leads (?t, s, ps[i := LogAppender_log_prog tstr name level e a ?k]) c'"
    unfolding LogAppender_log_prog_def by (intro leads_act [OF i]) (simp_all add: y)
  then have "leads (?t, s, ps[i := Logger_log_locked tstr level e l v ?k]) c'" for v
    unfolding Logger_log_locked_def by (intro leads_act [OF i]) (simp_all add: x)
  then show ?thesis unfolding Logger_log_prog.simps [of n] in_scope_def
    apply (intro leads_act [OF i])
     apply (simp add: x)
    by (rule leads_acq [OF i]) (simp_all add: free)
qed

lemma leads_request_end:
  assumes i: "i < length ps"
    and go: "leads (t\<lparr>spin_of := (spin_of t)(AppenderMutex a := None, LoggerMutex l := None)\<rparr>, s, ps[i := k]) c'"
  shows "leads (t, s, ps[i := Sync (Rel LK (AppenderMutex a)) (Sync (Rel LK (LoggerMutex l)) k)]) c'"
  by (rule leads_rel [OF i], rule leads_rel [OF i]) (use go in simp)

lemma log_threads_end:
  assumes "log_inv s0" and "mgr_root s0 = Some 0" and "\<forall>fmt t. tstr fmt t \<noteq> None"
    and "\<forall>cs\<in>set css. \<forall>(level, e, l)\<in>set cs. loggers s0 l \<noteq> None"
    and "prog_run is (no_locks, s0, log_threads tstr css) = Some (t, s, rest)"
  shows "\<not> prog_faults i (t, s, rest) \<and>
    (\<exists>js s'. prog_run js (t, s, rest) = Some (no_locks, s', map (\<lambda>_. Halt) css) \<and> logging_from tstr s0 s')"
proof -
  have "logging_from tstr s0 s0" using assms(1-3) by (simp add: logging_from_def log_frame_refl)
  note run = prog_never_stuck [OF safe_threads [OF assms(4)] this assms(5), of i]
  have "map (\<lambda>_. Halt) (log_threads tstr css) = map (\<lambda>_. Halt) css" by (simp add: log_threads_def)
  from run [unfolded this] show ?thesis .
qed

section \<open>Properties\<close>

text \<open>Calls of one thread after the other.\<close>

fun log_in_order :: "time_str \<Rightarrow> log_request list \<Rightarrow> log_sys \<Rightarrow> log_sys res option" where
  "log_in_order tstr [] s = Some (Inr s)"
| "log_in_order tstr ((level, e, l) # cs) s = (case Logger_log 1 tstr level e l s of
       Some (Inr s') \<Rightarrow> log_in_order tstr cs s'
     | r \<Rightarrow> r)"

lemma log_in_order_exec:
  assumes "logging_from tstr s0 s" and "\<forall>(level, e, l)\<in>set cs. loggers s0 l \<noteq> None"
  shows "log_in_order tstr cs s = Some (Inr (fold (request_exec tstr) cs s))"
  using assms
proof (induction cs arbitrary: s)
  case (Cons c cs)
  obtain level e l where c: "c = (level, e, l)" by (cases c)
  with Cons.prems obtain x where x: "loggers s0 l = Some x" by auto
  from request_runs [OF Cons.prems(1) x, of level e] Cons show ?case by (simp add: c)
qed simp

text \<open>
  C12. Logging through one logger is atomic: let any number of threads call \<open>Logger::log\<close> on loggers that write
  through the same logger (that logger, and those without appenders whose root it is), with any appenders. However
  their steps interleave, every test of a level, lock operation, reopening of a file and output of an item of a
  pattern being a step of its own: when all have returned (every date format fits its buffer of 64 bytes), the consoles, files, streams and times of the
  appenders are what the calls leave when they run one at a time in some order that keeps that of each thread.
\<close>

theorem logging_is_serial:
  assumes "log_inv s0" and "mgr_root s0 = Some 0" and "\<forall>fmt t. tstr fmt t \<noteq> None"
    and "\<forall>cs\<in>set css. \<forall>(level, e, l)\<in>set cs. writer s0 l = Some r"
    and "prog_run is (no_locks, s0, log_threads tstr css) = Some (t, s, map (\<lambda>_. Halt) css)"
  shows "\<exists>cs. merge css cs \<and> log_in_order tstr cs s0 = Some (Inr s)"
proof -
  have s0: "logging_from tstr s0 s0" using assms(1-3) by (simp add: logging_from_def log_frame_refl)
  with assms(4) have ok: "\<forall>cs\<in>set css. \<forall>c\<in>set cs. through tstr s0 r c" by (auto simp: through_def)
  from one_logger.serial [OF ok s0 assms(5) [unfolded log_threads_def]] obtain cs where
    cs: "merge css cs" "s = fold (request_exec tstr) cs s0" by blast
  have "\<forall>(level, e, l)\<in>set cs. loggers s0 l \<noteq> None"
    using assms(4) one_logger.merge_set [OF cs(1)] by (fastforce simp: writer_def split: option.splits)
  from log_in_order_exec [OF s0 this] cs show ?thesis by blast
qed

theorem logging_is_serial_witness:
  "\<exists>s is s' cs. LoggerManager_new (\<lambda>_. True) (\<lambda>_. True) (\<lambda>_. False) = Inr s \<and>
    prog_run is (no_locks, s, log_threads demo_time [[(INFO, demo_event, 0)], [(WARN, demo_event, 0), (INFO, demo_event, 0)]]) =
      Some (no_locks, s', [Halt, Halt]) \<and>
    merge [[(INFO, demo_event, 0)], [(WARN, demo_event, 0), (INFO, demo_event, 0)]] cs \<and> log_in_order demo_time cs s = Some (Inr s')"
proof -
  let ?css = "[[(INFO, demo_event, 0)], [(WARN, demo_event, 0), (INFO, demo_event, 0)]] :: log_request list list"
  obtain s where s: "LoggerManager_new (\<lambda>_. True) (\<lambda>_. True) (\<lambda>_. False) = Inr s" using log_inv_manager by blast
  note sel = manager_sel [OF s]
  have tot: "\<forall>fmt t. demo_time fmt t \<noteq> None" by (simp add: demo_time_def)
  have lg: "\<forall>cs\<in>set ?css. \<forall>(level, e, l)\<in>set cs. loggers s l \<noteq> None" using sel(5) by auto
  obtain js s' where js: "prog_run js (no_locks, s, log_threads demo_time ?css) = Some (no_locks, s', map (\<lambda>_. Halt) ?css)"
    using log_threads_end [OF sel(1,2) tot lg prog_run.simps(1), THEN conjunct2] by blast
  have "\<forall>cs\<in>set ?css. \<forall>(level, e, l)\<in>set cs. writer s l = Some 0"
    using sel(5) by (auto simp: writer_def Logger_new_def)
  from logging_is_serial [OF sel(1,2) tot this js] js s show ?thesis by auto
qed

text \<open>
  C13. Concurrent logging never hangs and never faults: let any number of threads log through any loggers of a
  well-formed system, whatever appenders and files these share, where every date format fits its buffer of 64 bytes. However the steps have been interleaved
  so far, no thread is at a null pointer, a missing object or the end of the fuel, and the threads can be run on
  until all calls have returned; then every lock is free and the system is well-formed, with its loggers, levels
  and formatters as they were.
\<close>

theorem concurrent_logging_safe:
  assumes "log_inv s0" and "mgr_root s0 = Some 0" and "\<forall>fmt t. tstr fmt t \<noteq> None"
    and "\<forall>cs\<in>set css. \<forall>(level, e, l)\<in>set cs. loggers s0 l \<noteq> None"
    and "prog_run is (no_locks, s0, log_threads tstr css) = Some (t, s, rest)"
  shows "\<not> prog_faults i (t, s, rest) \<and>
    (\<exists>js s'. prog_run js (t, s, rest) = Some (no_locks, s', map (\<lambda>_. Halt) css) \<and> log_inv s' \<and> log_frame s0 s')"
  using log_threads_end [OF assms] logging_fromD(3,4) by metis

theorem concurrent_logging_safe_witness:
  "\<exists>s t s1 rest. LoggerManager_new (\<lambda>_. True) (\<lambda>_. True) (\<lambda>_. True) = Inr s \<and>
    prog_run [0, 0, 1] (no_locks, s, log_threads demo_time [[(INFO, demo_event, 0)], [(WARN, demo_event, 0)]]) = Some (t, s1, rest) \<and>
    spin_of t (LoggerMutex 0) = Some 0 \<and> \<not> prog_faults 1 (t, s1, rest)"
proof -
  let ?css = "[[(INFO, demo_event, 0)], [(WARN, demo_event, 0)]] :: log_request list list"
  obtain s where s: "LoggerManager_new (\<lambda>_. True) (\<lambda>_. True) (\<lambda>_. True) = Inr s" by (rule manager_starts)
  note sel = manager_sel [OF s]
  have tot: "\<forall>fmt t. demo_time fmt t \<noteq> None" by (simp add: demo_time_def)
  have lg: "\<forall>cs\<in>set ?css. \<forall>(level, e, l)\<in>set cs. loggers s l \<noteq> None" using sel(5) by auto
  obtain t s1 rest where run: "prog_run [0, 0, 1] (no_locks, s, log_threads demo_time ?css) = Some (t, s1, rest)"
    "spin_of t (LoggerMutex 0) = Some 0"
    using sel(5) by (simp add: log_threads_def request_prog_def Logger_log_prog.simps prog_step_def in_scope_def get_logger_def
        no_locks_def Spinlock_new_def Spinlock_lock_def Logger_new_def less_eq_log_level_def)
  from concurrent_logging_safe [OF sel(1,2) tot lg run(1), of 1] run s show ?thesis by blast
qed

text \<open>
  C36. Lines of different loggers tear each other apart: the lock around the output is that of the appender, and
  two console appenders have two locks for the one \<open>std::cout\<close>. For two threads that each write one event, through
  two loggers with a console appender each, and any place between two
  items of the first line, there is an interleaving that puts the whole second line there.
\<close>

theorem two_consoles_tear_lines:
  assumes "to_one_console s0 l level a f name" and "to_one_console s0 l' level' a' f' name'" and "a \<noteq> a'"
    and "m_items f = its @ jts" and "LogFormatter_format tstr name level e its = Inr u"
    and "LogFormatter_format tstr name level e jts = Inr v" and "LogFormatter_format tstr name' level' e' (m_items f') = Inr w"
  shows "\<exists>is t s. prog_run is (no_locks, s0, log_threads tstr [[(level, e, l)], [(level', e', l')]]) = Some (t, s, [Halt, Halt]) \<and>
    console s = console s0 @ u @ w @ v"
proof -
  have ll: "l \<noteq> l'" using assms(1-3) by (auto simp: to_one_console_def)
  let ?s1 = "s0\<lparr>console := console s0 @ u\<rparr>" and ?s2 = "s0\<lparr>console := console s0 @ u @ w\<rparr>"
  let ?p = "Logger_log_prog 1 tstr level e l Halt" and ?q = "Logger_log_prog 1 tstr level' e' l' Halt"
  let ?r = "Sync (Rel LK (AppenderMutex a)) (Sync (Rel LK (LoggerMutex l)) Halt)"
  let ?m = "format_cout tstr name level e jts ?r"
  have two: "to_one_console ?s1 l' level' a' f' name'" using assms(2) by (simp add: to_one_console_def)
  let ?s = "s0\<lparr>console := console s0 @ u @ w @ v\<rparr>"
  define t1 t2 t3 t4 :: "lock_id lock_table" where
    t1: "t1 = no_locks\<lparr>spin_of := (spin_of no_locks)(LoggerMutex l := Some 0, AppenderMutex a := Some 0)\<rparr>"
    and t2: "t2 = t1\<lparr>spin_of := (spin_of t1)(LoggerMutex l' := Some 1, AppenderMutex a' := Some 1)\<rparr>"
    and t3: "t3 = t2\<lparr>spin_of := (spin_of t2)(AppenderMutex a' := None, LoggerMutex l' := None)\<rparr>"
    and t4: "t4 = t3\<lparr>spin_of := (spin_of t3)(AppenderMutex a := None, LoggerMutex l := None)\<rparr>"
  let ?fin = "(t4, ?s, [Halt, Halt])"
  have "leads (t3, ?s, [Halt, Halt][0 := ?r]) ?fin"
    by (rule leads_request_end) (simp_all add: t4 leads_refl)
  then have "leads (t3, ?s2, [Halt, Halt][0 := ?m]) ?fin"
    by (intro leads_format_cout [OF _ assms(6)]) simp_all
  then have "leads (t2, ?s2, [?m, Halt][1 := Sync (Rel LK (AppenderMutex a')) (Sync (Rel LK (LoggerMutex l')) Halt)]) ?fin"
    by (intro leads_request_end) (simp_all add: t3)
  then have "leads (t2, ?s1, [?m, Halt][1 := format_cout tstr name' level' e' (m_items f')
      (Sync (Rel LK (AppenderMutex a')) (Sync (Rel LK (LoggerMutex l')) Halt))]) ?fin"
    by (intro leads_format_cout [OF _ assms(7)]) simp_all
  then have "leads (t1, ?s1, [?m, Halt][1 := ?q]) ?fin"
    by (intro leads_request [OF _ two]) (simp_all add: t1 t2 ll assms(3) ll [symmetric] assms(3) [symmetric] no_locks_def Spinlock_new_def)
  then have "leads (t1, s0, [Halt, ?q][0 := format_cout tstr name level e its ?m]) ?fin"
    by (intro leads_format_cout [OF _ assms(5)]) simp_all
  then have "leads (no_locks, s0, [Halt, ?q][0 := ?p]) ?fin"
    by (intro leads_request [OF _ assms(1)]) (simp_all add: t1 assms(4) format_cout_append no_locks_def Spinlock_new_def)
  then obtain js where "prog_run js (no_locks, s0, [?p, ?q]) = Some ?fin" by (auto simp: leads_def)
  then show ?thesis
    by (intro exI [of _ js] exI [of _ t4] exI [of _ ?s]) (simp add: log_threads_def request_prog_def)
qed

definition demo_console :: appender where
  "demo_console = StdoutLogAppender_new\<lparr>a_formatter := Some \<lparr>m_pattern = ''%m%n'', m_items = [MessageItem, NewLineItem], m_error = False\<rparr>\<rparr>"

definition demo_consoles :: log_sys where
  "demo_consoles = \<lparr>appenders = [2 \<mapsto> demo_console, 3 \<mapsto> demo_console],
     loggers = [0 \<mapsto> (Logger_new ''root'')\<lparr>l_appenders := [2]\<rparr>, 1 \<mapsto> (Logger_new ''system'')\<lparr>l_appenders := [3], l_root := Some 0\<rparr>],
     next_obj = 4, m_loggers = [(''root'', 0), (''system'', 1)], mgr_root = Some 0, console = '''', files = (\<lambda>_. ''''),
     sys_opens = (\<lambda>_. True), sys_opens_dir = (\<lambda>_. True), sys_writes = (\<lambda>_. True)\<rparr>"

theorem two_consoles_tear_lines_witness:
  "\<exists>is t s. prog_run is (no_locks, demo_consoles,
      log_threads demo_time [[(INFO, demo_event, 0)], [(INFO, demo_event\<lparr>e_content := ''bye''\<rparr>, 1)]]) = Some (t, s, [Halt, Halt]) \<and>
    console s = ''hello'' @ ''bye'' @ [CHR 0x0A] @ [CHR 0x0A]"
proof -
  let ?f = "\<lparr>m_pattern = ''%m%n'', m_items = [MessageItem, NewLineItem], m_error = False\<rparr>"
  have c: "to_one_console demo_consoles 0 INFO 2 ?f ''root''" "to_one_console demo_consoles 1 INFO 3 ?f ''system''"
    by (simp_all add: to_one_console_def demo_consoles_def demo_console_def Logger_new_def StdoutLogAppender_new_def less_eq_log_level_def)
  have "console demo_consoles = ''''" by (simp add: demo_consoles_def)
  with two_consoles_tear_lines [OF c, of "[MessageItem]" "[NewLineItem]" demo_time demo_event "''hello''" "[CHR 0x0A]"
      "demo_event\<lparr>e_content := ''bye''\<rparr>" "''bye'' @ [CHR 0x0A]"] show ?thesis
    by (simp add: demo_event_def)
qed

end
