(* ===== verification/StaticInit.thy ===== *)
theory StaticInit imports LogClient ConfigRun ProgRun begin

text \<open>
  The start of a program that links the library: the objects with static storage whose initialisers run code.
  Every translation unit has its \<open>g_logger\<close>, \<open>fiber.cc\<close> the variable with the stack size, \<open>log.cc\<close> the variable
  \<open>logs\<close> and the object that adds its listener. C++ orders the initialisers within a unit and leaves the order of the
  units open.
\<close>

section \<open>Static objects\<close>

datatype static_object = G_logger string | G_fiber_stack_size | G_log_defines | Log_init

text \<open>The units of \<open>src/LioNet\<close> with their static objects.\<close>

definition units :: "static_object list list" where
  "units = [[G_logger ''config.cc''], [G_logger ''env.cc''], [G_logger ''fiber.cc'', G_fiber_stack_size],
     [G_log_defines, Log_init], [G_logger ''scheduler.cc''], [G_logger ''thread.cc''], [G_logger ''util.cc'']]"

text \<open>
  The state during the start: the singletons, the \<open>g_logger\<close> of each unit, the registry, and the two pointers
  into it, which are the names of their variables; \<open>su_fun_id\<close> is \<open>s_fun_id\<close> of the class of \<open>logs\<close>.
\<close>

record startup =
  su_singletons :: "log_sys statics"
  su_g_logger :: "string \<Rightarrow> nat option"
  su_datas :: "(conf_value, (conf_value, process) action) datas"
  su_stack_size :: "string option"
  su_log_defines :: "string option"
  su_fun_id :: "64 word"

definition startup_new :: startup where
  "startup_new = \<lparr>su_singletons = Map.empty, su_g_logger = Map.empty, su_datas = [], su_stack_size = None,
     su_log_defines = None, su_fun_id = 0\<rparr>"

text \<open>
  The initialisers: \<open>g_logger\<close> of the unit \<open>f\<close>, where \<open>ctor\<close> is the constructor of the logger manager, which the
  first use of a logger runs; the two variables; \<open>__log_init\<close>, whose constructor adds the listener.
\<close>

definition g_logger_init :: "log_sys res \<Rightarrow> string \<Rightarrow> startup \<Rightarrow> startup res" where
  "g_logger_init ctor f u =
     res_bind (LIONET_LOG_NAME ctor ''system'' (su_singletons u)) (\<lambda>(l, st).
       Inr (u\<lparr>su_singletons := st, su_g_logger := (su_g_logger u)(f \<mapsto> l)\<rparr>))"

definition g_fiber_stack_size_init :: "startup \<Rightarrow> startup res" where
  "g_fiber_stack_size_init u =
     res_bind (Config_Lookup ''uint32_t'' ''fiber.stack_size'' (UInt32 (128 * 1024)) ''fiber stack size'' (su_datas u))
       (\<lambda>(x, ds). Inr (u\<lparr>su_datas := ds, su_stack_size := map_option cv_name x\<rparr>))"

definition g_log_defines_init :: "startup \<Rightarrow> startup res" where
  "g_log_defines_init u =
     res_bind (Config_Lookup ''std::set<LogDefine>'' ''logs'' (LogDefines []) ''log config'' (su_datas u))
       (\<lambda>(x, ds). Inr (u\<lparr>su_datas := ds, su_log_defines := map_option cv_name x\<rparr>))"

definition LogIniter_new :: "time_str \<Rightarrow> startup \<Rightarrow> startup res" where
  "LogIniter_new tstr u =
     (case Option.bind (su_log_defines u) (map_of (su_datas u)) of
        None \<Rightarrow> Inl NullDeref
      | Some x \<Rightarrow> (case addListener (Some (LogIniter_listener tstr)) (su_fun_id u) x of
          (k, fid, x') \<Rightarrow> Inr (u\<lparr>su_fun_id := fid, su_datas := put_data (cv_name x) x' (su_datas u)\<rparr>)))"

fun static_init :: "time_str \<Rightarrow> log_sys res \<Rightarrow> static_object \<Rightarrow> startup \<Rightarrow> startup res" where
  "static_init tstr ctor (G_logger f) u = g_logger_init ctor f u"
| "static_init tstr ctor G_fiber_stack_size u = g_fiber_stack_size_init u"
| "static_init tstr ctor G_log_defines u = g_log_defines_init u"
| "static_init tstr ctor Log_init u = LogIniter_new tstr u"

fun static_inits :: "time_str \<Rightarrow> log_sys res \<Rightarrow> static_object list \<Rightarrow> startup \<Rightarrow> startup res" where
  "static_inits tstr ctor [] u = Inr u"
| "static_inits tstr ctor (x # xs) u = res_bind (static_init tstr ctor x u) (static_inits tstr ctor xs)"

section \<open>Orders of initialisation\<close>

text \<open>\<open>fit ps xs\<close>: after \<open>ps\<close>, the objects \<open>xs\<close> come once each and \<open>__log_init\<close> after \<open>g_log_defines\<close>.\<close>

fun fit :: "static_object list \<Rightarrow> static_object list \<Rightarrow> bool" where
  "fit ps [] \<longleftrightarrow> True"
| "fit ps (x # xs) \<longleftrightarrow> x \<notin> set ps \<and> (x = Log_init \<longrightarrow> G_log_defines \<in> set ps) \<and> fit (x # ps) xs"

lemma distinct_mset_eq: "mset xs = {#x#} + mset ys \<Longrightarrow> distinct xs \<Longrightarrow> distinct ys \<and> x \<notin> set ys"
  by (metis distinct.simps(2) mset.simps(2) mset_eq_imp_distinct_iff add_mset_add_single union_commute)

lemma merge_fit:
  "merge css ys \<Longrightarrow> distinct (concat css) \<Longrightarrow> set ps \<inter> set (concat css) = {} \<Longrightarrow>
    \<forall>cs\<in>set css. Log_init \<in> set cs \<longrightarrow> G_log_defines \<in> set ps \<or> hd cs = G_log_defines \<Longrightarrow> fit ps ys"
proof (induction arbitrary: ps rule: merge.induct)
  case (merge_step i css x xs ys)
  let ?new = "css[i := xs]"
  have m: "mset (concat css) = {#x#} + mset (concat ?new)" by (rule mset_concat_update [OF merge_step(1,2)])
  have d: "distinct (concat ?new)" "x \<notin> set (concat ?new)" using distinct_mset_eq [OF m merge_step(5)] by auto
  have s: "set (concat css) = insert x (set (concat ?new))" using arg_cong [OF m, of set_mset] by simp
  have "x # xs \<in> set css" using merge_step(1,2) by (metis nth_mem)
  note old = merge_step(7) [rule_format, OF this]
  have "fit (x # ps) ys"
  proof (rule merge_step.IH [OF d(1)])
    show "set (x # ps) \<inter> set (concat ?new) = {}" using merge_step(6) s d(2) by auto
    show "\<forall>cs\<in>set ?new. Log_init \<in> set cs \<longrightarrow> G_log_defines \<in> set (x # ps) \<or> hd cs = G_log_defines"
      using merge_step(7) old set_update_subset_insert [of css i xs] by fastforce
  qed
  moreover have "x \<notin> set ps" using merge_step(6) s by auto
  moreover have "x = Log_init \<longrightarrow> G_log_defines \<in> set ps" using old by auto
  ultimately show ?case by simp
qed simp

lemma units_fit:
  assumes "merge units os"
  shows "fit [] os" and "set os = set (concat units)"
proof -
  show "fit [] os" by (rule merge_fit [OF assms]) (simp_all add: units_def)
  show "set os = set (concat units)" by (rule mset_eq_setD [OF merge_mset [OF assms]])
qed

section \<open>What the start leaves\<close>

abbreviation (input) stack_size_var :: "(conf_value, 'cb) config_var" where
  "stack_size_var \<equiv> ConfigVar_new ''uint32_t'' ''fiber.stack_size'' (UInt32 131072) ''fiber stack size''"

abbreviation (input) log_defines_var :: "(conf_value, 'cb) config_var" where
  "log_defines_var \<equiv> ConfigVar_new ''std::set<LogDefine>'' ''logs'' (LogDefines []) ''log config''"

text \<open>The state after the initialisers \<open>ps\<close>.\<close>

definition loggers_after :: "static_object list \<Rightarrow> startup \<Rightarrow> bool" where
  "loggers_after ps u \<longleftrightarrow>
     (if \<exists>f. G_logger f \<in> set ps
      then managed (su_singletons u) \<and> (\<exists>l. registered (su_singletons u) ''system'' l \<and>
        su_g_logger u = (\<lambda>f. if G_logger f \<in> set ps then Some l else None))
      else su_singletons u = Map.empty \<and> su_g_logger u = Map.empty)"

definition config_after :: "time_str \<Rightarrow> static_object list \<Rightarrow> startup \<Rightarrow> bool" where
  "config_after tstr ps u \<longleftrightarrow>
     (Log_init \<in> set ps \<longrightarrow> G_log_defines \<in> set ps) \<and> su_fun_id u = (if Log_init \<in> set ps then 1 else 0) \<and>
     su_stack_size u = (if G_fiber_stack_size \<in> set ps then Some ''fiber.stack_size'' else None) \<and>
     su_log_defines u = (if G_log_defines \<in> set ps then Some ''logs'' else None) \<and>
     map_of (su_datas u) = (\<lambda>n.
       if n = ''fiber.stack_size'' \<and> G_fiber_stack_size \<in> set ps then Some stack_size_var
       else if n = ''logs'' \<and> G_log_defines \<in> set ps
       then Some (log_defines_var\<lparr>cv_cbs := if Log_init \<in> set ps then [(1, Some (LogIniter_listener tstr))] else []\<rparr>)
       else None)"

lemma logger_init_after:
  assumes "loggers_after ps u" and "config_after tstr ps u" and "ctor = LoggerManager_new o1 o2 wr"
  shows "\<exists>u'. static_init tstr ctor (G_logger file) u = Inr u' \<and> loggers_after (G_logger file # ps) u' \<and> config_after tstr (G_logger file # ps) u'"
proof -
  obtain s0 where s0: "ctor = Inr s0" "log_inv s0" "map_of (m_loggers s0) ''root'' = mgr_root s0"
    using manager_starts [of o1 o2 wr] manager_sel(1,2,4) [of o1 o2 wr] assms(3) by metis
  let ?st = "if su_singletons u = Map.empty then [LoggerMgr \<mapsto> s0] else su_singletons u"
  have no: "\<not> managed Map.empty"
  proof
    assume "managed Map.empty"
    then obtain s :: log_sys where "Map.empty = [LoggerMgr \<mapsto> s]" unfolding managed_def by blast
    from fun_cong [OF this, of LoggerMgr] show False by simp
  qed
  have st: "managed ?st" "\<exists>f. G_logger f \<in> set ps \<Longrightarrow> ?st = su_singletons u"
  proof -
    have "managed [LoggerMgr \<mapsto> s0]" using s0(2,3) by (auto simp: managed_def)
    then show "managed ?st" using assms(1) by (auto simp: loggers_after_def split: if_splits)
    show "?st = su_singletons u" if "\<exists>f. G_logger f \<in> set ps"
      using assms(1) that no by (auto simp: loggers_after_def)
  qed
  from log_name_managed [OF st(1), of ctor "''system''"] obtain l st' where
    l: "LIONET_LOG_NAME ctor ''system'' ?st = Inr (l, st')" "managed st'" "registered st' ''system'' l"
      "\<forall>n k. registered ?st n k \<longrightarrow> registered st' n k" by blast
  then have run: "static_init tstr ctor (G_logger file) u = Inr (u\<lparr>su_singletons := st', su_g_logger := (su_g_logger u)(file \<mapsto> l)\<rparr>)"
    using s0(1) log_name_first [of s0 "''system''"] by (auto simp: g_logger_init_def split: if_splits)
  have "loggers_after (G_logger file # ps) (u\<lparr>su_singletons := st', su_g_logger := (su_g_logger u)(file \<mapsto> l)\<rparr>)"
  proof (cases "\<exists>f. G_logger f \<in> set ps")
    case True
    with assms(1) obtain k where k: "registered (su_singletons u) ''system'' k"
      "su_g_logger u = (\<lambda>f. if G_logger f \<in> set ps then Some k else None)" by (auto simp: loggers_after_def)
    with l(3,4) st(2) [OF True] have "k = l" by (auto simp: registered_def)
    with k have "(su_g_logger u)(file \<mapsto> l) = (\<lambda>f. if G_logger f \<in> set (G_logger file # ps) then Some l else None)" by auto
    with l show ?thesis by (auto simp: loggers_after_def)
  next
    case False
    with assms(1) have "(su_g_logger u)(file \<mapsto> l) = (\<lambda>f. if G_logger f \<in> set (G_logger file # ps) then Some l else None)"
      by (auto simp: loggers_after_def)
    with l show ?thesis by (auto simp: loggers_after_def)
  qed
  with run assms(2) show ?thesis by (auto simp: config_after_def)
qed

lemma loggers_after_other:
  assumes "loggers_after ps u" and "\<forall>f. x \<noteq> G_logger f"
    and "su_singletons u' = su_singletons u" and "su_g_logger u' = su_g_logger u"
  shows "loggers_after (x # ps) u'"
proof -
  have "G_logger f \<in> set (x # ps) \<longleftrightarrow> G_logger f \<in> set ps" for f using assms(2) by auto
  with assms(1,3,4) show ?thesis by (simp add: loggers_after_def)
qed

lemma static_init_after:
  assumes "loggers_after ps u" and "config_after tstr ps u" and "x \<notin> set ps" and "x = Log_init \<longrightarrow> G_log_defines \<in> set ps"
    and "ctor = LoggerManager_new o1 o2 wr"
  shows "\<exists>u'. static_init tstr ctor x u = Inr u' \<and> loggers_after (x # ps) u' \<and> config_after tstr (x # ps) u'"
proof (cases x)
  case (G_logger f)
  with logger_init_after [OF assms(1,2,5)] show ?thesis by simp
next
  case G_fiber_stack_size
  then have "map_of (su_datas u) ''fiber.stack_size'' = None" using assms(2,3) by (simp add: config_after_def)
  then have run: "static_init tstr ctor x u = Inr (u\<lparr>su_datas := put_data ''fiber.stack_size'' stack_size_var (su_datas u),
      su_stack_size := Some ''fiber.stack_size''\<rparr>)" (is "_ = Inr ?u")
    using G_fiber_stack_size by (simp add: g_fiber_stack_size_init_def Config_Lookup_def Let_def valid_name_chars_def ConfigVar_new_def to_lower_def is_upper_def char_code_def)
  have "config_after tstr (x # ps) ?u"
    using assms(2,3) G_fiber_stack_size by (simp add: config_after_def put_data_map_of fun_eq_iff)
  with run loggers_after_other [OF assms(1), of x ?u] G_fiber_stack_size show ?thesis by simp
next
  case G_log_defines
  then have "map_of (su_datas u) ''logs'' = None" "Log_init \<notin> set ps" using assms(2,3) by (auto simp: config_after_def)
  then have run: "static_init tstr ctor x u = Inr (u\<lparr>su_datas := put_data ''logs'' log_defines_var (su_datas u),
      su_log_defines := Some ''logs''\<rparr>)" (is "_ = Inr ?u")
    using G_log_defines by (simp add: g_log_defines_init_def Config_Lookup_def Let_def valid_name_chars_def ConfigVar_new_def to_lower_def is_upper_def char_code_def)
  have "config_after tstr (x # ps) ?u"
    using assms(2,3) G_log_defines \<open>Log_init \<notin> set ps\<close>
    by (simp add: config_after_def put_data_map_of fun_eq_iff ConfigVar_new_def)
  with run loggers_after_other [OF assms(1), of x ?u] G_log_defines show ?thesis by simp
next
  case Log_init
  let ?x = "log_defines_var\<lparr>cv_cbs := [(1, Some (LogIniter_listener tstr))]\<rparr>"
  from Log_init assms(2-4) have "map_of (su_datas u) ''logs'' = Some log_defines_var" "su_log_defines u = Some ''logs''"
    "su_fun_id u = 0" by (auto simp: config_after_def ConfigVar_new_def)
  then have run: "static_init tstr ctor x u = Inr (u\<lparr>su_fun_id := 1, su_datas := put_data ''logs'' ?x (su_datas u)\<rparr>)"
    (is "_ = Inr ?u")
    using Log_init by (simp add: LogIniter_new_def addListener_def Let_def ConfigVar_new_def to_lower_def is_upper_def char_code_def)
  have "config_after tstr (x # ps) ?u"
    using assms(2-4) Log_init by (simp add: config_after_def put_data_map_of fun_eq_iff)
  with run loggers_after_other [OF assms(1), of x ?u] Log_init show ?thesis by simp
qed

lemma static_inits_after:
  assumes "fit ps os" and "loggers_after ps u" and "config_after tstr ps u" and "ctor = LoggerManager_new o1 o2 wr"
  shows "\<exists>u'. static_inits tstr ctor os u = Inr u' \<and> loggers_after (rev os @ ps) u' \<and> config_after tstr (rev os @ ps) u'"
  using assms
proof (induction os arbitrary: ps u)
  case (Cons x os)
  with static_init_after [OF Cons.prems(2,3) _ _ assms(4), of x] obtain u1 where
    1: "static_init tstr ctor x u = Inr u1" "loggers_after (x # ps) u1" "config_after tstr (x # ps) u1" by auto
  from Cons.IH [OF _ 1(2,3) assms(4)] Cons.prems(1) 1(1) show ?case by simp
qed simp

section \<open>Properties\<close>

text \<open>
  C27. The library starts up in every order of its translation units: whatever the linker makes of the order of the
  units, no initialiser meets an object that is not there yet or throws. Afterwards the manager has been
  constructed once, every \<open>g_logger\<close> is the one logger called \<open>system\<close>, and the registry holds exactly the stack
  size of 131072 bytes and \<open>logs\<close> with no definitions and one listener, under the key 1: the function of \<open>LogIniter\<close> that reconfigures the loggers.
\<close>

theorem startup_in_any_order:
  assumes "merge units os"
  shows "\<exists>u l. static_inits tstr (LoggerManager_new o1 o2 wr) os startup_new = Inr u \<and>
    managed (su_singletons u) \<and> registered (su_singletons u) ''system'' l \<and>
    su_g_logger u = (\<lambda>f. if f \<in> {''config.cc'', ''env.cc'', ''fiber.cc'', ''scheduler.cc'', ''thread.cc'', ''util.cc''} then Some l else None) \<and>
    su_stack_size u = Some ''fiber.stack_size'' \<and> su_log_defines u = Some ''logs'' \<and>
    map_of (su_datas u) = [
      ''fiber.stack_size'' \<mapsto> ConfigVar_new ''uint32_t'' ''fiber.stack_size'' (UInt32 131072) ''fiber stack size'',
      ''logs'' \<mapsto> (ConfigVar_new ''std::set<LogDefine>'' ''logs'' (LogDefines []) ''log config'')
         \<lparr>cv_cbs := [(1, Some (LogIniter_listener tstr))]\<rparr>]"
proof -
  have "loggers_after [] startup_new" "config_after tstr [] startup_new"
    by (simp_all add: loggers_after_def config_after_def startup_new_def)
  from static_inits_after [OF units_fit(1) [OF assms] this refl, of o1 o2 wr] obtain u where
    u: "static_inits tstr (LoggerManager_new o1 o2 wr) os startup_new = Inr u" "loggers_after (rev os) u" "config_after tstr (rev os) u"
    by auto
  have os: "x \<in> set os \<longleftrightarrow> x \<in> set (concat units)" for x by (simp only: units_fit(2) [OF assms])
  have gl: "G_logger f \<in> set (rev os) \<longleftrightarrow>
      f \<in> {''config.cc'', ''env.cc'', ''fiber.cc'', ''scheduler.cc'', ''thread.cc'', ''util.cc''}" for f
    unfolding set_rev os by (auto simp: units_def)
  have "\<exists>l. managed (su_singletons u) \<and> registered (su_singletons u) ''system'' l \<and> su_g_logger u =
      (\<lambda>f. if f \<in> {''config.cc'', ''env.cc'', ''fiber.cc'', ''scheduler.cc'', ''thread.cc'', ''util.cc''} then Some l else None)"
  proof -
    have "\<exists>f. f \<in> {''config.cc'', ''env.cc'', ''fiber.cc'', ''scheduler.cc'', ''thread.cc'', ''util.cc''}" by blast
    from u(2) [unfolded loggers_after_def gl if_P [OF this]] show ?thesis by blast
  qed
  moreover have "su_stack_size u = Some ''fiber.stack_size''" "su_log_defines u = Some ''logs''"
    "map_of (su_datas u) = [''fiber.stack_size'' \<mapsto> stack_size_var, ''logs'' \<mapsto> log_defines_var\<lparr>cv_cbs := [(1, Some (LogIniter_listener tstr))]\<rparr>]"
    using u(3) by (auto simp: config_after_def os units_def)
  ultimately show ?thesis using u(1) by blast
qed

text \<open>The variable \<open>logs\<close> after the start; no variable has the empty name.\<close>

lemma start_has_logs:
  assumes "merge units os"
  shows "\<exists>u. static_inits tstr (LoggerManager_new o1 o2 wr) os startup_new = Inr u \<and> map_of (su_datas u) '''' = None \<and>
    LookupBase ''logs'' (su_datas u) = Some (log_defines_var\<lparr>cv_cbs := [(1, Some (LogIniter_listener tstr))]\<rparr>)"
proof -
  have "loggers_after [] startup_new" "config_after tstr [] startup_new"
    by (simp_all add: loggers_after_def config_after_def startup_new_def)
  from static_inits_after [OF units_fit(1) [OF assms] this refl, of o1 o2 wr] obtain u where
    u: "static_inits tstr (LoggerManager_new o1 o2 wr) os startup_new = Inr u" "config_after tstr (rev os) u" by auto
  have os: "x \<in> set os \<longleftrightarrow> x \<in> set (concat units)" for x by (simp only: units_fit(2) [OF assms])
  have "map_of (su_datas u) '''' = None"
    "map_of (su_datas u) ''logs'' = Some (log_defines_var\<lparr>cv_cbs := [(1, Some (LogIniter_listener tstr))]\<rparr>)"
    using u(2) by (simp_all add: config_after_def os units_def)
  with u(1) show ?thesis by (simp add: LookupBase_def)
qed

theorem startup_in_any_order_witness:
  "\<exists>u l. static_inits demo_time (LoggerManager_new (\<lambda>_. True) (\<lambda>_. True) (\<lambda>_. True)) (concat units) startup_new = Inr u \<and>
    su_g_logger u ''fiber.cc'' = Some l \<and> su_g_logger u ''util.cc'' = Some l"
proof -
  from startup_in_any_order [OF merge_concat, of demo_time "\<lambda>_. True" "\<lambda>_. True" "\<lambda>_. True"] obtain u l where
    u: "static_inits demo_time (LoggerManager_new (\<lambda>_. True) (\<lambda>_. True) (\<lambda>_. True)) (concat units) startup_new = Inr u"
    "su_g_logger u = (\<lambda>f. if f \<in> {''config.cc'', ''env.cc'', ''fiber.cc'', ''scheduler.cc'', ''thread.cc'', ''util.cc''} then Some l else None)"
    by blast
  have "su_g_logger u ''fiber.cc'' = Some l" "su_g_logger u ''util.cc'' = Some l" unfolding u(2) by simp_all
  with u(1) show ?thesis by blast
qed

end
