(* ===== verification/WorkerFiber.thy ===== *)
theory WorkerFiber imports Scheduler begin

text \<open>
  A thread in \<open>Scheduler::run\<close> with the \<open>Fiber\<close> objects themselves: the scheduler fiber of the thread, the idle
  fiber, the one \<open>func_fiber\<close> that functions are given to one after the other by \<open>reset\<close>, and fibers that have
  yielded and wait in the queue. Theory SchedulerInv has the loop with several workers over the states of fibers;
  here is one worker over their contexts and stacks.
\<close>

section \<open>The loop over fiber objects\<close>

text \<open>The queue, the thread with its fibers, and the two local pointers of \<open>run\<close>.\<close>

record 'a wthread =
  wt_queue :: "'a task list"
  wt_ctx :: "'a fctx"
  wt_idle_fiber :: nat
  wt_func_fiber :: "nat option"

text \<open>
  What \<open>run\<close> does before its loop; \<open>root\<close>: the thread is that of the constructor, which has set the scheduler
  fiber. \<open>idle\<close> is the function of the idle fiber.
\<close>

definition run_begin :: "32 word \<Rightarrow> bool \<Rightarrow> 'a coro \<Rightarrow> 'a fctx \<Rightarrow> (nat \<times> 'a fctx) res" where
  "run_begin stack_cfg root idle s =
     res_bind (if \<not> root then res_bind (Fiber_GetThis s) (\<lambda>(m, s1). Inr (s1\<lparr>t_scheduler_fiber := Some m\<rparr>)) else Inr s)
       (\<lambda>s1. Inr (Fiber_new stack_cfg (Some idle) 0 False s1))"

definition worker_begin :: "32 word \<Rightarrow> bool \<Rightarrow> 'a coro \<Rightarrow> 'a task list \<Rightarrow> 'a fctx \<Rightarrow> 'a wthread res" where
  "worker_begin stack_cfg root idle q s =
     res_bind (run_begin stack_cfg root idle s) (\<lambda>(i, s1).
       Inr \<lparr>wt_queue = q, wt_ctx = s1, wt_idle_fiber = i, wt_func_fiber = None\<rparr>)"

text \<open>What the function of the fiber \<open>f\<close> scheduled during its slice.\<close>

fun queue_event :: "nat \<Rightarrow> 'a event \<Rightarrow> 'a task list \<Rightarrow> 'a task list" where
  "queue_event f (Did a) q = q"
| "queue_event f (Spawned g thr) q = snd (scheduleNonLock (task_of_func (Some g) thr) q)"
| "queue_event f (SelfScheduled thr) q = snd (scheduleNonLock (task_of_fiber (Some f) thr) q)"

text \<open>
  \<open>f->swapIn()\<close>: the thread runs until it is back at \<open>h\<close>, in the loop. \<open>n\<close> is fuel.
\<close>

definition run_swapIn :: "nat \<Rightarrow> nat \<Rightarrow> nat \<Rightarrow> 'a wthread \<Rightarrow> 'a wthread res option" where
  "run_swapIn n h f w = (case swapIn_run n h f (wt_ctx w) of
       None \<Rightarrow> None
     | Some (Inl e) \<Rightarrow> Some (Inl e)
     | Some (Inr s) \<Rightarrow> Some (Inr (w\<lparr>wt_ctx := s,
         wt_queue := fold (queue_event f) (drop (length (events (wt_ctx w))) (events s)) (wt_queue w)\<rparr>)))"

definition state_of :: "nat \<Rightarrow> 'a wthread \<Rightarrow> fiber_state res" where
  "state_of f w = res_bind (deref (Some f) (wt_ctx w)) (\<lambda>(_, fb). Inr (f_state fb))"

definition requeue :: "nat \<Rightarrow> 'a wthread \<Rightarrow> 'a wthread" where
  "requeue f w = w\<lparr>wt_queue := snd (scheduleNonLock (task_of_fiber (Some f) (-1)) (wt_queue w))\<rparr>"

definition on_ctx :: "('a fctx \<Rightarrow> 'a fctx res) \<Rightarrow> 'a wthread \<Rightarrow> 'a wthread res" where
  "on_ctx f w = res_bind (f (wt_ctx w)) (\<lambda>s. Inr (w\<lparr>wt_ctx := s\<rparr>))"

text \<open>
  After the slice of a fiber from the queue. Where it has ended, \<open>ft.reset()\<close> drops the last pointer to it
  (the tasks of this theory are functions, so nobody else has one) and the destructor runs.
\<close>

definition after_fiber :: "nat \<Rightarrow> 'a wthread \<Rightarrow> 'a wthread res" where
  "after_fiber f w = res_bind (state_of f w) (\<lambda>st.
     if st = READY \<or> st = HOLD then Inr (requeue f w)
     else if st \<noteq> TERM_S \<and> st \<noteq> EXCEPT then on_ctx (put_state f HOLD) w
     else on_ctx (Fiber_delete f) w)"

text \<open>After the slice of \<open>func_fiber\<close>: an ended one is kept for the next function.\<close>

definition after_func :: "nat \<Rightarrow> 'a wthread \<Rightarrow> 'a wthread res" where
  "after_func f w = res_bind (state_of f w) (\<lambda>st.
     if st = READY \<or> st = HOLD then Inr ((requeue f w)\<lparr>wt_func_fiber := None\<rparr>)
     else if st = EXCEPT \<or> st = TERM_S then on_ctx (Fiber_reset f None) w
     else on_ctx (put_state f HOLD) (w\<lparr>wt_func_fiber := None\<rparr>))"

definition res_then :: "'a res option \<Rightarrow> ('a \<Rightarrow> 'b res) \<Rightarrow> 'b res option" where
  "res_then x f = map_option (\<lambda>r. res_bind r f) x"

text \<open>The branch on the task, without the counters.\<close>

definition run_func :: "nat \<Rightarrow> nat \<Rightarrow> 32 word \<Rightarrow> 'a coro \<Rightarrow> 'a wthread \<Rightarrow> 'a wthread res option" where
  "run_func n h stack_cfg g w =
     (case (case wt_func_fiber w of
              Some f \<Rightarrow> res_bind (Fiber_reset f (Some g) (wt_ctx w)) (\<lambda>s. Inr (f, s))
            | None \<Rightarrow> Inr (Fiber_new stack_cfg (Some g) 0 False (wt_ctx w))) of
        Inl e \<Rightarrow> Some (Inl e)
      | Inr (f, s) \<Rightarrow> res_then (run_swapIn n h f (w\<lparr>wt_ctx := s, wt_func_fiber := Some f\<rparr>)) (after_func f))"

definition run_task :: "nat \<Rightarrow> nat \<Rightarrow> 32 word \<Rightarrow> 'a task \<Rightarrow> 'a wthread \<Rightarrow> 'a wthread res option" where
  "run_task n h stack_cfg t w =
     (let func = (case tk_func t of Some g \<Rightarrow> run_func n h stack_cfg g w | None \<Rightarrow> Some (Inr w))
      in case tk_fiber t of
           None \<Rightarrow> func
         | Some f \<Rightarrow> (case state_of f w of
               Inl e \<Rightarrow> Some (Inl e)
             | Inr st \<Rightarrow> if st \<noteq> TERM_S \<and> st \<noteq> EXCEPT then res_then (run_swapIn n h f w) (after_fiber f) else func))"

text \<open>\<open>k\<close> rounds of the loop; without a task that fits the worker would idle, and the function ends.\<close>

definition fiber_state_at :: "'a fctx \<Rightarrow> nat \<Rightarrow> fiber_state" where
  "fiber_state_at s f = (case fibers s f of None \<Rightarrow> TERM_S | Some fb \<Rightarrow> f_state fb)"

fun worker_rounds :: "nat \<Rightarrow> nat \<Rightarrow> nat \<Rightarrow> 32 word \<Rightarrow> int \<Rightarrow> 'a wthread \<Rightarrow> 'a wthread res option" where
  "worker_rounds 0 n h stack_cfg tid w = Some (Inr w)"
| "worker_rounds (Suc k) n h stack_cfg tid w =
     (case pick_task (fiber_state_at (wt_ctx w)) tid (wt_queue w) of
        Inl e \<Rightarrow> Some (Inl e)
      | Inr (_, None, q) \<Rightarrow> Some (Inr w)
      | Inr (_, Some t, q) \<Rightarrow> (case run_task n h stack_cfg t (w\<lparr>wt_queue := q\<rparr>) of
            None \<Rightarrow> None
          | Some (Inl e) \<Rightarrow> Some (Inl e)
          | Some (Inr w') \<Rightarrow> worker_rounds k n h stack_cfg tid w'))"

section \<open>The reference\<close>

text \<open>
  Round robin on the functions alone: the first one runs a slice, what it spawned and its rest go to the end.
\<close>

fun spawned :: "'a event list \<Rightarrow> 'a coro list" where
  "spawned [] = []"
| "spawned (Spawned g thr # es) = g # spawned es"
| "spawned (_ # es) = spawned es"

text \<open>What a slice leaves to run: what it spawned, and the rest of the function.\<close>

definition leftover :: "'a event list \<Rightarrow> 'a coro option \<Rightarrow> 'a coro list" where
  "leftover es r = spawned es @ (case r of Some b \<Rightarrow> [b] | None \<Rightarrow> [])"

fun round_robin :: "nat \<Rightarrow> 'a coro list \<Rightarrow> 'a event list \<times> 'a coro list" where
  "round_robin 0 bs = ([], bs)"
| "round_robin (Suc k) [] = ([], [])"
| "round_robin (Suc k) (b # bs) =
     (let (es, st, r) = slice b;
          (es', bs') = round_robin k (bs @ leftover es r)
      in (es @ es', bs'))"

text \<open>
  Functions that schedule functions only, for any thread, and whose slices, and those of all they spawn, fit
  the fuel; the number of rounds they take.
\<close>

fun plain :: "nat \<Rightarrow> 'a coro \<Rightarrow> bool" where
  "plain n Return \<longleftrightarrow> 1 < n"
| "plain n Throw \<longleftrightarrow> 1 < n"
| "plain n (Act a b) \<longleftrightarrow> length (fst (slice b)) + 2 < n \<and> plain n b"
| "plain n (Spawn g thr b) \<longleftrightarrow> length (fst (slice b)) + 2 < n \<and> thr = -1 \<and> plain n g \<and> plain n b"
| "plain n (ScheduleSelf thr b) \<longleftrightarrow> False"
| "plain n (YieldReady b) \<longleftrightarrow> plain n b"
| "plain n (YieldHold b) \<longleftrightarrow> plain n b"

fun rounds :: "'a coro \<Rightarrow> nat" where
  "rounds Return = 1"
| "rounds Throw = 1"
| "rounds (Act a b) = rounds b"
| "rounds (Spawn g thr b) = rounds g + rounds b"
| "rounds (ScheduleSelf thr b) = rounds b"
| "rounds (YieldReady b) = Suc (rounds b)"
| "rounds (YieldHold b) = Suc (rounds b)"

lemma plain_fuel: "plain n b \<Longrightarrow> length (fst (slice b)) + 1 < n"
  by (induction b) (auto split: prod.splits)

lemma rounds_pos [simp]: "rounds b \<noteq> 0"
  by (induction b) simp_all

lemma leftover_simps [simp]:
  "leftover (Did a # es) r = leftover es r"
  "leftover (Spawned g thr # es) r = g # leftover es r"
  "leftover (SelfScheduled thr # es) r = leftover es r"
  "leftover [] None = []" "leftover [] (Some b) = [b]"
  by (simp_all add: leftover_def)

lemma slice_plain:
  assumes "plain n b" and "slice b = (es, st, r)"
  shows "list_all (plain n) (leftover es r)"
  using assms by (induction b arbitrary: es) (simp_all split: prod.splits, auto)

lemma slice_rounds:
  assumes "slice b = (es, st, r)"
  shows "rounds b = Suc (sum_list (map rounds (leftover es r)))"
  using assms by (induction b arbitrary: es) (simp_all split: prod.splits, auto)

lemma plain_queue:
  assumes "plain n b" and "slice b = (es, st, r)"
  shows "fold (queue_event f) es q = q @ map (\<lambda>g. task_of_func (Some g) (-1)) (spawned es)"
  using assms by (induction b arbitrary: es q)
    (simp_all split: prod.splits, auto simp: scheduleNonLock_def task_of_func_def)

text \<open>As many rounds as the functions take are enough.\<close>

lemma round_robin_Cons:
  assumes "slice b = (es, st, r)"
  shows "round_robin (Suc k) (b # bs) =
    (es @ fst (round_robin k (bs @ leftover es r)), snd (round_robin k (bs @ leftover es r)))"
  using assms by (simp split: prod.splits)

declare round_robin.simps(3) [simp del]

lemma round_robin_ends:
  assumes "sum_list (map rounds bs) \<le> k"
  shows "snd (round_robin k bs) = []"
  using assms
proof (induction k arbitrary: bs)
  case 0
  then show ?case by (cases bs) simp_all
next
  case (Suc k)
  show ?case
  proof (cases bs)
    case (Cons b bs')
    obtain es st r where sl: "slice b = (es, st, r)" by (cases "slice b") auto
    from Suc.prems have "sum_list (map rounds (bs' @ leftover es r)) \<le> k"
      by (simp add: Cons slice_rounds [OF sl])
    then show ?thesis by (simp add: Cons round_robin_Cons [OF sl] Suc.IH)
  qed simp
qed

section \<open>The loop and the reference\<close>

text \<open>
  The task \<open>t\<close> stands for the function \<open>b\<close>: it is the function itself, or a fiber that has yielded and
  continues with \<open>b\<close>.
\<close>

definition stands_for :: "(nat \<Rightarrow> 'a fiber option) \<Rightarrow> 'a task \<Rightarrow> 'a coro \<Rightarrow> bool" where
  "stands_for hp t b \<longleftrightarrow> t = task_of_func (Some b) (-1) \<or>
     (\<exists>f fb sz. t = task_of_fiber (Some f) (-1) \<and> hp f = Some fb \<and> continues_with MainFunc f fb b \<and>
        f_stack fb = StackMem sz \<and> (f_state fb = READY \<or> f_state fb = HOLD))"

definition owned :: "nat option \<Rightarrow> 'a task list \<Rightarrow> nat list" where
  "owned ff q = (case ff of Some f \<Rightarrow> [f] | None \<Rightarrow> []) @ List.map_filter tk_fiber q"

text \<open>
  The worker between two rounds. \<open>D\<close> are the fibers that live as long as the thread, \<open>m\<close> among them is the
  scheduler fiber; every other live fiber is \<open>func_fiber\<close> or is in the queue, once.
\<close>

definition heap_inv :: "nat set \<Rightarrow> nat \<Rightarrow> nat list \<Rightarrow> 'a fctx \<Rightarrow> bool" where
  "heap_inv D m L s \<longleftrightarrow> t_scheduler_fiber s = Some m \<and> m \<in> D \<and> distinct L \<and> set L \<inter> D = {} \<and>
     dom (fibers s) = D \<union> set L \<and> (\<forall>a\<in>dom (fibers s). a < next_addr s)"

definition reusable :: "(nat \<Rightarrow> 'a fiber option) \<Rightarrow> nat \<Rightarrow> bool" where
  "reusable hp f \<longleftrightarrow> (\<exists>fb sz. hp f = Some fb \<and> f_state fb = INIT \<and> f_stack fb = StackMem sz)"

definition round_inv :: "nat set \<Rightarrow> nat \<Rightarrow> nat option \<Rightarrow> 'a task list \<Rightarrow> 'a coro list \<Rightarrow> 'a fctx \<Rightarrow> bool" where
  "round_inv D m ff q bs s \<longleftrightarrow> heap_inv D m (owned ff q) s \<and>
     list_all2 (stands_for (fibers s)) q bs \<and> (\<forall>f. ff = Some f \<longrightarrow> reusable (fibers s) f)"

text \<open>The same when the fiber \<open>f\<close> with the function \<open>b\<close> is about to be switched to.\<close>

definition slice_inv ::
    "nat set \<Rightarrow> nat \<Rightarrow> nat \<Rightarrow> 'a coro \<Rightarrow> nat option \<Rightarrow> 'a task list \<Rightarrow> 'a coro list \<Rightarrow> 'a fctx \<Rightarrow> bool" where
  "slice_inv D m f b ff q bs s \<longleftrightarrow> heap_inv D m (f # owned ff q) s \<and>
     list_all2 (stands_for (fibers s)) q bs \<and> (\<forall>f. ff = Some f \<longrightarrow> reusable (fibers s) f) \<and>
     (\<exists>fb sz. fibers s f = Some fb \<and> continues_with MainFunc f fb b \<and> f_stack fb = StackMem sz)"

lemma owned_simps [simp]:
  "owned ff [] = (case ff of Some f \<Rightarrow> [f] | None \<Rightarrow> [])"
  "owned ff (q @ map (\<lambda>g. task_of_func (Some g) thr) gs) = owned ff q"
  "owned ff (q @ map (\<lambda>g. task_of_func (Some g) thr) gs @ [task_of_fiber (Some f) thr']) = owned ff q @ [f]"
  "owned ff (task_of_func (Some g) thr # q) = owned ff q"
  by (simp_all add: owned_def List.map_filter_def task_of_func_def task_of_fiber_def comp_def)

text \<open>Changes outside the queue's fibers do not matter to the queue.\<close>

lemma stands_for_frame:
  assumes "list_all2 (stands_for hp) q bs" and "\<And>g. g \<in> set (List.map_filter tk_fiber q) \<Longrightarrow> hp' g = hp g"
  shows "list_all2 (stands_for hp') q bs"
  using assms
proof (induction q bs rule: list_all2_induct)
  case (Cons t q b bs)
  then show ?case
    by (auto simp: stands_for_def List.map_filter_def task_of_fiber_def)
qed simp

lemma slice_inv_frame:
  assumes "slice_inv D m f b ff q bs s" and "\<And>g. g \<notin> insert f D \<Longrightarrow> hp' g = fibers s g"
  shows "list_all2 (stands_for hp') q bs \<and> (\<forall>f. ff = Some f \<longrightarrow> reusable hp' f)"
proof -
  have "hp' g = fibers s g" if "g \<in> set (owned ff q)" for g
    using assms that by (intro assms(2)) (auto simp: slice_inv_def heap_inv_def)
  then show ?thesis using assms(1) stands_for_frame [of "fibers s" q bs hp']
    by (auto simp: slice_inv_def owned_def reusable_def)
qed

lemma after_swapIn_sel:
  assumes "slice b = (es, st, r)" and "fibers s f = Some fb" and "fibers s m = Some fm"
  shows "fibers (after_swapIn h m f b s) =
      (fibers s)(m \<mapsto> fm\<lparr>f_ctx := Host h\<rparr>, f \<mapsto> slice_fiber MainFunc f fb st r)"
    "t_scheduler_fiber (after_swapIn h m f b s) = t_scheduler_fiber s"
    "next_addr (after_swapIn h m f b s) = next_addr s"
    "events (after_swapIn h m f b s) = events s @ es"
  using assms by (simp_all add: after_swapIn_def)

lemma slice_inv_fibers:
  assumes "slice_inv D m f b ff q bs s"
  obtains fb fm sz where "t_scheduler_fiber s = Some m" "m \<noteq> f" "fibers s f = Some fb" "fibers s m = Some fm"
    "continues_with MainFunc f fb b" "f_stack fb = StackMem sz"
proof -
  from assms have "m \<in> dom (fibers s)" "m \<noteq> f" by (auto simp: slice_inv_def heap_inv_def)
  with assms that show thesis by (auto simp: slice_inv_def heap_inv_def)
qed

text \<open>The slice itself.\<close>

definition ran :: "nat \<Rightarrow> nat \<Rightarrow> nat \<Rightarrow> 'a coro \<Rightarrow> 'a wthread \<Rightarrow> 'a wthread" where
  "ran h m f b w = w\<lparr>wt_ctx := after_swapIn h m f b (wt_ctx w),
     wt_queue := wt_queue w @ map (\<lambda>g. task_of_func (Some g) (-1)) (spawned (fst (slice b)))\<rparr>"

lemma run_swapIn_ran:
  assumes "slice_inv D m f b ff q bs (wt_ctx w)" and "plain n b"
  shows "run_swapIn n h f w = Some (Inr (ran h m f b w))"
proof -
  obtain fb fm sz where s: "t_scheduler_fiber (wt_ctx w) = Some m" "m \<noteq> f" "fibers (wt_ctx w) f = Some fb"
    "fibers (wt_ctx w) m = Some fm" "continues_with MainFunc f fb b" by (rule slice_inv_fibers [OF assms(1)])
  obtain es st r where sl: "slice b = (es, st, r)" by (cases "slice b") auto
  have "swapIn_run n h f (wt_ctx w) = Some (Inr (after_swapIn h m f b (wt_ctx w)))"
    using s plain_fuel [OF assms(2)] by (intro swapIn_run_slice)
  then show ?thesis
    by (simp add: run_swapIn_def ran_def sl after_swapIn_sel(4) [OF sl s(3,4)] plain_queue [OF assms(2) sl])
qed

text \<open>The heap after it, when the fiber object becomes \<open>fb'\<close> or is destroyed.\<close>

lemma slice_inv_heap:
  assumes "slice_inv D m f b ff q bs s" and "fibers s' = (fibers s)(m \<mapsto> fm, f \<mapsto> fb)"
    and "t_scheduler_fiber s' = t_scheduler_fiber s" and "next_addr s' = next_addr s"
    and "distinct L" and "set L = insert f (set (owned ff q))"
  shows "heap_inv D m L s'"
  using assms by (auto simp: slice_inv_def heap_inv_def)

lemma slice_inv_heap_freed:
  assumes "slice_inv D m f b ff q bs s" and "fibers s' = (fibers s)(m \<mapsto> fm, f := None)"
    and "t_scheduler_fiber s' = t_scheduler_fiber s" and "next_addr s' = next_addr s"
  shows "heap_inv D m (owned ff q) s'"
  using assms by (auto simp: slice_inv_def heap_inv_def)

text \<open>The spawned functions stand for themselves.\<close>

lemma stands_for_spawned:
  "list_all2 (stands_for hp) q bs \<Longrightarrow>
   list_all2 (stands_for hp) (q @ map (\<lambda>g. task_of_func (Some g) (-1)) gs) (bs @ gs)"
  by (intro list_all2_appendI) (auto simp: list_all2_conv_all_nth stands_for_def)

lemma yield_round_inv:
  assumes "slice_inv D m f b ff q bs s" and "slice b = (es, st, Some k)"
  shows "round_inv D m ff (q @ map (\<lambda>g. task_of_func (Some g) (-1)) (spawned es) @ [task_of_fiber (Some f) (-1)])
    (bs @ leftover es (Some k)) (after_swapIn h m f b s)"
proof -
  obtain fb fm sz where s: "t_scheduler_fiber s = Some m" "m \<noteq> f" "fibers s f = Some fb" "fibers s m = Some fm"
    "f_stack fb = StackMem sz" by (rule slice_inv_fibers [OF assms(1)])
  let ?s' = "after_swapIn h m f b s"
  note sel = after_swapIn_sel [OF assms(2) s(3,4)]
  have rest: "list_all2 (stands_for (fibers ?s')) q bs \<and> (\<forall>f. ff = Some f \<longrightarrow> reusable (fibers ?s') f)"
    using assms(1) by (intro slice_inv_frame [OF assms(1)]) (auto simp: sel slice_inv_def heap_inv_def)
  have "stands_for (fibers ?s') (task_of_fiber (Some f) (-1)) k"
    using s(5) slice_yields [OF assms(2)]
    by (auto simp: stands_for_def sel continues_with_slice_fiber slice_fiber_def continues_with_def)
  then have "list_all2 (stands_for (fibers ?s'))
      ((q @ map (\<lambda>g. task_of_func (Some g) (-1)) (spawned es)) @ [task_of_fiber (Some f) (-1)])
      ((bs @ spawned es) @ [k])"
    by (intro list_all2_appendI [OF stands_for_spawned [OF conjunct1 [OF rest]]]) simp
  moreover have "heap_inv D m (owned ff q @ [f]) ?s'"
    using assms(1) by (intro slice_inv_heap [OF assms(1)]) (auto simp: sel slice_inv_def heap_inv_def)
  ultimately show ?thesis using rest by (simp add: round_inv_def leftover_def)
qed

text \<open>A function that has ended leaves what it spawned; its fiber is destroyed, or kept empty.\<close>

lemma ended_round_inv:
  assumes "slice_inv D m f b ff q bs s" and "slice b = (es, st, None)"
    and "fibers s' = (fibers s)(m \<mapsto> fm, f := x)" and "t_scheduler_fiber s' = t_scheduler_fiber s"
    and "next_addr s' = next_addr s"
    and "(x = None \<and> ff' = ff) \<or> (ff = None \<and> ff' = Some f \<and> reusable (fibers s') f)"
  shows "round_inv D m ff' (q @ map (\<lambda>g. task_of_func (Some g) (-1)) (spawned es)) (bs @ leftover es None) s'"
proof -
  have rest: "list_all2 (stands_for (fibers s')) q bs \<and> (\<forall>f. ff = Some f \<longrightarrow> reusable (fibers s') f)"
    using assms(1) by (intro slice_inv_frame [OF assms(1)]) (auto simp: assms(3) slice_inv_def heap_inv_def)
  have "heap_inv D m (owned ff' q) s'"
    using assms(6)
  proof (elim disjE conjE)
    assume "x = None" "ff' = ff"
    with slice_inv_heap_freed [OF assms(1) _ assms(4,5)] assms(3) show ?thesis by simp
  next
    assume ff: "ff = None" "ff' = Some f" "reusable (fibers s') f"
    then obtain fb where "x = Some fb" by (auto simp: reusable_def assms(3))
    with assms(1,3) ff show ?thesis
      by (intro slice_inv_heap [OF assms(1) _ assms(4,5)]) (auto simp: slice_inv_def heap_inv_def owned_def)
  qed
  with rest assms(6) stands_for_spawned show ?thesis by (auto simp: round_inv_def leftover_def)
qed

lemma ran_sel [simp]:
  "wt_ctx (ran h m f b w) = after_swapIn h m f b (wt_ctx w)" "wt_func_fiber (ran h m f b w) = wt_func_fiber w"
  "wt_queue (ran h m f b w) =
     wt_queue w @ map (\<lambda>g. task_of_func (Some g) (-1)) (spawned (fst (slice b)))"
  by (simp_all add: ran_def)

lemma requeue_sel [simp]:
  "wt_ctx (requeue f w) = wt_ctx w" "wt_func_fiber (requeue f w) = wt_func_fiber w"
  "wt_queue (requeue f w) = wt_queue w @ [task_of_fiber (Some f) (-1)]"
  by (simp_all add: requeue_def scheduleNonLock_def task_of_fiber_def)

lemma state_of_ran:
  assumes "slice b = (es, st, r)" and "fibers (wt_ctx w) f = Some fb" and "fibers (wt_ctx w) m = Some fm"
  shows "state_of f (ran h m f b w) = Inr st"
  by (simp add: state_of_def after_swapIn_sel(1) [OF assms] slice_fiber_def)

lemma Fiber_delete_ended:
  assumes "fibers s f = Some fb" and "f_stack fb = StackMem sz" and "f_state fb = TERM_S \<or> f_state fb = EXCEPT"
  shows "Fiber_delete f s = Inr (s\<lparr>s_fiber_count := s_fiber_count s - 1, fibers := (fibers s)(f := None)\<rparr>)"
  using assms by (auto simp: Fiber_delete_def Let_def)

lemma Fiber_reset_ended:
  assumes "fibers s f = Some fb" and "f_stack fb = StackMem sz"
    and "f_state fb = TERM_S \<or> f_state fb = EXCEPT \<or> f_state fb = INIT"
  shows "Fiber_reset f g s = Inr (put_fiber f (fb\<lparr>f_func := g, f_ctx := Start MainFunc, f_state := INIT\<rparr>) s)"
  using assms by (auto simp: Fiber_reset_def)

definition round_done :: "nat set \<Rightarrow> nat \<Rightarrow> 'a coro list \<Rightarrow> 'a event list \<Rightarrow> 'a wthread res option \<Rightarrow> bool" where
  "round_done D m bs es r \<longleftrightarrow> (\<exists>w. r = Some (Inr w) \<and>
     round_inv D m (wt_func_fiber w) (wt_queue w) bs (wt_ctx w) \<and> events (wt_ctx w) = es)"

lemma fiber_round:
  assumes inv: "slice_inv D m f b (wt_func_fiber w) (wt_queue w) bs (wt_ctx w)" and pl: "plain n b"
    and sl: "slice b = (es, st, r)"
  shows "round_done D m (bs @ leftover es r) (events (wt_ctx w) @ es)
    (res_then (run_swapIn n h f w) (after_fiber f))"
proof -
  obtain fb fm sz where s: "m \<noteq> f" "fibers (wt_ctx w) f = Some fb" "fibers (wt_ctx w) m = Some fm"
    "f_stack fb = StackMem sz" by (rule slice_inv_fibers [OF inv])
  note st = state_of_ran [OF sl s(2,3), of h] and sel = after_swapIn_sel [OF sl s(2,3)]
  show ?thesis
  proof (cases r)
    case (Some k)
    with sl slice_yields have "st = READY \<or> st = HOLD" by blast
    with yield_round_inv [OF inv sl [unfolded Some], of h] show ?thesis
      by (simp add: round_done_def run_swapIn_ran [OF inv pl] res_then_def after_fiber_def st sl sel Some)
  next
    case None
    with sl slice_ends have e: "st = TERM_S \<or> st = EXCEPT" by blast
    let ?s' = "after_swapIn h m f b (wt_ctx w)"
    let ?s'' = "?s'\<lparr>s_fiber_count := s_fiber_count ?s' - 1, fibers := (fibers ?s')(f := None)\<rparr>"
    have "Fiber_delete f ?s' = Inr ?s''"
      using e s(4) by (intro Fiber_delete_ended [where fb = "slice_fiber MainFunc f fb st r"])
        (auto simp: sel slice_fiber_def)
    moreover have "round_inv D m (wt_func_fiber w)
        (wt_queue w @ map (\<lambda>g. task_of_func (Some g) (-1)) (spawned es)) (bs @ leftover es None) ?s''"
      by (rule ended_round_inv [OF inv sl [unfolded None], of _ "fm\<lparr>f_ctx := Host h\<rparr>" None]) (simp_all add: sel)
    ultimately show ?thesis using e
      by (auto simp: round_done_def run_swapIn_ran [OF inv pl] res_then_def after_fiber_def st sl sel None on_ctx_def)
  qed
qed

lemma func_round:
  assumes inv: "slice_inv D m f b None (wt_queue w) bs (wt_ctx w)" and pl: "plain n b"
    and sl: "slice b = (es, st, r)" and ff: "wt_func_fiber w = Some f"
  shows "round_done D m (bs @ leftover es r) (events (wt_ctx w) @ es)
    (res_then (run_swapIn n h f w) (after_func f))"
proof -
  obtain fb fm sz where s: "m \<noteq> f" "fibers (wt_ctx w) f = Some fb" "fibers (wt_ctx w) m = Some fm"
    "f_stack fb = StackMem sz" by (rule slice_inv_fibers [OF inv])
  note st = state_of_ran [OF sl s(2,3), of h] and sel = after_swapIn_sel [OF sl s(2,3)]
  show ?thesis
  proof (cases r)
    case (Some k)
    with sl slice_yields have "st = READY \<or> st = HOLD" by blast
    with yield_round_inv [OF inv sl [unfolded Some], of h] show ?thesis
      by (simp add: round_done_def run_swapIn_ran [OF inv pl] res_then_def after_func_def st sl sel Some)
  next
    case None
    with sl slice_ends have e: "st = TERM_S \<or> st = EXCEPT" by blast
    let ?s' = "after_swapIn h m f b (wt_ctx w)"
    let ?fb = "slice_fiber MainFunc f fb st r\<lparr>f_func := None, f_ctx := Start MainFunc, f_state := INIT\<rparr>"
    have "Fiber_reset f None ?s' = Inr (put_fiber f ?fb ?s')"
      using e s(4) by (intro Fiber_reset_ended) (auto simp: sel slice_fiber_def)
    moreover have "round_inv D m (Some f)
        (wt_queue w @ map (\<lambda>g. task_of_func (Some g) (-1)) (spawned es)) (bs @ leftover es None) (put_fiber f ?fb ?s')"
      by (rule ended_round_inv [OF inv sl [unfolded None], of _ "fm\<lparr>f_ctx := Host h\<rparr>" "Some ?fb"])
        (simp_all add: sel put_fiber_def reusable_def slice_fiber_def s(4))
    ultimately show ?thesis using e
      by (auto simp: round_done_def run_swapIn_ran [OF inv pl] res_then_def after_func_def st sl sel None on_ctx_def ff)
  qed
qed

text \<open>The three ways a round starts.\<close>

lemma start_fiber:
  assumes "round_inv D m ff (task_of_fiber (Some f) (-1) # q) (b # bs) s"
  shows "slice_inv D m f b ff q bs s \<and> (\<exists>fb. fibers s f = Some fb \<and> (f_state fb = READY \<or> f_state fb = HOLD))"
proof -
  from assms have st: "stands_for (fibers s) (task_of_fiber (Some f) (-1)) b" and
    q: "list_all2 (stands_for (fibers s)) q bs" "\<forall>f. ff = Some f \<longrightarrow> reusable (fibers s) f" and
    hp: "heap_inv D m (owned ff (task_of_fiber (Some f) (-1) # q)) s"
    by (simp_all add: round_inv_def)
  from hp have "heap_inv D m (f # owned ff q) s"
    by (auto simp: heap_inv_def owned_def List.map_filter_def task_of_fiber_def split: option.splits)
  with st q show ?thesis
    by (auto simp: slice_inv_def stands_for_def task_of_fiber_def task_of_func_def)
qed

lemma start_kept:
  assumes "round_inv D m (Some f) (task_of_func (Some b) (-1) # q) (b' # bs) s"
  shows "\<exists>s'. Fiber_reset f (Some b) s = Inr s' \<and> events s' = events s \<and> slice_inv D m f b None q bs s'"
proof -
  from assms obtain fb sz where fb: "fibers s f = Some fb" "f_state fb = INIT" "f_stack fb = StackMem sz"
    by (auto simp: round_inv_def reusable_def)
  let ?s' = "put_fiber f (fb\<lparr>f_func := Some b, f_ctx := Start MainFunc, f_state := INIT\<rparr>) s"
  from assms have q: "list_all2 (stands_for (fibers s)) q bs" and hp: "heap_inv D m (f # owned None q) s"
    by (simp_all add: round_inv_def owned_def List.map_filter_def task_of_func_def)
  have "list_all2 (stands_for (fibers ?s')) q bs"
    using q hp by (elim stands_for_frame) (auto simp: heap_inv_def owned_def)
  moreover have "heap_inv D m (f # owned None q) ?s'"
    using hp fb(1) by (auto simp: heap_inv_def put_fiber_def)
  moreover have "Fiber_reset f (Some b) s = Inr ?s'" using fb by (intro Fiber_reset_ended) auto
  ultimately show ?thesis using fb by (simp add: slice_inv_def continues_with_def)
qed

lemma Fiber_new_sel:
  assumes "Fiber_new cfg g sz uc s = (a, s')"
  shows "a = next_addr s" "next_addr s' = Suc a" "t_scheduler_fiber s' = t_scheduler_fiber s"
    "events s' = events s" "cur s' = cur s"
    "\<exists>fb sz. fibers s' = (fibers s)(a \<mapsto> fb) \<and> f_stack fb = StackMem sz \<and> f_func fb = g \<and>
      f_ctx fb = Start (if \<not> uc then MainFunc else CallerMainFunc)"
  using assms by (auto simp: Fiber_new_def Let_def put_fiber_def)

lemma start_new:
  assumes "round_inv D m None (task_of_func (Some b) (-1) # q) (b' # bs) s"
    and "Fiber_new cfg (Some b) 0 False s = (f, s')"
  shows "events s' = events s \<and> slice_inv D m f b None q bs s'"
proof -
  note new = Fiber_new_sel [OF assms(2)]
  from new(6) obtain fb sz where fb: "fibers s' = (fibers s)(f \<mapsto> fb)" "f_stack fb = StackMem sz"
    "f_func fb = Some b" "f_ctx fb = Start MainFunc" by auto
  from assms(1) have q: "list_all2 (stands_for (fibers s)) q bs" and hp: "heap_inv D m (owned None q) s"
    by (simp_all add: round_inv_def owned_def List.map_filter_def task_of_func_def)
  from hp have fresh: "f \<notin> dom (fibers s)" by (auto simp: heap_inv_def new(1))
  with hp have nd: "f \<notin> D" "f \<notin> set (owned None q)" by (auto simp: heap_inv_def)
  have "list_all2 (stands_for (fibers s')) q bs"
    using q nd by (elim stands_for_frame) (auto simp: fb(1) owned_def)
  moreover have "heap_inv D m (f # owned None q) s'"
    using hp nd new by (auto simp: heap_inv_def fb(1) less_SucI)
  ultimately show ?thesis using fb new(4) by (simp add: slice_inv_def continues_with_def)
qed

text \<open>A round of the loop is a round of the reference.\<close>

lemma round_step:
  assumes inv: "round_inv D m (wt_func_fiber w) (t # q) (b # bs) (wt_ctx w)" and pl: "plain n b"
    and sl: "slice b = (es, st, r)"
  shows "round_done D m (bs @ leftover es r) (events (wt_ctx w) @ es) (run_task n h cfg t (w\<lparr>wt_queue := q\<rparr>))"
proof -
  let ?w = "w\<lparr>wt_queue := q\<rparr>"
  from inv consider "t = task_of_func (Some b) (-1)" | f where "t = task_of_fiber (Some f) (-1)"
    by (auto simp: round_inv_def stands_for_def)
  then show ?thesis
  proof cases
    case 1
    have "round_done D m (bs @ leftover es r) (events (wt_ctx w) @ es) (run_func n h cfg b ?w)"
    proof (cases "wt_func_fiber w")
      case (Some f)
      with start_kept [of D m f b q b bs] inv 1 obtain s' where s': "Fiber_reset f (Some b) (wt_ctx w) = Inr s'"
        "events s' = events (wt_ctx w)" "slice_inv D m f b None q bs s'" by auto
      with func_round [of D m f b "?w\<lparr>wt_ctx := s', wt_func_fiber := Some f\<rparr>" bs n es st r h] pl sl Some
      show ?thesis by (simp add: run_func_def)
    next
      case None
      obtain f s' where n: "Fiber_new cfg (Some b) 0 False (wt_ctx w) = (f, s')" by fastforce
      with start_new [of D m b q b bs "wt_ctx w" cfg f s'] inv 1 None
      have "events s' = events (wt_ctx w)" "slice_inv D m f b None q bs s'" by auto
      with func_round [of D m f b "?w\<lparr>wt_ctx := s', wt_func_fiber := Some f\<rparr>" bs n es st r h] pl sl n None
      show ?thesis by (simp add: run_func_def)
    qed
    with 1 show ?thesis by (simp add: run_task_def task_of_func_def)
  next
    case 2
    with start_fiber [of D m "wt_func_fiber w" f q b bs "wt_ctx w"] inv obtain fb where
      f: "slice_inv D m f b (wt_func_fiber w) q bs (wt_ctx w)" "fibers (wt_ctx w) f = Some fb"
      "f_state fb = READY \<or> f_state fb = HOLD" by auto
    with fiber_round [of D m f b ?w bs n es st r h] pl sl 2 show ?thesis
      by (auto simp: run_task_def task_of_fiber_def state_of_def)
  qed
qed

text \<open>The search takes the head of such a queue.\<close>

lemma pick_head:
  assumes "round_inv D m ff (t # q) (b # bs) s"
  shows "\<exists>tickle. pick_task (fiber_state_at s) tid (t # q) = Inr (tickle, Some t, q)"
  using assms by (auto simp: round_inv_def stands_for_def task_of_func_def task_of_fiber_def fiber_state_at_def)

lemma rounds_refine:
  assumes "round_inv D m (wt_func_fiber w) (wt_queue w) bs (wt_ctx w)" and "list_all (plain n) bs"
  shows "round_done D m (snd (round_robin k bs)) (events (wt_ctx w) @ fst (round_robin k bs))
    (worker_rounds k n h cfg tid w)"
  using assms
proof (induction k arbitrary: w bs)
  case 0
  then show ?case by (simp add: round_done_def)
next
  case (Suc k)
  show ?case
  proof (cases "wt_queue w")
    case Nil
    with Suc.prems have "bs = []" by (simp add: round_inv_def)
    with Nil Suc.prems show ?thesis by (simp add: round_done_def)
  next
    case (Cons t q)
    with Suc.prems(1) obtain b bs' where bs: "bs = b # bs'" by (cases bs) (auto simp: round_inv_def)
    obtain es st r where sl: "slice b = (es, st, r)" by (cases "slice b") auto
    have inv: "round_inv D m (wt_func_fiber w) (t # q) (b # bs') (wt_ctx w)" and pl: "plain n b"
      using Suc.prems Cons bs by auto
    from round_step [OF inv pl sl] obtain w' where w': "run_task n h cfg t (w\<lparr>wt_queue := q\<rparr>) = Some (Inr w')"
      "round_inv D m (wt_func_fiber w') (wt_queue w') (bs' @ leftover es r) (wt_ctx w')"
      "events (wt_ctx w') = events (wt_ctx w) @ es" by (auto simp: round_done_def)
    from pick_head [OF inv, of tid] w'(1) Cons
    have "worker_rounds (Suc k) n h cfg tid w = worker_rounds k n h cfg tid w'" by auto
    moreover have "list_all (plain n) (bs' @ leftover es r)"
      using Suc.prems(2) slice_plain [OF pl sl] bs by simp
    ultimately show ?thesis using Suc.IH [OF w'(2)] w'(3)
      by (simp add: bs round_robin_Cons [OF sl])
  qed
qed

section \<open>What the functions do in all\<close>

text \<open>The events of a function and of all it spawns.\<close>

fun work :: "'a coro \<Rightarrow> 'a event multiset" where
  "work Return = {#}"
| "work Throw = {#}"
| "work (Act a b) = add_mset (Did a) (work b)"
| "work (Spawn g thr b) = add_mset (Spawned g thr) (work g + work b)"
| "work (ScheduleSelf thr b) = add_mset (SelfScheduled thr) (work b)"
| "work (YieldReady b) = work b"
| "work (YieldHold b) = work b"

lemma slice_work:
  assumes "slice b = (es, st, r)"
  shows "work b = mset es + sum_list (map work (leftover es r))"
  using assms by (induction b arbitrary: es) (simp_all split: prod.splits, auto)

lemma round_robin_work:
  "mset (fst (round_robin k bs)) + sum_list (map work (snd (round_robin k bs))) = sum_list (map work bs)"
proof (induction k arbitrary: bs)
  case (Suc k)
  show ?case
  proof (cases bs)
    case (Cons b bs')
    obtain es st r where sl: "slice b = (es, st, r)" by (cases "slice b") auto
    from Suc.IH [of "bs' @ leftover es r"] show ?thesis
      by (simp add: Cons round_robin_Cons [OF sl] slice_work [OF sl] ac_simps)
  qed simp
qed simp

section \<open>Counting the fibers\<close>

lemma alloc_inv_run_fiber: "run_fiber n s = Some (Inr s') \<Longrightarrow> alloc_inv s \<Longrightarrow> alloc_inv s'"
proof (induction n arbitrary: s)
  case 0
  then show ?case by (simp add: run_fiber.simps [of 0 s] split: kont.splits)
next
  case (Suc n)
  then show ?case
    by (auto simp: run_fiber.simps [of "Suc n" s] split: kont.splits sum.splits intro: inv_ops)
qed

lemma alloc_inv_run_swapIn:
  "run_swapIn n h f w = Some (Inr w') \<Longrightarrow> alloc_inv (wt_ctx w) \<Longrightarrow> alloc_inv (wt_ctx w')"
  by (auto simp: run_swapIn_def swapIn_run_def split: option.splits sum.splits
      dest!: alloc_inv_run_fiber intro: inv_ops)

lemma alloc_inv_on_ctx:
  assumes "on_ctx g w = Inr w'" and "\<And>s s'. g s = Inr s' \<Longrightarrow> alloc_inv s \<Longrightarrow> alloc_inv s'" and "alloc_inv (wt_ctx w)"
  shows "alloc_inv (wt_ctx w')"
  using assms by (auto simp: on_ctx_def res_bind_Inr_iff)

lemma alloc_inv_after:
  "after_fiber f w = Inr w' \<Longrightarrow> alloc_inv (wt_ctx w) \<Longrightarrow> alloc_inv (wt_ctx w')"
  "after_func f w = Inr w' \<Longrightarrow> alloc_inv (wt_ctx w) \<Longrightarrow> alloc_inv (wt_ctx w')"
  by (auto simp: after_fiber_def after_func_def res_bind_Inr_iff split: if_splits
      elim!: alloc_inv_on_ctx intro: inv_ops alloc_inv_put_state)

lemma alloc_inv_run_func:
  assumes "run_func n h cfg g w = Some (Inr w')" and "alloc_inv (wt_ctx w)"
  shows "alloc_inv (wt_ctx w')"
proof -
  from assms obtain f s w1 where "alloc_inv s"
    "run_swapIn n h f (w\<lparr>wt_ctx := s, wt_func_fiber := Some f\<rparr>) = Some (Inr w1)" "after_func f w1 = Inr w'"
    using alloc_inv_Fiber_new [of "wt_ctx w" cfg "Some g" 0 False]
    by (auto simp: run_func_def res_then_def res_bind_Inr_iff split: sum.splits option.splits prod.splits
        dest!: alloc_inv_reset)
  then show ?thesis using alloc_inv_run_swapIn alloc_inv_after(2) by fastforce
qed

lemma alloc_inv_run_task:
  assumes "run_task n h cfg t w = Some (Inr w')" and "alloc_inv (wt_ctx w)"
  shows "alloc_inv (wt_ctx w')"
  using assms
  by (auto simp: run_task_def Let_def res_then_def res_bind_Inr_iff
      split: option.splits sum.splits if_splits dest: alloc_inv_run_func alloc_inv_run_swapIn alloc_inv_after)

lemma alloc_inv_rounds:
  "worker_rounds k n h cfg tid w = Some (Inr w') \<Longrightarrow> alloc_inv (wt_ctx w) \<Longrightarrow> alloc_inv (wt_ctx w')"
  by (induction k arbitrary: w) (auto split: option.splits sum.splits prod.splits dest: alloc_inv_run_task)

section \<open>From the start of the thread\<close>

lemma run_begin_inv:
  assumes al: "alloc_inv s"
    and sch: "if root then \<exists>m. t_scheduler_fiber s = Some m \<and> m \<in> dom (fibers s) else t_fiber s = None"
  shows "\<exists>i s' m. run_begin cfg root idle s = Inr (i, s') \<and> alloc_inv s' \<and> events s' = events s \<and>
    t_scheduler_fiber s' = Some m \<and> m \<in> dom (fibers s')"
proof -
  obtain s1 m where s1: "run_begin cfg root idle s = Inr (Fiber_new cfg (Some idle) 0 False s1)" "alloc_inv s1"
    "events s1 = events s" "t_scheduler_fiber s1 = Some m" "m \<in> dom (fibers s1)"
  proof (cases root)
    case True
    with al sch that show thesis by (auto simp: run_begin_def)
  next
    case False
    then have none: "t_fiber s = None" using sch by simp
    let ?s1 = "(snd (Fiber_main s))\<lparr>t_threadFiber := Some (next_addr s), t_scheduler_fiber := Some (next_addr s)\<rparr>"
    have "run_begin cfg root idle s = Inr (Fiber_new cfg (Some idle) 0 False ?s1)"
      using False none by (simp add: run_begin_def Fiber_GetThis_def Fiber_main_def Let_def SetThis_def put_fiber_def)
    moreover have "alloc_inv ?s1" using alloc_inv_Fiber_main [OF al] by simp
    moreover have "events ?s1 = events s" "next_addr s \<in> dom (fibers ?s1)"
      by (simp_all add: Fiber_main_def Let_def SetThis_def put_fiber_def)
    ultimately show thesis using that [of ?s1 "next_addr s"] by simp
  qed
  obtain i s' where n: "Fiber_new cfg (Some idle) 0 False s1 = (i, s')" by fastforce
  note new = Fiber_new_sel [OF n]
  from new(6) s1(5) have "m \<in> dom (fibers s')" by auto
  moreover have "alloc_inv s'" using alloc_inv_Fiber_new [OF s1(2), of cfg "Some idle" 0 False] n by simp
  ultimately show ?thesis using s1(1,3,4) n new by auto
qed

lemma worker_begin_inv:
  assumes "alloc_inv s"
    and "if root then \<exists>m. t_scheduler_fiber s = Some m \<and> m \<in> dom (fibers s) else t_fiber s = None"
  shows "\<exists>w m. worker_begin cfg root idle (map (\<lambda>g. task_of_func (Some g) (-1)) gs) s = Inr w \<and>
    wt_func_fiber w = None \<and> alloc_inv (wt_ctx w) \<and> events (wt_ctx w) = events s \<and>
    round_inv (dom (fibers (wt_ctx w))) m None (wt_queue w) gs (wt_ctx w)"
proof -
  from run_begin_inv [OF assms, of cfg idle] obtain i s' m where b: "run_begin cfg root idle s = Inr (i, s')"
    "alloc_inv s'" "events s' = events s" "t_scheduler_fiber s' = Some m" "m \<in> dom (fibers s')" by auto
  have "list_all2 (stands_for hp) (map (\<lambda>g. task_of_func (Some g) (-1)) gs) gs" for hp
    by (simp add: list_all2_conv_all_nth stands_for_def)
  moreover have "owned None (map (\<lambda>g. task_of_func (Some g) (-1)) gs) = []"
    by (simp add: owned_def List.map_filter_def task_of_func_def comp_def)
  ultimately show ?thesis using b
    by (auto simp: worker_begin_def round_inv_def heap_inv_def alloc_inv_def)
qed

lemma rounds_count:
  assumes "round_inv D m ff [] [] s" and "alloc_inv s" and "finite D"
  shows "TotalFibers s = of_nat (card D) + (if ff = None then 0 else 1)"
proof -
  have "dom (fibers s) = D \<union> set (owned ff [])" "set (owned ff []) \<inter> D = {}"
    using assms(1) by (auto simp: round_inv_def heap_inv_def)
  with assms(2,3) show ?thesis
    by (auto simp: TotalFibers_def alloc_inv_def split: option.splits)
qed

section \<open>Properties\<close>

text \<open>
  C4. A thread in \<open>Scheduler::run\<close> is a round robin over the functions in its queue, for functions that schedule only
  functions, for any thread (\<open>plain\<close>). It runs the events of the
  reference in the same order, one slice for each round, and holds as many tasks as the reference has functions
  left, although between the slices the functions are in \<open>func_fiber\<close>, in fibers made for them and in
  fibers that wait in the queue: \<open>reset\<close>, \<open>swapIn\<close> and the destructor never fault. After as many rounds as the
  functions take, the queue is empty, everything the functions and those they spawned do has happened once, and no
  fiber is left over but the one kept in \<open>func_fiber\<close>.
\<close>

theorem worker_is_round_robin:
  assumes reach: "fiber_reachable cfg s"
    and sch: "if root then \<exists>m. t_scheduler_fiber s = Some m \<and> m \<in> dom (fibers s) else t_fiber s = None"
    and pl: "list_all (plain n) gs"
  shows "\<exists>w w'. worker_begin cfg root idle (map (\<lambda>g. task_of_func (Some g) (-1)) gs) s = Inr w \<and>
    worker_rounds k n h cfg tid w = Some (Inr w') \<and>
    events (wt_ctx w') = events s @ fst (round_robin k gs) \<and>
    length (wt_queue w') = length (snd (round_robin k gs)) \<and>
    (sum_list (map rounds gs) \<le> k \<longrightarrow> wt_queue w' = [] \<and>
       mset (fst (round_robin k gs)) = sum_list (map work gs) \<and>
       TotalFibers (wt_ctx w') = TotalFibers (wt_ctx w) + (if wt_func_fiber w' = None then 0 else 1))"
proof -
  from worker_begin_inv [OF alloc_inv_reachable [OF reach] sch, of cfg idle gs] obtain w m where
    w: "worker_begin cfg root idle (map (\<lambda>g. task_of_func (Some g) (-1)) gs) s = Inr w" "wt_func_fiber w = None"
      "alloc_inv (wt_ctx w)" "events (wt_ctx w) = events s"
      "round_inv (dom (fibers (wt_ctx w))) m None (wt_queue w) gs (wt_ctx w)" by auto
  let ?D = "dom (fibers (wt_ctx w))"
  from w(2,5) rounds_refine [of ?D m w gs n k h cfg tid] pl obtain w' where
    w': "worker_rounds k n h cfg tid w = Some (Inr w')" "events (wt_ctx w') = events s @ fst (round_robin k gs)"
      "round_inv ?D m (wt_func_fiber w') (wt_queue w') (snd (round_robin k gs)) (wt_ctx w')"
    by (auto simp: round_done_def w(4))
  have D: "finite ?D" "TotalFibers (wt_ctx w) = of_nat (card ?D)"
    using w(3) by (simp_all add: alloc_inv_def TotalFibers_def)
  have "wt_queue w' = []" "TotalFibers (wt_ctx w') = TotalFibers (wt_ctx w) + (if wt_func_fiber w' = None then 0 else 1)"
    if "sum_list (map rounds gs) \<le> k"
  proof -
    have emp: "round_inv ?D m (wt_func_fiber w') (wt_queue w') [] (wt_ctx w')"
      using w'(3) by (simp add: round_robin_ends [OF that])
    then show "wt_queue w' = []" by (simp add: round_inv_def)
    with emp rounds_count [of ?D m "wt_func_fiber w'" "wt_ctx w'"] alloc_inv_rounds [OF w'(1) w(3)] D
    show "TotalFibers (wt_ctx w') = TotalFibers (wt_ctx w) + (if wt_func_fiber w' = None then 0 else 1)" by simp
  qed
  moreover have "mset (fst (round_robin k gs)) = sum_list (map work gs)" if "sum_list (map rounds gs) \<le> k"
    using round_robin_work [of k gs] round_robin_ends [OF that] by simp
  moreover have "length (wt_queue w') = length (snd (round_robin k gs))"
    using w'(3) by (auto simp: round_inv_def dest: list_all2_lengthD)
  ultimately show ?thesis using w(1) w'(1,2) by blast
qed

theorem worker_is_round_robin_witness:
  "\<exists>w w'. worker_begin 131072 False Return (map (\<lambda>g. task_of_func (Some g) (-1))
      [Act 1 (YieldHold (Act 2 Return)), Spawn (Act 3 Throw) (-1) Return :: nat coro]) fctx_init = Inr w \<and>
    worker_rounds 4 5 7 131072 11 w = Some (Inr w') \<and> wt_queue w' = [] \<and>
    events (wt_ctx w') = [Did 1, Spawned (Act 3 Throw) (-1), Did 2, Did 3]"
proof -
  let ?gs = "[Act 1 (YieldHold (Act 2 Return)), Spawn (Act 3 Throw) (-1) Return :: nat coro]"
  have "t_fiber (fctx_init :: nat fctx) = None" "events (fctx_init :: nat fctx) = []" "list_all (plain 5) ?gs"
    "sum_list (map rounds ?gs) \<le> 4"
    and rr: "fst (round_robin 4 ?gs) = [Did 1, Spawned (Act 3 Throw) (-1), Did 2, Did 3]"
    by (simp_all add: fctx_init_def eval_nat_numeral round_robin.simps(3))
  with worker_is_round_robin [OF fiber_start, of False 5 ?gs 131072 Return 4 7 11]
  show ?thesis unfolding rr by (simp only: if_False append_Nil) blast
qed

end
