(* ===== verification/Spec2Isabelle.thy ===== *)
theory Spec2Isabelle imports Prelude Fiber Scheduler SchedulerInv SchedulerDrain SchedulerStop SchedulerFiber SchedulerStart
  MutexModel ThreadModel LogFormat UtilFS UtilBacktrace UtilDir LogCore ConfigModel ConfigCast EnvModel ConfigRun
  ConfigDir LogDefine LogConfig SingletonModel LogClient LockRun LockOrder ProgRun LogConcurrent StaticInit WorkerFiber begin

text \<open>
  A verification development for LioNet, a C++ library of fibers, a fiber scheduler, threads and
  locks, logging, configuration and process environment (\<open>src/LioNet\<close>).

  \<^bold>\<open>The program.\<close> A \<open>Fiber\<close> is a function with a stack of its own (\<open>ucontext\<close>). A \<open>Scheduler\<close> has a queue
  of tasks (fibers or functions, for any thread or for one) and worker threads in \<open>Scheduler::run\<close>, which
  take tasks, \<open>swapIn\<close> the fiber and schedule it again when it yielded. \<open>Thread\<close> is a pthread whose
  constructor waits for the child. Loggers write events to appenders through formatters; the manager
  knows them by name. Configuration variables have listeners and are loaded from YAML; one of them,
  \<open>logs\<close>, reconfigures the loggers through its listener, which asks the environment for the option \<open>-d\<close>.

  \<^bold>\<open>Theories and sources.\<close>
  \<^item> \<open>Prelude\<close>: the faults of a C++ operation (\<open>fault\<close>: failed assertions of \<open>macro.h\<close>, null, dead and out of
    bounds accesses, reads of indeterminate values, exceptions), results \<open>res\<close>, strings, ordered maps.
  \<^item> \<open>Fiber\<close>: \<open>fiber.h\<close>, \<open>fiber.cc\<close>. The heap of \<open>Fiber\<close> objects, the global counters, the thread-local
    pointers; a context is an execution point (\<open>kont\<close>), a fiber's function a \<open>coro\<close>. One definition per
    member function; \<open>fiber_step\<close> is \<open>MainFunc\<close> and \<open>CallerMainFunc\<close>.
  \<^item> \<open>Scheduler\<close>: \<open>scheduler.h\<close>, \<open>scheduler.cc\<close>. Queue operations, constructor, \<open>start\<close>, \<open>stop\<close>, \<open>switchTo\<close>,
    \<open>dump\<close>; \<open>run\<close> is \<open>worker_step\<close>, at the granularity of the sections under \<open>m_mutex\<close> and the atomic
    counters. \<open>SchedulerInv\<close>: all interleavings of all programs (\<open>sched_any\<close>, which keeps track of whether a fiber has been
    scheduled that somebody held, as \<open>switchTo\<close> does), those of functions that never schedule their own fiber
    (\<open>sched_step\<close>), and the invariant of ownership. \<open>SchedulerDrain\<close>: the
    work in the system as a measure. \<open>SchedulerStop\<close>: \<open>stop\<close> and the end of the workers. \<open>SchedulerFiber\<close>:
    the scheduler's fibers refine those of theory Fiber. \<open>SchedulerStart\<close>: \<open>start\<close> with the threads it makes, their
    handshake and the mutex, as a refinement of the one step \<open>Scheduler_start\<close>. \<open>WorkerFiber\<close>: one thread in \<open>run\<close> over
    the \<open>Fiber\<close> objects (\<open>worker_rounds\<close>), with \<open>func_fiber\<close>, its resets and the destructor, and round robin on the functions
    alone as its reference.
  \<^item> \<open>MutexModel\<close>: \<open>mutex.h\<close>, \<open>mutex.cc\<close>. \<open>ThreadModel\<close>: \<open>thread.h\<close>, \<open>thread.cc\<close>.
  \<^item> \<open>LogFormat\<close>: levels, events, format items and the pattern parser of \<open>log.h\<close>, \<open>log.cc\<close>. \<open>LogCore\<close>:
    appenders, loggers, manager. \<open>LogDefine\<close>: \<open>LogDefine\<close>, its conversions and \<open>toYamlString\<close>. \<open>LogConfig\<close>:
    the listener of \<open>logs\<close>. \<open>SingletonModel\<close>: \<open>singleton.h\<close>. \<open>LogClient\<close>: the macros that reach the manager
    through its singleton, and client code (\<open>stmt\<close>) with its types.
  \<^item> \<open>ConfigModel\<close>: variables, listeners, registry and loading of \<open>config.h\<close>, \<open>config.cc\<close>. \<open>ConfigCast\<close>: the
    \<open>LexicalCast\<close> templates. \<open>ConfigRun\<close>: \<open>setValue\<close>, \<open>fromString\<close> and \<open>LoadFromYaml\<close> with listeners that act on the state of
    the process, and the listener of \<open>logs\<close> as one of them. \<open>EnvModel\<close>: \<open>env.h\<close>, \<open>env.cc\<close>. \<open>ConfigDir\<close>:
    \<open>LoadFromConfDir\<close>, over the environment and the directory functions of \<open>UtilDir\<close>.
  \<^item> \<open>LockRun\<close>: threads over several lock objects of \<open>MutexModel\<close>, and the order that excludes deadlock.
    \<open>LockOrder\<close>: what each function of \<open>log.cc\<close>, \<open>config.h\<close> and \<open>config.cc\<close> takes and releases (\<open>f_locks\<close> for
    the function \<open>f\<close>), and all threads that make such calls.
  \<^item> \<open>ProgRun\<close>: threads that share a state as well as locks, as resumptions (\<open>prog\<close>), and what scoped locks in an
    order and work under one mutex give for them. \<open>LogConcurrent\<close>: \<open>Logger::log\<close> and the functions below it as such
    programs (\<open>f_prog\<close> for the function \<open>f\<close>), with the theorems on several threads that log.
  \<^item> \<open>StaticInit\<close>: the static objects of all units (\<open>g_logger\<close>, \<open>g_fiber_stack_size\<close>, \<open>g_log_defines\<close>, \<open>__log_init\<close>)
    in the orders that C++ allows.
  \<^item> \<open>UtilFS\<close>: clock, path and stream functions of \<open>util.cc\<close>. \<open>UtilBacktrace\<close>: \<open>demangle\<close> and the backtrace.
    \<open>UtilDir\<close>: its directory functions.

  \<^bold>\<open>Interfaces.\<close> The queue of \<open>run\<close> (\<open>work_queue\<close>, interpreted on \<open>pick_task\<close> and \<open>scheduleNonLock\<close>), locks
  and scoped locks (\<open>lockable\<close>, \<open>exclusive_lock\<close>, interpreted on every lock class), code that takes locks in an order
  (\<open>lock_order\<close>, interpreted on the calls of theory LockOrder), calls that work under one mutex
  (\<open>mutex_calls\<close>, interpreted on the log calls of the loggers that write through one), listeners by key
  (\<open>listener_map\<close>) and program options (\<open>option_map\<close>) are locales, with the laws their clients use.

  \<^bold>\<open>What is shown.\<close> Fibers: one \<open>swapIn\<close> runs one slice, repeated \<open>swapIn\<close> runs to the end, counters and ids,
  the aborts. Scheduler: a thread in \<open>run\<close> is a round robin over the functions it is given, and leaks no fiber; under every interleaving of
  every program no fiber is on two workers and no step faults until a held fiber is scheduled, and the counts are
  exact; when no function schedules its own fiber, busy steps are bounded by the work and \<open>stop\<close> ends with an empty queue under every
  fair interleaving; \<open>start\<close> returns with workers that are ready;
  \<open>switchTo\<close>, functions that schedule themselves, tasks for unknown threads and the window before the requeue are shown as they
  behave. Locks: mutual exclusion,
  balance of the guards, exclusion of scopes; logging and configuration never deadlock when listeners only use loggers, and a
  listener that changes its own variable does. Threads: the start handshake. Logging: the pattern parser against a grammar and
  its round trip, what a log call writes to the console and the files, the manager's invariant, well-typed clients do not
  go wrong, loggers are their names; threads that log at once neither fault nor hang, through one logger their calls take
  effect one after the other, through two loggers their lines may tear. The static initialisers succeed in every order of the
  units. Configuration: the chain of
  notifications, vetoes, registration, loading, the container round trips. Environment: the command
  line round trip. Directories: listing, making and removing against reference definitions. Backtrace: the
  buffer of \<open>demangle\<close> and what it returns. This theory joins configuration and logging: a document that is loaded
  runs the listener that the start has added, and the loggers are as it says.

  \<^bold>\<open>Fuel.\<close> \<open>run_fiber\<close> takes fuel, of which two more than the events of a slice are enough (\<open>plain\<close> asks for it in theory
  WorkerFiber, where \<open>rounds\<close> is the number of rounds that is enough); \<open>Logger_log\<close> needs
  one level of roots, and so do \<open>Logger_log_locks\<close> (\<open>Logger_log_locks_fuel\<close>) and \<open>Logger_log_prog\<close>, where the end of the
  fuel is a fault that \<open>concurrent_logging_safe\<close> excludes. All other loops are total, with their measures; \<open>CASLock_lock\<close>, which may spin for
  ever, is a partial function.

  \<^bold>\<open>Parameters.\<close> yaml-cpp (\<open>yload\<close>, \<open>yemit\<close>, \<open>yas\<close>), \<open>boost::lexical_cast\<close>, \<open>strftime\<close>,
  \<open>__cxa_demangle\<close>, the answers of system calls and the order of hash tables are arguments; \<open>yaml_reads_back\<close>, \<open>yas_scalar\<close>, \<open>places_one\<close> and
  \<open>mk_lawful\<close> name what is assumed of them, and ConfigCast has an instance for the first. \<open>strftime\<close> may fail on a format whose
  date does not fit 64 bytes, and the line is then read from an uninitialised buffer: \<open>call_dates\<close> says of one log call that its
  dates fit, and the theorems on threads and clients that log take it of all formats.

  \<^bold>\<open>Not modelled.\<close> Reference counts of shared pointers, the memory of the stacks, memory ordering below the
  atomic sections, the text of internal log messages, \<open>noncopyable.h\<close> (checked by the compiler), the tests and
  benchmarks.
\<close>

section \<open>From a document to the loggers\<close>

text \<open>What the text of the entry \<open>logs\<close> does: the variable gets the definitions read, and the listener runs.\<close>

lemma logs_text_runs:
  assumes "yaml_reads_back yload yemit" and "yas_scalar yas"
    and "cv_type x = ''std::set<LogDefine>''" and "cv_val x = LogDefines old" and "cv_cbs x = [(k, Some (LogIniter_listener tstr))]"
    and "log_inv (pr_logs p)" and "unshared (pr_logs p)"
    and "call_dates tstr (e_level (pr_event p)) (pr_event p) (e_logger (pr_event p)) (pr_logs p)"
    and "loggers (pr_logs p) (e_logger (pr_event p)) \<noteq> None"
    and "defines_ok old" and "\<forall>d\<in>set ds. types_ok d"
  shows "\<exists>s. fromString_run (conf_from_str cast yload yemit idx yas mnode (cv_type x)) conf_eq
      (yemit (YSeq (map LogDefine_node ds))) (x, p) =
      Inr (if list_all2 LogDefine_eq (defines_read ds) old then ((x, p), Some True)
        else ((x\<lparr>cv_val := LogDefines (defines_read ds)\<rparr>, p\<lparr>pr_logs := s\<rparr>), Some True)) \<and>
    (\<forall>i\<in>set (defines_read ds). changed old i \<longrightarrow> configured (Env_has ''d'' (pr_env p)) i s) \<and>
    (\<forall>i\<in>set old. ld_name i \<notin> ld_name ` set (defines_read ds) \<longrightarrow> cleared (ld_name i) s) \<and>
    (\<forall>n l. n \<notin> ld_name ` {i \<in> set (defines_read ds). changed old i} \<longrightarrow>
       n \<notin> ld_name ` set old - ld_name ` set (defines_read ds) \<longrightarrow>
       map_of (m_loggers (pr_logs p)) n = Some l \<longrightarrow> map_of (m_loggers s) n = Some l \<and> loggers s l = loggers (pr_logs p) l)"
proof -
  from listener_spec [OF assms(6-10) defines_read_ok [OF assms(11)], of "pr_env p"] obtain s where
    s: "on_logger_conf_changed tstr (pr_event p) (pr_env p) old (defines_read ds) (pr_logs p) = Some (Inr s)"
    "\<forall>i\<in>set (defines_read ds). changed old i \<longrightarrow> configured (Env_has ''d'' (pr_env p)) i s"
    "\<forall>i\<in>set old. ld_name i \<notin> ld_name ` set (defines_read ds) \<longrightarrow> cleared (ld_name i) s"
    "\<forall>n l. n \<notin> ld_name ` {i \<in> set (defines_read ds). changed old i} \<longrightarrow>
       n \<notin> ld_name ` set old - ld_name ` set (defines_read ds) \<longrightarrow>
       map_of (m_loggers (pr_logs p)) n = Some l \<longrightarrow> map_of (m_loggers s) n = Some l \<and> loggers s l = loggers (pr_logs p) l"
    by blast
  moreover have "conf_from_str cast yload yemit idx yas mnode (cv_type x) (yemit (YSeq (map LogDefine_node ds))) =
      Inr (LogDefines (defines_read ds))"
    by (simp add: conf_from_str_def assms(3) defines_read_back [OF assms(1,2,11)])
  ultimately show ?thesis
    using assms(4,5) by (auto simp: fromString_run_def setValue_run_def LogIniter_listener_def)
qed

text \<open>
  C15. A YAML document reconfigures the loggers: when its member \<open>logs\<close> is a sequence of definitions, in any order,
  \<open>LoadFromYaml\<close> reads them (without the levels of the appenders, and the first one of each name) and
  returns. If \<open>operator==\<close> takes them for the present ones, nothing has changed. Otherwise they are
  the value of the variable, and its listener, the one that \<open>LogIniter\<close> added, has run: every definition that is new or
  changed describes its logger, with the option \<open>-d\<close> without the console appenders; the loggers whose definition is gone
  have level 0 and no appender; all the others are untouched. The loggers share no appenders before, the
  dates of the line that the listener logs fit their buffer, and the other entries of the document do not touch
  the loggers.
\<close>

theorem logs_document_configures_loggers:
  assumes "yaml_reads_back yload yemit" and "yas_scalar yas"
    and "ListAllMember '''' root = es1 @ (''logs'', YSeq (map LogDefine_node ds)) # es2"
    and "''logs'' \<notin> fst ` set es1" and "''logs'' \<notin> fst ` set es2"
    and "LookupBase ''logs'' vars = Some x" and "cv_type x = ''std::set<LogDefine>''" and "cv_val x = LogDefines old"
    and "cv_cbs x = [(k, Some (LogIniter_listener tstr))]"
    and "\<forall>i\<in>set (es1 @ es2). harmless yemit (conf_from_str cast yload yemit idx yas mnode) vars i"
    and "log_inv (pr_logs p)" and "unshared (pr_logs p)"
    and "call_dates tstr (e_level (pr_event p)) (pr_event p) (e_logger (pr_event p)) (pr_logs p)"
    and "loggers (pr_logs p) (e_logger (pr_event p)) \<noteq> None"
    and "defines_ok old" and "\<forall>d\<in>set ds. types_ok d"
  shows "\<exists>vars' p'. LoadFromYaml_run yemit (conf_from_str cast yload yemit idx yas mnode) (\<lambda>_. conf_eq) root (vars, p) =
      Inr ((vars', p'), True) \<and>
    (if list_all2 LogDefine_eq (defines_read ds) old
     then map_option cv_val (LookupBase ''logs'' vars') = Some (LogDefines old) \<and> p' = p
     else map_option cv_val (LookupBase ''logs'' vars') = Some (LogDefines (defines_read ds)) \<and>
      (\<forall>i\<in>set (defines_read ds). changed old i \<longrightarrow> configured (Env_has ''d'' (pr_env p)) i (pr_logs p')) \<and>
      (\<forall>i\<in>set old. ld_name i \<notin> ld_name ` set (defines_read ds) \<longrightarrow> cleared (ld_name i) (pr_logs p')) \<and>
      (\<forall>n l. n \<notin> ld_name ` {i \<in> set (defines_read ds). changed old i} \<longrightarrow>
         n \<notin> ld_name ` set old - ld_name ` set (defines_read ds) \<longrightarrow> map_of (m_loggers (pr_logs p)) n = Some l \<longrightarrow>
         map_of (m_loggers (pr_logs p')) n = Some l \<and> loggers (pr_logs p') l = loggers (pr_logs p) l))"
proof -
  from logs_text_runs [OF assms(1,2,7-9,11-16), of cast idx mnode] obtain s where
    f: "fromString_run (conf_from_str cast yload yemit idx yas mnode (cv_type x)) conf_eq
        (entry_text yemit (YSeq (map LogDefine_node ds))) (x, p) =
      Inr (if list_all2 LogDefine_eq (defines_read ds) old then ((x, p), Some True)
        else ((x\<lparr>cv_val := LogDefines (defines_read ds)\<rparr>, p\<lparr>pr_logs := s\<rparr>), Some True))"
    and s: "\<forall>i\<in>set (defines_read ds). changed old i \<longrightarrow> configured (Env_has ''d'' (pr_env p)) i s"
      "\<forall>i\<in>set old. ld_name i \<notin> ld_name ` set (defines_read ds) \<longrightarrow> cleared (ld_name i) s"
      "\<forall>n l. n \<notin> ld_name ` {i \<in> set (defines_read ds). changed old i} \<longrightarrow>
         n \<notin> ld_name ` set old - ld_name ` set (defines_read ds) \<longrightarrow> map_of (m_loggers (pr_logs p)) n = Some l \<longrightarrow>
         map_of (m_loggers s) n = Some l \<and> loggers s l = loggers (pr_logs p) l"
    by (auto simp: entry_text_def)
  have "map_of vars ''logs'' = Some x" using assms(6) by (simp add: LookupBase_def)
  note load = load_one_run [OF assms(3) _ assms(4,5) this assms(10), of "\<lambda>_. conf_eq"]
  show ?thesis
  proof (cases "list_all2 LogDefine_eq (defines_read ds) old")
    case True
    from load [of p x p True] f True assms(8) show ?thesis by (auto simp: LookupBase_def)
  next
    case False
    from load [of p "x\<lparr>cv_val := LogDefines (defines_read ds)\<rparr>" "p\<lparr>pr_logs := s\<rparr>" True] f False obtain vars' where
      "LoadFromYaml_run yemit (conf_from_str cast yload yemit idx yas mnode) (\<lambda>_. conf_eq) root (vars, p) =
        Inr ((vars', p\<lparr>pr_logs := s\<rparr>), True)" "map_of vars' ''logs'' = Some (x\<lparr>cv_val := LogDefines (defines_read ds)\<rparr>)"
      by auto
    with s False show ?thesis by (auto simp: LookupBase_def)
  qed
qed

text \<open>
  The start of a program, and then the document \<open>logs: [...]\<close> with one definition, on the variable as
  the start leaves it.
\<close>

theorem logs_document_configures_loggers_witness:
  "\<exists>u s vars' p'. static_inits demo_time (LoggerManager_new (\<lambda>_. True) (\<lambda>_. True) (\<lambda>_. True)) (concat units) startup_new = Inr u \<and>
    LoggerManager_new (\<lambda>_. True) (\<lambda>_. True) (\<lambda>_. True) = Inr s \<and>
    LoadFromYaml_run ex_emit (conf_from_str (\<lambda>_. Inr 0) ex_load ex_emit (\<lambda>_ _. '''') ex_as (\<lambda>_ _. YNull)) (\<lambda>_. conf_eq)
      (YMap [(''logs'', YSeq [LogDefine_node ex_define])])
      (su_datas u, \<lparr>pr_env = env_new, pr_event = demo_event\<lparr>e_logger := 0\<rparr>, pr_logs = s\<rparr>) = Inr ((vars', p'), True) \<and>
    map_option cv_val (LookupBase ''logs'' vars') = Some (LogDefines [ex_define]) \<and> configured False ex_define (pr_logs p')"
proof -
  let ?root = "YMap [(''logs'', YSeq (map LogDefine_node [ex_define]))]"
  let ?x = "(ConfigVar_new ''std::set<LogDefine>'' ''logs'' (LogDefines []) ''log config'')
      \<lparr>cv_cbs := [(1, Some (LogIniter_listener demo_time))]\<rparr>"
  obtain s where
    s: "LoggerManager_new (\<lambda>_. True) (\<lambda>_. True) (\<lambda>_. True) = Inr s" "log_inv s"
      "loggers s 0 = Some ((Logger_new ''root'')\<lparr>l_appenders := [1, 2, 3, 4]\<rparr>)"
    by (rule manager_starts) (use manager_sel in simp)
  let ?p = "\<lparr>pr_env = env_new, pr_event = demo_event\<lparr>e_logger := 0\<rparr>, pr_logs = s\<rparr>"
  obtain u where u: "static_inits demo_time (LoggerManager_new (\<lambda>_. True) (\<lambda>_. True) (\<lambda>_. True)) (concat units) startup_new = Inr u"
    "map_of (su_datas u) '''' = None"     "LookupBase ''logs'' (su_datas u) = Some ?x"
    using start_has_logs [OF merge_concat, of demo_time "\<lambda>_. True" "\<lambda>_. True" "\<lambda>_. True"] by blast
  have l: "ListAllMember '''' ?root = [('''', ?root)] @ (''logs'', YSeq (map LogDefine_node [ex_define])) # []"
    by (simp add: ListAllMember.simps name_ok_iff name_ok_def valid_name_chars_def)
  have x: "cv_type ?x = ''std::set<LogDefine>''" "cv_val ?x = LogDefines []" "cv_cbs ?x = [(1, Some (LogIniter_listener demo_time))]"
    by (simp_all add: ConfigVar_new_def)
  have h: "\<forall>i\<in>set ([('''', ?root)] @ []). harmless ex_emit (conf_from_str (\<lambda>_. Inr 0) ex_load ex_emit (\<lambda>_ _. '''') ex_as (\<lambda>_ _. YNull)) (su_datas u) i"
    using u(2) by (simp add: harmless_def)
  have d: "call_dates demo_time (e_level (pr_event ?p)) (pr_event ?p) (e_logger (pr_event ?p)) (pr_logs ?p)"
    by (rule call_dates_total) (simp add: demo_time_def)
  have r: "defines_read [ex_define] = [ex_define]" "changed [] ex_define" "Env_has ''d'' env_new = False"
    by (simp_all add: defines_read_def ex_define_def plain_define_def plain_appender_def LogAppenderDefine_new_def
        changed_def find_define_def Env_has_def env_new_def)
  have "log_inv (pr_logs ?p)" "unshared (pr_logs ?p)" "loggers (pr_logs ?p) (e_logger (pr_event ?p)) \<noteq> None"
    "defines_ok []" "\<forall>d\<in>set [ex_define]. types_ok d"
    using s manager_unshared [OF s(1)] by (simp_all add: defines_ok_def types_ok_def ex_define_def)
  from logs_document_configures_loggers [OF ex_reads_back ex_as_scalar l _ _ u(3) x h this(1,2) d this(3-5)]
  show ?thesis using s(1) u(1) r by fastforce
qed

end
